(* ===== verification/Prelude.thy ===== *)
theory Prelude
  imports "HOL-Library.Word" "HOL-Library.Signed_Division"
begin

text \<open>
  What every other theory of the development shares: the names of the machine
  types (a 32-bit x86 target, so C's \<open>int\<close>, \<open>long\<close> and pointers are all
  32 bits wide), the kernel's fatal outcomes and the sequencing of operations that may
  end in one, C's signed division, and the arithmetic of 4 KB pages: splitting an
  address into its page and its offset, and the 1024 word slots of a page.
\<close>

unbundle bit_operations_syntax

section \<open>Machine types\<close>

type_synonym u8 = "8 word"
type_synonym u16 = "16 word"
type_synonym u32 = "32 word"

section \<open>Outcomes that do not return to the caller\<close>

text \<open>
  \<open>Panic msg\<close> is a call of the function \<open>panic\<close> (kernel/panic.c), which prints
  its message and spins for ever; \<open>Halt msg\<close> the same for \<open>die\<close> (kernel/traps.c).
  \<open>Out_of_bounds\<close> and \<open>Null_deref\<close> are C behaviours without a meaning:
  an index past the end of an array, a dereference of a null pointer. \<open>Hang\<close> is a loop
  that used up the steps it was given.
\<close>

datatype kerror =
  Panic string | Halt string | Out_of_bounds | Null_deref | Hang

fun kbind :: "kerror + 'a \<Rightarrow> ('a \<Rightarrow> kerror + 'b) \<Rightarrow> kerror + 'b" where
  "kbind (Inl e) f = Inl e"
| "kbind (Inr x) f = f x"

named_theorems kbind_elim \<open>case analysis of a sequence of operations that ended well\<close>
named_theorems word_arith \<open>unsigned values of the word expressions of the code\<close>

lemma kbind_Inr_iff [kbind_elim]:
  "kbind m f = Inr y \<longleftrightarrow> (\<exists>x. m = Inr x \<and> f x = Inr y)"
  by (cases m) auto

lemma kbind_Inl_iff:
  "kbind m f = Inl e \<longleftrightarrow> m = Inl e \<or> (\<exists>x. m = Inr x \<and> f x = Inl e)"
  by (cases m) auto

lemma kbind_assoc: "kbind (kbind m f) g = kbind m (\<lambda>x. kbind (f x) g)"
  by (cases m) auto

lemma kbind_Inr_right [simp]: "kbind m Inr = m"
  by (cases m) auto

lemma kbind_cong [fundef_cong]:
  "m = m' \<Longrightarrow> (\<And>x. m' = Inr x \<Longrightarrow> f x = g x) \<Longrightarrow> kbind m f = kbind m' g"
  by (cases m') auto

section \<open>Signed arithmetic of C\<close>

text \<open>Division and remainder of C's \<open>int\<close> truncate towards zero.\<close>

definition c_div :: "u32 \<Rightarrow> u32 \<Rightarrow> u32" where
  "c_div a b = word_of_int (sint a sdiv sint b)"

definition c_mod :: "u32 \<Rightarrow> u32 \<Rightarrow> u32" where
  "c_mod a b = word_of_int (sint a smod sint b)"

lemma sint_add_small:
  fixes a b :: u32
  assumes "- 2147483648 \<le> sint a + sint b" "sint a + sint b < 2147483648"
  shows "sint (a + b) = sint a + sint b"
  using assms by (simp add: sint_word_ariths signed_take_bit_int_eq_self)

lemma sint_half: "sint (signed_drop_bit 1 (a :: u32)) = sint a div 2"
  by (simp add: sint_signed_drop_bit_eq drop_bit_eq_div)

lemma sint_minus_1: "0 \<le> sint (a :: u32) \<Longrightarrow> sint (a - 1) = sint a - 1"
  using sint_lt [of a] by (simp add: sint_word_ariths signed_take_bit_int_eq_self)

lemma sint_of_nat_small: "n < 2147483648 \<Longrightarrow> sint (of_nat n :: u32) = int n"
  using sint_sbintrunc' [where 'a = 32, of "int n"] by (simp add: signed_take_bit_int_eq_self)

lemma sdiv_int: "int a sdiv int b = int (a div b)"
  by (cases "b = 0") (simp_all add: signed_divide_int_def zdiv_int sgn_if)

lemma sint_0_iff: "sint (a :: u32) = 0 \<longleftrightarrow> a = 0"
  by (metis signed_0 signed_word_eqI)

lemma unat_sint: "int (unat (x :: u32)) = (if sint x < 0 then sint x + 4294967296 else sint x)"
proof -
  have "int (unat x) = sint x mod 4294967296"
    using uint_sint [of x] by (simp add: take_bit_eq_mod)
  moreover have "sint x mod 4294967296 = sint x" if "0 \<le> sint x"
    using that sint_lt [of x] by (intro mod_pos_pos_trivial) simp_all
  moreover have "sint x mod 4294967296 = sint x + 4294967296" if "sint x < 0"
    using that sint_ge [of x] mod_pos_pos_trivial [of "sint x + 4294967296" 4294967296] by simp
  ultimately show ?thesis by auto
qed

lemma negative_word: "x <s (0 :: u32) \<longleftrightarrow> 2147483648 \<le> unat x"
proof -
  have b: "- 2147483648 \<le> sint x" "sint x < 2147483648" using sint_ge [of x] sint_lt [of x] by simp_all
  show ?thesis
  proof (cases "sint x < 0")
    case True
    then have "int (unat x) = sint x + 4294967296" using unat_sint [of x] by (simp only: if_True)
    with b have "2147483648 \<le> unat x" by linarith
    with True show ?thesis by (simp add: word_sless_alt)
  next
    case False
    then have "int (unat x) = sint x" using unat_sint [of x] by (simp only: if_False)
    with b have "\<not> 2147483648 \<le> unat x" by linarith
    with False show ?thesis by (simp add: word_sless_alt)
  qed
qed

lemma sint_of_int_small: "- 2147483648 \<le> k \<Longrightarrow> k < 2147483648 \<Longrightarrow> sint (word_of_int k :: u32) = k"
  using sint_sbintrunc' [where 'a = 32, of k] by (simp add: signed_take_bit_int_eq_self)

lemma sint_nonneg: "unat (x :: u32) < 2147483648 \<Longrightarrow> sint x = int (unat x)"
proof -
  assume u: "unat x < 2147483648"
  have b: "- 2147483648 \<le> sint x" using sint_ge [of x] by simp
  show ?thesis
  proof (cases "sint x < 0")
    case True
    then have "int (unat x) = sint x + 4294967296" using unat_sint [of x] by (simp only: if_True)
    then show ?thesis using u b by linarith
  next
    case False
    then show ?thesis using unat_sint [of x] by (simp only: if_False)
  qed
qed

section \<open>Pages\<close>

text \<open>
  The code writes \<open>0xfffff000 & x\<close> for the page an address lies in. A page has 1024
  slots of four bytes; \<open>slot p k\<close> is the address of slot \<open>k\<close> of the page at
  \<open>p\<close>, where a C loop arrives after \<open>k\<close> increments of an \<open>unsigned long *\<close>.
\<close>

abbreviation page_of :: "u32 \<Rightarrow> u32" where
  "page_of x \<equiv> x AND 0xfffff000"

abbreviation page_aligned :: "u32 \<Rightarrow> bool" where
  "page_aligned p \<equiv> page_of p = p"

definition slot :: "u32 \<Rightarrow> nat \<Rightarrow> u32" where
  "slot p k = p + of_nat (4 * k)"

lemma page_mask_eq: "(0xfffff000 :: u32) = NOT (mask 12)"
  by (simp add: mask_eq_exp_minus_1)

lemma page_of_eq_shift: "page_of x = push_bit 12 (drop_bit 12 x)"
  unfolding page_mask_eq by (rule bit_word_eqI) (auto simp: bit_simps)

lemma u32_less: "unat (x :: u32) < 4294967296"
  by (rule unsigned_less [where 'b = 32 and 'a = nat, simplified])

lemma unat_page_of [word_arith]: "unat (page_of x) = unat x div 4096 * 4096"
proof -
  have "unat x div 4096 < 1048576"
    using u32_less [of x] by (simp add: less_mult_imp_div_less)
  then show ?thesis
    by (simp add: page_of_eq_shift unsigned_push_bit_eq unat_drop_bit_eq push_bit_eq_mult [where 'a = nat]
        drop_bit_eq_div [where 'a = nat] take_bit_nat_eq_self)
qed

lemma page_of_page_of [simp]: "page_of (page_of x) = page_of x"
  by (simp add: and.assoc)

lemma page_aligned_0 [simp]: "page_aligned 0"
  by simp

lemma page_aligned_iff_dvd: "page_aligned p \<longleftrightarrow> 4096 dvd unat p"
proof -
  have "page_aligned p \<longleftrightarrow> unat (page_of p) = unat p"
    by (metis unsigned_word_eqI)
  also have "\<dots> \<longleftrightarrow> unat p div 4096 * 4096 = unat p"
    by (simp only: unat_page_of)
  also have "\<dots> \<longleftrightarrow> 4096 dvd unat p"
    by (metis dvd_div_mult_self dvd_triv_right)
  finally show ?thesis .
qed

lemma unat_of_nat_u32 [word_arith]: "n < 4294967296 \<Longrightarrow> unat (of_nat n :: u32) = n"
  by (simp add: unat_of_nat take_bit_nat_eq_self)

lemma unat_add_page_offset:
  assumes "page_aligned p" "n < 4096"
  shows "unat (p + of_nat n) = unat p + n"
proof -
  from assms(1) obtain q where q: "unat p = 4096 * q"
    by (auto simp: page_aligned_iff_dvd)
  with u32_less [of p] have "q < 1048576" by simp
  with q assms(2) have "unat p + n < 4294967296" by simp
  with assms(2) show ?thesis
    by (simp add: unat_word_ariths unat_of_nat_u32)
qed

lemma page_of_add_offset:
  assumes "page_aligned p" "n < 4096"
  shows "page_of (p + of_nat n) = p"
proof -
  from assms(1) obtain q where q: "unat p = 4096 * q"
    by (auto simp: page_aligned_iff_dvd)
  have "unat (page_of (p + of_nat n)) = unat p"
    using assms q by (simp add: unat_page_of unat_add_page_offset)
  then show ?thesis by (rule unsigned_word_eqI)
qed

lemma unat_slot [word_arith]: "page_aligned p \<Longrightarrow> k < 1024 \<Longrightarrow> unat (slot p k) = unat p + 4 * k"
  unfolding slot_def by (rule unat_add_page_offset) auto

lemma page_of_slot [simp]: "page_aligned p \<Longrightarrow> k < 1024 \<Longrightarrow> page_of (slot p k) = p"
  unfolding slot_def by (rule page_of_add_offset) auto

lemma slot_0 [simp]: "slot p 0 = p"
  by (simp add: slot_def)

lemma slot_Suc: "slot p k + 4 = slot p (Suc k)"
  by (simp add: slot_def algebra_simps)

lemma slot_inject [simp]:
  assumes "page_aligned p" "page_aligned q" "j < 1024" "k < 1024"
  shows "slot p j = slot q k \<longleftrightarrow> p = q \<and> j = k"
proof
  assume eq: "slot p j = slot q k"
  with assms have "p = q" by (metis page_of_slot)
  moreover have "unat (slot p j) = unat (slot q k)" using eq by simp
  ultimately show "p = q \<and> j = k" using assms by (simp add: unat_slot)
qed simp

text \<open>The index of a linear address in the page directory and in a page table.\<close>

definition dir_index :: "u32 \<Rightarrow> nat" where
  "dir_index x = unat x div 4194304"

definition tbl_index :: "u32 \<Rightarrow> nat" where
  "tbl_index x = unat x div 4096 mod 1024"

lemma dir_index_less [simp]: "dir_index x < 1024"
  using u32_less [of x] by (simp add: dir_index_def less_mult_imp_div_less)

lemma tbl_index_less [simp]: "tbl_index x < 1024"
  by (simp add: tbl_index_def)

lemma tbl_offset_eq_slot: "(drop_bit 10 x AND 0xffc :: u32) = slot 0 (tbl_index x)"
proof -
  have e: "(0xffc :: u32) = push_bit 2 (mask 10)"
    by (simp add: mask_eq_exp_minus_1)
  have "drop_bit 10 x AND 0xffc = push_bit 2 (take_bit 10 (drop_bit 12 x))"
    unfolding e by (rule bit_word_eqI) (auto simp: bit_simps)
  then have "unat (drop_bit 10 x AND 0xffc) = 4 * tbl_index x"
    by (simp add: unsigned_push_bit_eq unsigned_take_bit_eq unat_drop_bit_eq push_bit_eq_mult [where 'a = nat]
        drop_bit_eq_div [where 'a = nat] take_bit_eq_mod [where 'a = nat] tbl_index_def mult.commute)
  moreover have "unat (slot 0 (tbl_index x)) = 4 * tbl_index x"
    by (simp add: unat_slot)
  ultimately show ?thesis by (metis unsigned_word_eqI)
qed

lemma dir_offset_eq_slot: "(drop_bit 20 x AND 0xffc :: u32) = slot 0 (dir_index x)"
proof -
  have "drop_bit 20 x AND 0xffc = slot 0 (tbl_index (drop_bit 10 x))"
    by (simp add: tbl_offset_eq_slot [symmetric] drop_bit_drop_bit add.commute)
  moreover have "tbl_index (drop_bit 10 x) = dir_index x"
    using u32_less [of x]
    by (simp add: tbl_index_def dir_index_def unat_drop_bit_eq drop_bit_eq_div [where 'a = nat] div_mult2_eq [symmetric]
        less_mult_imp_div_less)
  ultimately show ?thesis by simp
qed

lemma add_slot_0: "p + slot 0 k = slot p k" "slot 0 k + p = slot p k"
  by (simp_all add: slot_def)

lemma tbl_offset_10_eq: "unat (drop_bit 12 x AND 0x3ff :: u32) = tbl_index x"
proof -
  have e: "(0x3ff :: u32) = mask 10"
    by (simp add: mask_eq_exp_minus_1)
  show ?thesis
    unfolding e
    by (simp add: take_bit_eq_mask [symmetric] unsigned_take_bit_eq unat_drop_bit_eq
        drop_bit_eq_div [where 'a = nat] take_bit_eq_mod [where 'a = nat] tbl_index_def)
qed

lemmas page_arith = tbl_offset_eq_slot dir_offset_eq_slot add_slot_0 tbl_offset_10_eq

lemma if_eq_cases: "(if b then x else y) = z \<Longrightarrow> (b \<Longrightarrow> x = z \<Longrightarrow> R) \<Longrightarrow> (\<not> b \<Longrightarrow> y = z \<Longrightarrow> R) \<Longrightarrow> R"
  by (auto split: if_splits)

end
