(* ===== verification/Page_Alloc.thy ===== *)
theory Page_Alloc
  imports Prelude
begin

text \<open>
  The physical page allocator of mm/memory.c: the byte map \<open>mem_map\<close> with one reference
  count per 4 KB frame above 1 MB, its initialisation (\<open>mem_init\<close>), allocation
  (\<open>get_free_page\<close>) and release (\<open>free_page\<close>) of a frame, and the usage report
  (\<open>calc_mem\<close>). The state record declared here holds what the memory manager
  owns; the records of the later theories extend it.
\<close>

section \<open>State\<close>

text \<open>
  \<open>phys a\<close> is the 32-bit word at the physical address \<open>a\<close>, for \<open>a\<close> a multiple
  of four: the kernel maps physical memory at linear address 0 and every access of
  mm/memory.c is an aligned \<open>unsigned long\<close>. The page directory is the page at address 0
  (boot/head.s). \<open>mem_map\<close> is the array of \<open>PAGING_PAGES\<close> bytes; the model returns
  \<open>Out_of_bounds\<close> for an access past its end. \<open>klog\<close> lists the calls of \<open>printk\<close>,
  each with its format (without the final newline) and its numeric arguments, the latest
  first.
\<close>

record mm =
  HIGH_MEMORY :: u32
  mem_map :: "nat \<Rightarrow> u8"
  phys :: "u32 \<Rightarrow> u32"
  klog :: "(string \<times> u32 list) list"

text \<open>The C assignment \<open>*a = v\<close>.\<close>

definition store :: "u32 \<Rightarrow> u32 \<Rightarrow> 'a mm_scheme \<Rightarrow> 'a mm_scheme" where
  "store a v s = s\<lparr>phys := (phys s)(a := v)\<rparr>"

lemma store_simps [simp]:
  "phys (store a v s) = (phys s)(a := v)" "mem_map (store a v s) = mem_map s"
  "HIGH_MEMORY (store a v s) = HIGH_MEMORY s" "klog (store a v s) = klog s"
  "mm.more (store a v s) = mm.more s"
  by (simp_all add: store_def)

definition LOW_MEM :: u32 where
  "LOW_MEM = 0x100000"

definition PAGING_MEMORY :: nat where
  "PAGING_MEMORY = 15 * 1024 * 1024"

definition PAGING_PAGES :: nat where
  "PAGING_PAGES = PAGING_MEMORY div 4096"

definition MAP_NR :: "u32 \<Rightarrow> nat" where
  "MAP_NR addr = unat (drop_bit 12 (addr - LOW_MEM))"

definition USED :: u8 where
  "USED = 100"

definition printk_call :: "string \<Rightarrow> u32 list \<Rightarrow> 'a mm_scheme \<Rightarrow> 'a mm_scheme" where
  "printk_call fmt args s = s\<lparr>klog := (fmt, args) # klog s\<rparr>"

definition oom :: "kerror + 'b" where
  "oom = Inl (Panic ''Out of Memory!! QWQ'')"

section \<open>Operations\<close>

text \<open>\<open>mem_set n i v\<close> is the loop that stores \<open>v\<close> in \<open>n\<close> entries from index \<open>i\<close> on.\<close>

fun mem_set :: "nat \<Rightarrow> nat \<Rightarrow> u8 \<Rightarrow> 'a mm_scheme \<Rightarrow> kerror + 'a mm_scheme" where
  "mem_set 0 i v s = Inr s"
| "mem_set (Suc n) i v s =
     (if i < PAGING_PAGES
      then mem_set n (Suc i) v (s\<lparr>mem_map := (mem_map s)(i := v)\<rparr>)
      else Inl Out_of_bounds)"

definition mem_init :: "u32 \<Rightarrow> u32 \<Rightarrow> 'a mm_scheme \<Rightarrow> kerror + 'a mm_scheme" where
  "mem_init start_mem end_mem s =
     kbind (mem_set PAGING_PAGES 0 USED (s\<lparr>HIGH_MEMORY := end_mem\<rparr>)) (\<lambda>s1.
       mem_set (unat (drop_bit 12 (end_mem - start_mem))) (MAP_NR start_mem) 0 s1)"

text \<open>
  The \<open>repne scasb\<close> of \<open>get_free_page\<close>: it looks for a zero byte among the first
  \<open>n\<close> entries, from the last one downwards.
\<close>

fun scasb :: "(nat \<Rightarrow> u8) \<Rightarrow> nat \<Rightarrow> nat option" where
  "scasb m 0 = None"
| "scasb m (Suc n) = (if m n = 0 then Some n else scasb m n)"

text \<open>The \<open>rep stosl\<close> of \<open>get_free_page\<close>: the 1024 words of the page become 0.\<close>

definition clear_page :: "u32 \<Rightarrow> (u32 \<Rightarrow> u32) \<Rightarrow> (u32 \<Rightarrow> u32)" where
  "clear_page p m = (\<lambda>a. if page_of a = p then 0 else m a)"

definition get_free_page :: "'a mm_scheme \<Rightarrow> u32 \<times> 'a mm_scheme" where
  "get_free_page s =
     (case scasb (mem_map s) PAGING_PAGES of
        None \<Rightarrow> (0, s)
      | Some i \<Rightarrow>
          (let page = push_bit 12 (of_nat i) + LOW_MEM in
           (page, s\<lparr>mem_map := (mem_map s)(i := 1), phys := clear_page page (phys s)\<rparr>)))"

definition free_page :: "u32 \<Rightarrow> 'a mm_scheme \<Rightarrow> kerror + 'a mm_scheme" where
  "free_page addr s =
     (if addr < LOW_MEM then Inr s
      else if addr \<ge> HIGH_MEMORY s then Inr s
      else if MAP_NR addr \<ge> PAGING_PAGES then Inl Out_of_bounds
      else if mem_map s (MAP_NR addr) \<noteq> 0
        then Inr (s\<lparr>mem_map := (mem_map s)(MAP_NR addr := mem_map s (MAP_NR addr) - 1)\<rparr>)
      else Inl (Panic ''Trying to free free page!''))"

text \<open>The counting loops of \<open>calc_mem\<close>, which prints what they find.\<close>

fun count_free :: "(nat \<Rightarrow> u8) \<Rightarrow> nat \<Rightarrow> nat" where
  "count_free m 0 = 0"
| "count_free m (Suc n) = (if m n = 0 then Suc (count_free m n) else count_free m n)"

fun count_present :: "(u32 \<Rightarrow> u32) \<Rightarrow> u32 \<Rightarrow> nat \<Rightarrow> nat" where
  "count_present m t 0 = 0"
| "count_present m t (Suc n) =
     (if m (slot t n) AND 1 \<noteq> 0 then Suc (count_present m t n) else count_present m t n)"

fun calc_dirs :: "nat \<Rightarrow> nat \<Rightarrow> 'a mm_scheme \<Rightarrow> 'a mm_scheme" where
  "calc_dirs 0 i s = s"
| "calc_dirs (Suc n) i s =
     calc_dirs n (Suc i)
       (if phys s (slot 0 i) AND 1 \<noteq> 0
        then printk_call ''PageDir[%d] uses %d pages''
          [of_nat i, of_nat (count_present (phys s) (0xfffff000 AND phys s (slot 0 i)) 1024)] s
        else s)"

definition calc_mem :: "'a mm_scheme \<Rightarrow> 'a mm_scheme" where
  "calc_mem s =
     calc_dirs 1022 2
       (printk_call ''%d pages free (of %d in total)''
          [of_nat (count_free (mem_map s) PAGING_PAGES), of_nat PAGING_PAGES] s)"

section \<open>Frames\<close>

text \<open>\<open>frame i\<close> is the address of the frame that \<open>mem_map\<close> counts at index \<open>i\<close>.\<close>

definition frame :: "nat \<Rightarrow> u32" where
  "frame i = push_bit 12 (of_nat i) + LOW_MEM"

definition managed :: "u32 \<Rightarrow> bool" where
  "managed p \<longleftrightarrow> page_aligned p \<and> LOW_MEM \<le> p \<and> p < 0x1000000"

lemma PAGING_PAGES_eq [simp]: "PAGING_PAGES = 3840"
  by (simp add: PAGING_PAGES_def PAGING_MEMORY_def)

lemma unat_frame [word_arith]:
  assumes "i < 3840" shows "unat (frame i) = 1048576 + 4096 * i"
proof -
  have "frame i = of_nat (1048576 + 4096 * i)"
    by (simp add: frame_def LOW_MEM_def push_bit_eq_mult)
  moreover have "1048576 + 4096 * i < 4294967296" using assms by simp
  ultimately show ?thesis by (metis unat_of_nat_u32)
qed

lemma MAP_NR_eq [word_arith]:
  assumes "LOW_MEM \<le> p" shows "MAP_NR p = (unat p - 1048576) div 4096"
proof -
  have "unat (p - LOW_MEM) = unat p - unat LOW_MEM"
    using assms by (rule unat_sub)
  then show ?thesis
    by (simp add: MAP_NR_def LOW_MEM_def unat_drop_bit_eq drop_bit_eq_div [where 'a = nat])
qed

lemma managed_frame [simp]: "i < 3840 \<Longrightarrow> managed (frame i)"
  by (simp add: managed_def page_aligned_iff_dvd unat_frame word_le_nat_alt word_less_nat_alt LOW_MEM_def)

lemma MAP_NR_frame [simp]:
  assumes "i < 3840" shows "MAP_NR (frame i) = i"
proof -
  have "LOW_MEM \<le> frame i" using managed_frame [OF assms] by (simp add: managed_def)
  with assms show ?thesis by (simp add: MAP_NR_eq unat_frame)
qed

lemma managed_eq_frame:
  assumes "managed p" shows "MAP_NR p < 3840" and "frame (MAP_NR p) = p"
proof -
  from assms have l: "1048576 \<le> unat p" and h: "unat p < 16777216" and d: "4096 dvd unat p"
    and low: "LOW_MEM \<le> p"
    by (auto simp: managed_def page_aligned_iff_dvd word_le_nat_alt word_less_nat_alt LOW_MEM_def)
  from d obtain q where q: "unat p = 4096 * q" by auto
  then have nr: "MAP_NR p = q - 256" using low l by (simp add: MAP_NR_eq)
  with h q show less: "MAP_NR p < 3840" by simp
  have "unat (frame (MAP_NR p)) = unat p"
    using less nr q l by (simp add: unat_frame)
  then show "frame (MAP_NR p) = p" by (rule unsigned_word_eqI)
qed

lemma managed_inject: "managed p \<Longrightarrow> managed q \<Longrightarrow> MAP_NR p = MAP_NR q \<longleftrightarrow> p = q"
  by (metis managed_eq_frame(2))

lemma managed_page_aligned [simp]: "managed p \<Longrightarrow> page_aligned p"
  by (simp add: managed_def)

lemma managed_nonzero [simp]: "managed p \<Longrightarrow> p \<noteq> 0"
  by (auto simp: managed_def LOW_MEM_def)

lemma not_managed_0 [simp]: "\<not> managed 0"
  by (simp add: managed_def LOW_MEM_def)

lemma MAP_NR_page_of:
  assumes "LOW_MEM \<le> x" shows "LOW_MEM \<le> page_of x" and "MAP_NR (page_of x) = MAP_NR x"
proof -
  from assms have "1048576 \<le> unat x" by (simp add: LOW_MEM_def word_le_nat_alt)
  then obtain m where m: "unat x = 1048576 + m" by (auto simp: le_iff_add)
  have q: "unat x div 4096 = 256 + m div 4096" by (simp add: m)
  show l: "LOW_MEM \<le> page_of x" by (simp add: LOW_MEM_def word_le_nat_alt unat_page_of q)
  show "MAP_NR (page_of x) = MAP_NR x"
    using l assms unfolding MAP_NR_eq [OF l] MAP_NR_eq [OF assms] unat_page_of q by (simp add: m)
qed

section \<open>The reference counts and the pool\<close>

text \<open>
  The frames \<open>free_page\<close> acts on are those below \<open>HIGH_MEMORY\<close>. The frames above it stay
  marked as used: that is what \<open>mem_init\<close> establishes and every operation keeps.
\<close>

definition pool :: "'a mm_scheme \<Rightarrow> u32 \<Rightarrow> bool" where
  "pool s p \<longleftrightarrow> managed p \<and> p < HIGH_MEMORY s"

definition refs :: "'a mm_scheme \<Rightarrow> u32 \<Rightarrow> nat" where
  "refs s p = (if managed p then unat (mem_map s (MAP_NR p)) else 0)"

definition alloc_inv :: "'a mm_scheme \<Rightarrow> bool" where
  "alloc_inv s \<longleftrightarrow> HIGH_MEMORY s \<le> 0x1000000 \<and>
     (\<forall>i < 3840. HIGH_MEMORY s \<le> frame i \<longrightarrow> mem_map s i \<noteq> 0)"

lemma scasb_None: "scasb m n = None \<longleftrightarrow> (\<forall>i < n. m i \<noteq> 0)"
  by (induction n) (auto simp: less_Suc_eq)

lemma scasb_SomeD: "scasb m n = Some i \<Longrightarrow> i < n \<and> m i = 0 \<and> (\<forall>j < n. i < j \<longrightarrow> m j \<noteq> 0)"
  by (induction n) (auto simp: less_Suc_eq split: if_splits)

lemma refs_frame: "i < 3840 \<Longrightarrow> refs s (frame i) = unat (mem_map s i)"
  by (simp add: refs_def)

lemma refs_upd:
  "i < 3840 \<Longrightarrow> refs (s\<lparr>mem_map := (mem_map s)(i := v)\<rparr>) = (refs s)(frame i := unat v)"
  by (auto simp: refs_def fun_eq_iff managed_eq_frame managed_inject dest: managed_eq_frame)

lemma refs_cong: "mem_map s = mem_map t \<Longrightarrow> refs s = refs t"
  by (simp add: refs_def fun_eq_iff)

lemma poolD: "pool s p \<Longrightarrow> managed p \<and> p < HIGH_MEMORY s"
  by (simp add: pool_def)

lemma get_free_page_None:
  "scasb (mem_map s) 3840 = None \<Longrightarrow> get_free_page s = (0, s)"
  by (simp add: get_free_page_def)

lemma get_free_page_Some:
  "scasb (mem_map s) 3840 = Some i \<Longrightarrow> get_free_page s =
     (frame i, s\<lparr>mem_map := (mem_map s)(i := 1), phys := clear_page (frame i) (phys s)\<rparr>)"
  by (simp add: get_free_page_def frame_def Let_def)

lemma get_free_page_0:
  assumes "get_free_page s = (0, s')"
  shows "s' = s \<and> (\<forall>p. managed p \<longrightarrow> refs s p \<noteq> 0)"
proof (cases "scasb (mem_map s) 3840")
  case None
  then have "\<forall>p. managed p \<longrightarrow> refs s p \<noteq> 0"
    by (auto simp: scasb_None refs_def unat_eq_0 managed_eq_frame)
  with None assms show ?thesis by (simp add: get_free_page_None)
next
  case (Some i)
  then have "i < 3840" by (auto dest: scasb_SomeD)
  then have "frame i \<noteq> 0" by simp
  with Some assms show ?thesis by (simp add: get_free_page_Some)
qed

lemma get_free_page_nonzero:
  assumes "get_free_page s = (p, s')" "p \<noteq> 0"
  shows "managed p" and "refs s p = 0" and "refs s' = (refs s)(p := 1)"
    and "phys s' = clear_page p (phys s)" and "HIGH_MEMORY s' = HIGH_MEMORY s" and "klog s' = klog s"
    and "mem_map s' = (mem_map s)(MAP_NR p := 1)"
    and "s' = s\<lparr>mem_map := mem_map s', phys := phys s'\<rparr>"
    and "\<And>q. managed q \<Longrightarrow> p < q \<Longrightarrow> refs s q \<noteq> 0"
proof -
  obtain i where i: "scasb (mem_map s) 3840 = Some i"
    using assms by (cases "scasb (mem_map s) 3840") (auto simp: get_free_page_None)
  then have less: "i < 3840" and zero: "mem_map s i = 0"
    and above: "\<forall>j < 3840. i < j \<longrightarrow> mem_map s j \<noteq> 0"
    by (auto dest: scasb_SomeD)
  from i assms have p: "p = frame i"
    and s': "s' = s\<lparr>mem_map := (mem_map s)(i := 1), phys := clear_page (frame i) (phys s)\<rparr>"
    by (auto simp: get_free_page_Some)
  have "refs s' = refs (s\<lparr>mem_map := (mem_map s)(i := 1)\<rparr>)"
    by (simp add: s' refs_cong)
  with less p show "refs s' = (refs s)(p := 1)" by (simp add: refs_upd)
  show "managed p" "refs s p = 0" "phys s' = clear_page p (phys s)" "HIGH_MEMORY s' = HIGH_MEMORY s"
    "klog s' = klog s" "mem_map s' = (mem_map s)(MAP_NR p := 1)"
    "s' = s\<lparr>mem_map := mem_map s', phys := phys s'\<rparr>"
    using less zero by (simp_all add: p s' refs_frame)
  show "refs s q \<noteq> 0" if q: "managed q" "p < q" for q
  proof -
    from q have j: "MAP_NR q < 3840" "frame (MAP_NR q) = q" by (auto simp: managed_eq_frame)
    with q(2) p less have "i < MAP_NR q"
      by (simp add: word_less_nat_alt) (metis add_less_cancel_left unat_frame mult_less_cancel1)
    with above j show ?thesis by (simp add: refs_def q(1) unat_eq_0)
  qed
qed

lemma get_free_page_pool:
  assumes "alloc_inv s" "get_free_page s = (p, s')" "p \<noteq> 0"
  shows "pool s p" and "alloc_inv s'" and "pool s' = pool s"
proof -
  note g = get_free_page_nonzero [OF assms(2,3)]
  have "mem_map s (MAP_NR p) = 0" using g(1,2) by (simp add: refs_def unat_eq_0)
  then have "\<not> HIGH_MEMORY s \<le> p"
    using assms(1) managed_eq_frame [OF g(1)] unfolding alloc_inv_def by metis
  with g(1) show "pool s p" by (simp add: pool_def not_le)
  show "alloc_inv s'" using assms(1) by (simp add: alloc_inv_def g(5,7))
  show "pool s' = pool s" by (simp add: pool_def fun_eq_iff g(5))
qed

lemma free_page_pool:
  assumes "pool s p"
  shows "free_page p s =
    (if refs s p = 0 then Inl (Panic ''Trying to free free page!'')
     else Inr (s\<lparr>mem_map := (mem_map s)(MAP_NR p := mem_map s (MAP_NR p) - 1)\<rparr>))"
proof -
  from assms have m: "managed p" and h: "p < HIGH_MEMORY s" by (auto simp: pool_def)
  then have "\<not> p < LOW_MEM" "\<not> HIGH_MEMORY s \<le> p" "\<not> 3840 \<le> MAP_NR p"
    using managed_eq_frame(1) [OF m] by (auto simp: managed_def not_less not_le)
  with m show ?thesis
    by (simp add: free_page_def refs_def unat_eq_0)
qed

lemma free_page_refs:
  assumes "pool s p" "refs s p \<noteq> 0" "free_page p s = Inr s'"
  shows "refs s' = (refs s)(p := refs s p - 1)"
proof -
  from assms(1) have m: "managed p" by (simp add: pool_def)
  from assms have s': "s' = s\<lparr>mem_map := (mem_map s)(MAP_NR p := mem_map s (MAP_NR p) - 1)\<rparr>"
    by (simp add: free_page_pool)
  have nz: "mem_map s (MAP_NR p) \<noteq> 0" using assms(2) m by (auto simp: refs_def)
  have "refs s' = (refs s)(p := unat (mem_map s (MAP_NR p) - 1))"
    unfolding s' using managed_eq_frame [OF m] by (simp add: refs_upd)
  moreover have "unat (mem_map s (MAP_NR p) - 1) = refs s p - 1"
    using nz m by (simp add: refs_def unat_minus_one)
  ultimately show ?thesis by simp
qed

section \<open>What a page allocator promises\<close>

text \<open>
  The interface the page tables and the processes rely on: a pool of frames with a
  reference count each, allocation of a frame nobody refers to, and release of one
  reference. The facts proved from it hold for every allocator with these laws.
\<close>

locale page_frames =
  fixes inv :: "'s \<Rightarrow> bool"
    and avail :: "'s \<Rightarrow> u32 \<Rightarrow> bool"
    and cnt :: "'s \<Rightarrow> u32 \<Rightarrow> nat"
    and alloc :: "'s \<Rightarrow> u32 \<times> 's"
    and release :: "u32 \<Rightarrow> 's \<Rightarrow> kerror + 's"
  assumes alloc_fails: "inv s \<Longrightarrow> alloc s = (0, s') \<Longrightarrow> s' = s \<and> (\<forall>p. avail s p \<longrightarrow> cnt s p \<noteq> 0)"
    and alloc_gives: "inv s \<Longrightarrow> alloc s = (p, s') \<Longrightarrow> p \<noteq> 0 \<Longrightarrow>
      avail s p \<and> cnt s p = 0 \<and> inv s' \<and> avail s' = avail s \<and> cnt s' = (cnt s)(p := 1)"
    and release_last: "inv s \<Longrightarrow> avail s p \<Longrightarrow> cnt s p \<noteq> 0 \<Longrightarrow>
      \<exists>s'. release p s = Inr s' \<and> inv s' \<and> avail s' = avail s \<and> cnt s' = (cnt s)(p := cnt s p - 1)"
    and release_free: "inv s \<Longrightarrow> avail s p \<Longrightarrow> cnt s p = 0 \<Longrightarrow> \<exists>msg. release p s = Inl (Panic msg)"
begin

fun alloc_many :: "nat \<Rightarrow> 's \<Rightarrow> u32 list \<times> 's" where
  "alloc_many 0 s = ([], s)"
| "alloc_many (Suc n) s =
     (case alloc s of (p, s1) \<Rightarrow>
        if p = 0 then ([], s) else (case alloc_many n s1 of (ps, s2) \<Rightarrow> (p # ps, s2)))"

fun release_all :: "u32 list \<Rightarrow> 's \<Rightarrow> kerror + 's" where
  "release_all [] s = Inr s"
| "release_all (p # ps) s = kbind (release p s) (release_all ps)"

lemma alloc_then_release:
  assumes "inv s" "alloc s = (p, s1)" "p \<noteq> 0"
  shows "\<exists>s2. release p s1 = Inr s2 \<and> inv s2 \<and> cnt s2 = cnt s"
proof -
  note a = alloc_gives [OF assms]
  then have "cnt s1 p = 1" by simp
  with a obtain s2 where "release p s1 = Inr s2" "inv s2" "cnt s2 = (cnt s1)(p := cnt s1 p - 1)"
    using release_last [of s1 p] by auto
  moreover have "(cnt s1)(p := cnt s1 p - 1) = cnt s" using a by (auto simp: fun_eq_iff)
  ultimately show ?thesis by auto
qed

lemma release_twice_panics:
  assumes "inv s" "alloc s = (p, s1)" "p \<noteq> 0"
  shows "\<exists>s2 msg. release p s1 = Inr s2 \<and> release p s2 = Inl (Panic msg)"
proof -
  from alloc_then_release [OF assms] obtain s2 where
    s2: "release p s1 = Inr s2" "inv s2" "cnt s2 = cnt s" by auto
  note a = alloc_gives [OF assms]
  then have "avail s1 p" "cnt s1 p \<noteq> 0" "inv s1" "avail s1 = avail s" by auto
  then have "avail s2 = avail s" using release_last [of s1 p] s2(1) by auto
  with a s2 have "\<exists>msg. release p s2 = Inl (Panic msg)" by (intro release_free) auto
  with s2(1) show ?thesis by blast
qed

lemma alloc_many_distinct:
  assumes "inv s" "alloc_many n s = (ps, s')"
  shows "distinct ps \<and> inv s' \<and> avail s' = avail s \<and> set ps \<subseteq> {p. avail s p \<and> cnt s p = 0} \<and>
    cnt s' = (\<lambda>p. if p \<in> set ps then 1 else cnt s p)"
  using assms
proof (induction n arbitrary: s ps)
  case 0
  then show ?case by auto
next
  case (Suc n)
  obtain p s1 where a: "alloc s = (p, s1)" by fastforce
  show ?case
  proof (cases "p = 0")
    case True
    with Suc.prems a show ?thesis by auto
  next
    case False
    obtain qs where q: "alloc_many n s1 = (qs, s')" "ps = p # qs"
      using Suc.prems(2) a False by (auto split: prod.splits)
    note g = alloc_gives [OF Suc.prems(1) a False]
    with q(1) Suc.IH [of s1 qs] have "distinct qs \<and> inv s' \<and> avail s' = avail s1 \<and>
      set qs \<subseteq> {q. avail s1 q \<and> cnt s1 q = 0} \<and>
      cnt s' = (\<lambda>q. if q \<in> set qs then 1 else cnt s1 q)" by blast
    with g q(2) show ?thesis by (auto simp: fun_eq_iff split: if_splits)
  qed
qed

lemma release_all_restores:
  assumes "inv s'" "avail s' = avail s" "distinct ps" "set ps \<subseteq> {p. avail s p \<and> cnt s p = 0}"
    and "cnt s' = (\<lambda>p. if p \<in> set ps then 1 else cnt s p)"
  shows "\<exists>t. release_all ps s' = Inr t \<and> inv t \<and> cnt t = cnt s"
  using assms
proof (induction ps arbitrary: s')
  case Nil
  then show ?case by auto
next
  case (Cons p ps)
  from Cons.prems have "avail s' p" "cnt s' p = 1" by auto
  with Cons.prems(1) obtain t where t: "release p s' = Inr t" "inv t" "avail t = avail s'"
    "cnt t = (cnt s')(p := 0)" using release_last [of s' p] by auto
  have c: "cnt t = (\<lambda>q. if q \<in> set ps then 1 else cnt s q)"
    using t(4) Cons.prems(3-5) by (auto simp: fun_eq_iff)
  have a: "avail t = avail s" using t(3) Cons.prems(2) by simp
  have "\<exists>u. release_all ps t = Inr u \<and> inv u \<and> cnt u = cnt s"
    using Cons.prems(3,4) by (intro Cons.IH t(2) a c) auto
  with t(1) show ?case by auto
qed

lemma alloc_many_roundtrip:
  assumes "inv s" "alloc_many n s = (ps, s')"
  shows "\<exists>t. release_all ps s' = Inr t \<and> inv t \<and> cnt t = cnt s"
  using alloc_many_distinct [OF assms] by (intro release_all_restores) auto

end

text \<open>The allocator of mm/memory.c keeps that contract.\<close>

interpretation memory: page_frames alloc_inv pool refs get_free_page free_page
proof
  fix s s' :: "'a mm_scheme"
  assume "get_free_page s = (0, s')"
  then show "s' = s \<and> (\<forall>p. pool s p \<longrightarrow> refs s p \<noteq> 0)"
    by (auto dest: get_free_page_0 simp: pool_def)
next
  fix s s' :: "'a mm_scheme" and p
  assume a: "alloc_inv s" "get_free_page s = (p, s')" "p \<noteq> 0"
  then show "pool s p \<and> refs s p = 0 \<and> alloc_inv s' \<and> pool s' = pool s \<and> refs s' = (refs s)(p := 1)"
    using get_free_page_pool [OF a] get_free_page_nonzero(2,3) [OF a(2,3)] by simp
next
  fix s :: "'a mm_scheme" and p
  assume a: "alloc_inv s" "pool s p" "refs s p \<noteq> 0"
  let ?t = "s\<lparr>mem_map := (mem_map s)(MAP_NR p := mem_map s (MAP_NR p) - 1)\<rparr>"
  have f: "free_page p s = Inr ?t" using a by (simp add: free_page_pool)
  moreover have "alloc_inv ?t"
    using a(1,2) unfolding alloc_inv_def by (auto simp: pool_def managed_eq_frame not_le)
  moreover have "pool ?t = pool s" by (simp add: pool_def fun_eq_iff)
  ultimately show "\<exists>s'. free_page p s = Inr s' \<and> alloc_inv s' \<and> pool s' = pool s \<and>
      refs s' = (refs s)(p := refs s p - 1)"
    using free_page_refs [OF a(2,3) f] by blast
next
  fix s :: "'a mm_scheme" and p
  assume "pool s p" "refs s p = 0"
  then show "\<exists>msg. free_page p s = Inl (Panic msg)" by (simp add: free_page_pool)
qed

section \<open>Properties\<close>

lemma mem_set_eq:
  "mem_set n i v s =
    (if n = 0 \<or> i + n \<le> 3840
     then Inr (s\<lparr>mem_map := (\<lambda>j. if i \<le> j \<and> j < i + n then v else mem_map s j)\<rparr>)
     else Inl Out_of_bounds)"
proof (induction n arbitrary: i s)
  case 0
  have "(\<lambda>j. if i \<le> j \<and> j < i then v else mem_map s j) = mem_map s"
    by (auto simp: fun_eq_iff)
  then show ?case by simp
next
  case (Suc n)
  have "(\<lambda>j. if Suc i \<le> j \<and> j < Suc i + n then v else ((mem_map s)(i := v)) j) =
      (\<lambda>j. if i \<le> j \<and> j < i + Suc n then v else mem_map s j)"
    by (auto simp: fun_eq_iff)
  then show ?case by (auto simp: Suc.IH fun_eq_iff)
qed

lemma scasb_step: "0 < n \<Longrightarrow> scasb m n = (if m (n - 1) = 0 then Some (n - 1) else scasb m (n - 1))"
  by (cases n) auto

text \<open>Sixteen megabytes of memory with every frame above 1 MB free, for closed examples.\<close>

definition all_free :: mm where
  "all_free = \<lparr>HIGH_MEMORY = 0x1000000, mem_map = (\<lambda>_. 0), phys = (\<lambda>_. 0), klog = []\<rparr>"

lemma all_free_inv: "alloc_inv all_free"
proof -
  have "\<not> (0x1000000 :: u32) \<le> frame i" if "i < 3840" for i
    using managed_frame [OF that] by (simp add: managed_def not_le)
  then show ?thesis by (simp add: alloc_inv_def all_free_def)
qed

lemma get_free_page_all_free:
  "get_free_page all_free = (0xfff000, all_free
     \<lparr>mem_map := (\<lambda>_. 0)(3839 := 1), phys := clear_page 0xfff000 (\<lambda>_. 0)\<rparr>)"
  by (simp add: get_free_page_def all_free_def scasb_step LOW_MEM_def)

text \<open>C1: \<open>get_free_page\<close> returns 0, changing nothing, exactly when no frame of the pool is
  free; otherwise it returns the highest free frame, whose count becomes 1 and whose 1024
  words become 0, and it changes no other count and no other word.\<close>

theorem get_free_page_correct:
  assumes "alloc_inv s" and "get_free_page s = (p, s')"
  shows "if p = 0 then s' = s \<and> (\<forall>q. pool s q \<longrightarrow> refs s q \<noteq> 0)
    else pool s p \<and> refs s p = 0 \<and> (\<forall>q. pool s q \<and> refs s q = 0 \<longrightarrow> q \<le> p) \<and>
      refs s' = (refs s)(p := 1) \<and> (\<forall>a. phys s' a = (if page_of a = p then 0 else phys s a)) \<and>
      HIGH_MEMORY s' = HIGH_MEMORY s \<and> alloc_inv s'"
proof (cases "p = 0")
  case True
  with assms show ?thesis using memory.alloc_fails by auto
next
  case False
  note g = get_free_page_nonzero [OF assms(2) False]
  have "q \<le> p" if "pool s q" "refs s q = 0" for q
    using that g(9) [of q] by (auto simp: pool_def not_le [symmetric])
  with False memory.alloc_gives [OF assms False] g(4,5) show ?thesis
    by (simp add: clear_page_def)
qed

theorem get_free_page_correct_witness:
  "alloc_inv all_free \<and> fst (get_free_page all_free) = 0xfff000 \<and> refs all_free 0xfff000 = 0 \<and>
   refs (snd (get_free_page all_free)) 0xfff000 = 1"
  using get_free_page_correct [OF all_free_inv get_free_page_all_free] all_free_inv
  by (simp add: get_free_page_all_free)

text \<open>C2: a frame that \<open>get_free_page\<close> gave out is returned to the pool by one
  \<open>free_page\<close>, with every count as before the allocation, and a second \<open>free_page\<close> of it
  ends in the panic for freeing a free page.\<close>

theorem free_page_after_get_free_page:
  assumes "alloc_inv s" and "get_free_page s = (p, s1)" and "p \<noteq> 0"
  shows "\<exists>s2. free_page p s1 = Inr s2 \<and> refs s2 = refs s \<and> alloc_inv s2 \<and>
    (\<exists>msg. free_page p s2 = Inl (Panic msg))"
  using memory.alloc_then_release [OF assms] memory.release_twice_panics [OF assms] by auto

theorem free_page_after_get_free_page_witness:
  "\<exists>s2. free_page 0xfff000 (snd (get_free_page all_free)) = Inr s2 \<and> refs s2 = refs all_free"
  using free_page_after_get_free_page [OF all_free_inv get_free_page_all_free]
  by (auto simp: get_free_page_all_free)

text \<open>The byte map after \<open>mem_init\<close>, and what it means.\<close>

definition freed_map :: "u32 \<Rightarrow> u32 \<Rightarrow> (nat \<Rightarrow> u8) \<Rightarrow> (nat \<Rightarrow> u8)" where
  "freed_map start_mem end_mem m =
     (\<lambda>j. if MAP_NR start_mem \<le> j \<and> j < unat end_mem div 4096 - 256 then 0 else if j < 3840 then USED else m j)"

lemma mem_init_eq:
  assumes "managed start_mem" and "page_aligned end_mem" and "start_mem < end_mem"
  shows "mem_init start_mem end_mem s =
    (if end_mem \<le> 0x1000000 then Inr (s\<lparr>HIGH_MEMORY := end_mem, mem_map := freed_map start_mem end_mem (mem_map s)\<rparr>)
     else Inl Out_of_bounds)"
proof -
  let ?n = "unat (drop_bit 12 (end_mem - start_mem))" and ?i = "MAP_NR start_mem"
  obtain a where a: "unat start_mem = 1048576 + 4096 * a"
    using unat_frame [OF managed_eq_frame(1) [OF assms(1)]] managed_eq_frame(2) [OF assms(1)] by metis
  obtain b where b: "unat end_mem = 4096 * b"
    using assms(2) by (auto simp: page_aligned_iff_dvd)
  have ab: "256 + a < b" using assms(3) a b by (simp add: word_less_nat_alt)
  have i: "?i = a" using assms(1) a by (simp add: MAP_NR_eq managed_def)
  have "unat (end_mem - start_mem) = 4096 * (b - (256 + a))"
    using assms(3) a b by (simp add: unat_sub algebra_simps)
  then have n: "?n = b - (256 + a)"
    by (simp add: unat_drop_bit_eq drop_bit_eq_div [where 'a = nat])
  have "end_mem \<le> 0x1000000 \<longleftrightarrow> b \<le> 4096" using b by (simp add: word_le_nat_alt)
  then show ?thesis
    using ab by (auto simp: mem_init_def mem_set_eq i n b freed_map_def fun_eq_iff)
qed

lemma freed_map_refs:
  assumes "managed start_mem" and "page_aligned end_mem" and "end_mem \<le> 0x1000000" and "start_mem < end_mem"
    and "HIGH_MEMORY s = end_mem" and "mem_map s = freed_map start_mem end_mem m"
  shows "alloc_inv s" and "managed p \<Longrightarrow> refs s p = (if start_mem \<le> p \<and> p < end_mem then 0 else unat USED)"
proof -
  obtain b where b: "unat end_mem = 4096 * b"
    using assms(2) by (auto simp: page_aligned_iff_dvd)
  obtain a where a: "unat start_mem = 1048576 + 4096 * a"
    using unat_frame [OF managed_eq_frame(1) [OF assms(1)]] managed_eq_frame(2) [OF assms(1)] by metis
  have i: "MAP_NR start_mem = a" using assms(1) a by (simp add: MAP_NR_eq managed_def)
  show "alloc_inv s"
    using assms b by (auto simp: alloc_inv_def USED_def word_le_nat_alt unat_frame freed_map_def)
  show "refs s p = (if start_mem \<le> p \<and> p < end_mem then 0 else unat USED)" if "managed p"
  proof -
    from that have j: "MAP_NR p < 3840" "frame (MAP_NR p) = p" by (auto simp: managed_eq_frame)
    then have "unat p = 1048576 + 4096 * MAP_NR p" by (metis unat_frame)
    with a b i j that show ?thesis
      by (auto simp: refs_def assms(6) freed_map_def word_le_nat_alt word_less_nat_alt)
  qed
qed

text \<open>\<open>mem_init\<close> on page-aligned bounds at or above 1 MB frees exactly the frames
  between the two bounds and marks every other frame used, establishing the allocator's
  invariant; an upper bound past 16 MB makes it write past the end of \<open>mem_map\<close>.\<close>

theorem mem_init_correct:
  assumes "managed start_mem" and "page_aligned end_mem" and "start_mem < end_mem"
  shows "if end_mem \<le> 0x1000000
    then \<exists>s'. mem_init start_mem end_mem s = Inr s' \<and> alloc_inv s' \<and> HIGH_MEMORY s' = end_mem \<and>
      phys s' = phys s \<and>
      (\<forall>p. managed p \<longrightarrow> refs s' p = (if start_mem \<le> p \<and> p < end_mem then 0 else unat USED))
    else mem_init start_mem end_mem s = Inl Out_of_bounds"
proof (cases "end_mem \<le> 0x1000000")
  case True
  then show ?thesis
    using mem_init_eq [OF assms, of s]
      freed_map_refs [OF assms(1,2) True assms(3), of "s\<lparr>HIGH_MEMORY := end_mem, mem_map := freed_map start_mem end_mem (mem_map s)\<rparr>" "mem_map s"]
    by simp
next
  case False
  then show ?thesis using mem_init_eq [OF assms, of s] by simp
qed

theorem mem_init_correct_witness:
  "\<exists>s'. mem_init 0x100000 0x300000 all_free = Inr s' \<and> alloc_inv s' \<and>
     refs s' 0x100000 = 0 \<and> refs s' 0x2ff000 = 0 \<and> refs s' 0x300000 = 100"
proof -
  have "managed 0x100000" "managed 0x2ff000" "managed 0x300000"
    by (simp_all add: managed_def LOW_MEM_def)
  with mem_init_correct [of "0x100000" "0x300000" all_free] show ?thesis
    by (auto simp: USED_def)
qed

end
