(* ===== verification/Page_Tables.thy ===== *)
theory Page_Tables
  imports Page_Alloc
begin

text \<open>
  The page tables of mm/memory.c: mapping a frame at a linear address (\<open>put_page\<close>,
  \<open>get_empty_page\<close>), the two page-fault handlers (\<open>do_no_page\<close>, \<open>do_wp_page\<close>), the removal
  of write protection (\<open>un_wp_page\<close>, \<open>write_verify\<close>), and the page-table helpers of
  mm/mm_test.c. Serial debug output and the reload of the TLB have no effect on the state
  and are left out.
\<close>

section \<open>Operations\<close>

definition put_page :: "u32 \<Rightarrow> u32 \<Rightarrow> 'a mm_scheme \<Rightarrow> kerror + u32 \<times> 'a mm_scheme" where
  "put_page page address s =
     (let s1 = (if page < LOW_MEM \<or> page \<ge> HIGH_MEMORY s
                then printk_call ''Trying to put page %x at %x'' [page, address] s else s) in
      if MAP_NR page \<ge> PAGING_PAGES then Inl Out_of_bounds
      else
        let s2 = (if mem_map s1 (MAP_NR page) \<noteq> 1
                  then printk_call ''mem_map disagrees with %x at %x'' [page, address] s1 else s1);
            dir = drop_bit 20 address AND 0xffc;
            index = unat (drop_bit 12 address AND 0x3ff) in
        if phys s2 dir AND 1 \<noteq> 0
        then
          let pg_tbl = phys s2 dir AND 0xfffff000 in
          Inr (page, store (slot pg_tbl index) (page OR 7) s2)
        else
          (case get_free_page s2 of (tmp, s3) \<Rightarrow>
             if tmp = 0 then Inr (0, printk_call ''NO FREE PAGE!'' [] s3)
             else
               let s4 = store dir (tmp OR 7) s3 in
               Inr (page, store (slot tmp index) (page OR 7) s4)))"

definition get_empty_page :: "u32 \<Rightarrow> 'a mm_scheme \<Rightarrow> kerror + 'a mm_scheme" where
  "get_empty_page address s =
     (case get_free_page s of (tmp, s1) \<Rightarrow>
        if tmp = 0 then kbind (free_page tmp s1) (\<lambda>_. oom)
        else kbind (put_page tmp address s1) (\<lambda>(r, s2).
          if r = 0 then kbind (free_page tmp s2) (\<lambda>_. oom) else Inr s2))"

definition un_wp_page :: "u32 \<Rightarrow> 'a mm_scheme \<Rightarrow> kerror + 'a mm_scheme" where
  "un_wp_page table_entry s =
     (let old_page = phys s table_entry AND 0xfffff000 in
      if old_page \<ge> LOW_MEM \<and> MAP_NR old_page \<ge> PAGING_PAGES then Inl Out_of_bounds
      else if old_page \<ge> LOW_MEM \<and> mem_map s (MAP_NR old_page) = 1
      then Inr (store table_entry (phys s table_entry OR 2) s)
      else
        (case get_free_page s of (new_page, s1) \<Rightarrow>
           if new_page = 0 then oom
           else
             let s2 = (if old_page \<ge> LOW_MEM
                       then s1\<lparr>mem_map := (mem_map s1)
                                (MAP_NR old_page := mem_map s1 (MAP_NR old_page) - 1)\<rparr>
                       else s1) in
             Inr (store table_entry (new_page OR 7) s2)))"

definition write_verify :: "u32 \<Rightarrow> 'a mm_scheme \<Rightarrow> kerror + 'a mm_scheme" where
  "write_verify address s =
     (let page = phys s (drop_bit 20 address AND 0xffc) in
      if page AND 1 = 0 then Inr s
      else
        let page = (page AND 0xfffff000) + (drop_bit 10 address AND 0xffc) in
        if phys s page AND 3 = 1 then un_wp_page page s else Inr s)"

definition do_wp_page :: "u32 \<Rightarrow> u32 \<Rightarrow> 'a mm_scheme \<Rightarrow> kerror + 'a mm_scheme" where
  "do_wp_page error_code address s =
     un_wp_page ((drop_bit 10 address AND 0xffc) +
       (0xfffff000 AND phys s (drop_bit 20 address AND 0xffc))) s"

definition do_no_page :: "u32 \<Rightarrow> u32 \<Rightarrow> 'a mm_scheme \<Rightarrow> kerror + 'a mm_scheme" where
  "do_no_page error_code address s =
     (let address = address AND 0xfffff000 in
      case get_free_page s of (page, s1) \<Rightarrow>
        if page = 0 then oom
        else kbind (put_page page address s1) (\<lambda>(r, s2).
          if r \<noteq> 0 then Inr s2 else kbind (free_page page s2) (\<lambda>_. oom)))"

text \<open>The page-fault entry of mm/page.s: bit 0 of the error code tells the two apart.\<close>

definition page_fault :: "u32 \<Rightarrow> u32 \<Rightarrow> 'a mm_scheme \<Rightarrow> kerror + 'a mm_scheme" where
  "page_fault error_code cr2 s =
     (if error_code AND 1 = 0 then do_no_page error_code cr2 s else do_wp_page error_code cr2 s)"

text \<open>The helpers of mm/mm_test.c.\<close>

definition linear_to_pte :: "u32 \<Rightarrow> 'a mm_scheme \<Rightarrow> u32" where
  "linear_to_pte addr s =
     (let pde = drop_bit 20 addr AND 0xffc in
      if phys s pde AND 1 = 0 \<or> pde > 0x1000 then 0
      else (phys s pde AND 0xfffff000) + push_bit 2 (drop_bit 12 addr AND 0x3ff))"

definition disable_linear :: "u32 \<Rightarrow> 'a mm_scheme \<Rightarrow> 'a mm_scheme" where
  "disable_linear addr s = store (linear_to_pte addr s) 0 s"

definition mm_read_only :: "u32 \<Rightarrow> 'a mm_scheme \<Rightarrow> 'a mm_scheme" where
  "mm_read_only addr s =
     (let pte = linear_to_pte addr s;
          s1 = printk_call ''Before: 0x%x'' [phys s pte] s;
          s2 = store pte (phys s1 pte AND 0xfffffffd) s1 in
      printk_call ''After: 0x%x'' [phys s2 pte] s2)"

text \<open>What \<open>mm_print_pageinfo\<close> sends to the serial port, piece by piece.\<close>

definition mm_print_pageinfo :: "u32 \<Rightarrow> 'a mm_scheme \<Rightarrow> (string \<times> u32 list) list" where
  "mm_print_pageinfo addr s =
     (let pte = linear_to_pte addr s; e = phys s pte in
      [(''[DEBUG] Linear addr: 0x%x, PTE addr = 0x%x. Flags[ '', [addr, pte])] @
      (if e AND 1 \<noteq> 0 then [(''P '', [])] else []) @
      (if e AND 2 \<noteq> 0 then [(''R/W '', [])] else [(''RO '', [])]) @
      (if e AND 4 \<noteq> 0 then [(''U/S '', [])] else [(''S '', [])]) @
      [('']'', []), (''[DEBUG] Phyaddr = %x'', [e AND 0xfffff000])])"

section \<open>The translation the tables define\<close>

text \<open>
  \<open>dirent s d\<close> is directory entry \<open>d\<close>, \<open>table s d\<close> the table it points to and \<open>entry s d t\<close>
  the entry at index \<open>t\<close> of that table when both are present. \<open>walk s x\<close> is the entry the
  processor finds for the linear address \<open>x\<close>.
\<close>

definition dirent :: "'a mm_scheme \<Rightarrow> nat \<Rightarrow> u32" where
  "dirent s d = phys s (slot 0 d)"

definition dir_present :: "'a mm_scheme \<Rightarrow> nat \<Rightarrow> bool" where
  "dir_present s d \<longleftrightarrow> dirent s d AND 1 \<noteq> 0"

definition table :: "'a mm_scheme \<Rightarrow> nat \<Rightarrow> u32" where
  "table s d = page_of (dirent s d)"

definition entry :: "'a mm_scheme \<Rightarrow> nat \<Rightarrow> nat \<Rightarrow> u32 option" where
  "entry s d t =
     (if dir_present s d \<and> phys s (slot (table s d) t) AND 1 \<noteq> 0
      then Some (phys s (slot (table s d) t)) else None)"

definition walk :: "'a mm_scheme \<Rightarrow> u32 \<Rightarrow> u32 option" where
  "walk s x = entry s (dir_index x) (tbl_index x)"

lemma table_aligned [simp]: "page_aligned (table s d)"
  by (simp add: table_def)

text \<open>
  Well-formed tables: distinct directory entries point to distinct tables, none of them
  the directory itself, and a table in a managed frame is a frame in use.
\<close>

definition wf_dir :: "'a mm_scheme \<Rightarrow> bool" where
  "wf_dir s \<longleftrightarrow>
     (\<forall>d < 1024. dir_present s d \<longrightarrow> table s d \<noteq> 0 \<and> (managed (table s d) \<longrightarrow> refs s (table s d) \<noteq> 0)) \<and>
     (\<forall>d < 1024. \<forall>d' < 1024. dir_present s d \<and> dir_present s d' \<and> table s d = table s d' \<longrightarrow> d = d')"

section \<open>How one store changes the tables\<close>

lemma page_of_flags [simp]: "page_aligned p \<Longrightarrow> page_of (p OR 7) = p"
  by (simp add: bit.conj_disj_distrib2)

lemma present_flags [simp]: "(p OR 7) AND 1 = (1 :: u32)"
  by (simp add: bit.conj_disj_distrib2 word_ao_absorbs)

lemma dir_presentI: "dirent s d = p OR 7 \<Longrightarrow> dir_present s d"
  by (simp add: dir_present_def)

lemma wf_dirD:
  assumes "wf_dir s" "d < 1024" "dir_present s d"
  shows "table s d \<noteq> 0" and "managed (table s d) \<Longrightarrow> 0 < refs s (table s d)"
  using assms by (auto simp: wf_dir_def)

lemma wf_dir_inj:
  "wf_dir s \<Longrightarrow> d < 1024 \<Longrightarrow> d' < 1024 \<Longrightarrow> dir_present s d \<Longrightarrow> dir_present s d' \<Longrightarrow>
   table s d = table s d' \<longleftrightarrow> d = d'"
  by (auto simp: wf_dir_def)

lemma wf_dir_cong:
  assumes "wf_dir s" "\<And>d. d < 1024 \<Longrightarrow> dirent s' d = dirent s d"
    and "\<And>d. d < 1024 \<Longrightarrow> dir_present s d \<Longrightarrow> managed (table s d) \<Longrightarrow> refs s' (table s d) \<noteq> 0"
  shows "wf_dir s'"
  using assms by (auto simp: wf_dir_def dir_present_def table_def)

lemma refs_store [simp]: "refs (s\<lparr>phys := m\<rparr>) = refs s" "refs (store a v s) = refs s"
  by (simp_all add: refs_def fun_eq_iff)

lemma refs_klog [simp]: "refs (s\<lparr>klog := l\<rparr>) = refs s"
  by (simp add: refs_def fun_eq_iff)

lemma alloc_inv_phys [simp]: "alloc_inv (s\<lparr>phys := m\<rparr>) = alloc_inv s"
  "alloc_inv (s\<lparr>klog := l\<rparr>) = alloc_inv s" "alloc_inv (store a v s) = alloc_inv s"
  by (simp_all add: alloc_inv_def)

lemma pool_phys [simp]: "pool (s\<lparr>phys := m\<rparr>) = pool s" "pool (s\<lparr>klog := l\<rparr>) = pool s"
  "pool (store a v s) = pool s"
  by (simp_all add: pool_def fun_eq_iff)

lemma tables_klog [simp]:
  "dirent (s\<lparr>klog := l\<rparr>) = dirent s" "entry (s\<lparr>klog := l\<rparr>) = entry s"
  "dir_present (s\<lparr>klog := l\<rparr>) = dir_present s" "table (s\<lparr>klog := l\<rparr>) = table s"
  by (simp_all add: dirent_def entry_def dir_present_def table_def fun_eq_iff)

text \<open>A store into a slot of table \<open>d0\<close>.\<close>

lemma dirent_store_slot:
  "page_aligned p \<Longrightarrow> p \<noteq> 0 \<Longrightarrow> t < 1024 \<Longrightarrow> d < 1024 \<Longrightarrow> dirent (store (slot p t) v s) d = dirent s d"
  by (simp add: dirent_def)

lemma store_entry_facts:
  fixes s :: "'a mm_scheme" and v :: u32
  assumes "wf_dir s" "d0 < 1024" "t0 < 1024" "dir_present s d0"
  defines "s' \<equiv> store (slot (table s d0) t0) v s"
  shows dirent_store_entry: "d < 1024 \<Longrightarrow> dirent s' d = dirent s d"
    and dir_present_store_entry: "d < 1024 \<Longrightarrow> dir_present s' d = dir_present s d"
    and table_store_entry: "d < 1024 \<Longrightarrow> table s' d = table s d"
    and wf_dir_store_entry: "wf_dir s'"
    and entry_store_entry: "d < 1024 \<Longrightarrow> t < 1024 \<Longrightarrow> entry s' d t =
      (if d = d0 \<and> t = t0 then (if v AND 1 = 0 then None else Some v) else entry s d t)"
proof -
  have nz: "table s d0 \<noteq> 0" using assms by (simp add: wf_dirD)
  then show 1: "dirent s' d = dirent s d" if "d < 1024" for d
    using assms that by (simp add: dirent_store_slot)
  then show 2: "dir_present s' d = dir_present s d" and 3: "table s' d = table s d" if "d < 1024" for d
    using that by (simp_all add: dir_present_def table_def)
  show "wf_dir s'"
    using assms(1) 1 by (rule wf_dir_cong) (use assms(1) in \<open>auto simp: s'_def wf_dirD\<close>)
  show "entry s' d t = (if d = d0 \<and> t = t0 then (if v AND 1 = 0 then None else Some v) else entry s d t)"
    if "d < 1024" "t < 1024"
    using that assms 2 [OF that(1)] 3 [OF that(1)]
    by (auto simp: entry_def wf_dir_inj s'_def)
qed

text \<open>A directory entry that starts to point to a cleared, unused table.\<close>

lemma new_table_facts:
  assumes "wf_dir s" "d0 < 1024" "\<not> dir_present s d0" "managed p" "refs s p \<noteq> 0"
    and fresh: "\<And>d. d < 1024 \<Longrightarrow> dir_present s d \<Longrightarrow> table s d \<noteq> p"
    and clear: "\<And>t. t < 1024 \<Longrightarrow> phys s (slot p t) = 0"
  defines "s' \<equiv> store (slot 0 d0) (p OR 7) s"
  shows dirent_new_table: "d < 1024 \<Longrightarrow> dirent s' d = (if d = d0 then p OR 7 else dirent s d)"
    and wf_dir_new_table: "wf_dir s'"
    and entry_new_table: "d < 1024 \<Longrightarrow> t < 1024 \<Longrightarrow> entry s' d t = entry s d t"
    and dir_present_new_table: "d < 1024 \<Longrightarrow> dir_present s' d = (d = d0 \<or> dir_present s d)"
    and table_new_table: "table s' d0 = p"
proof -
  have p: "page_aligned p" "p \<noteq> 0" using assms(4) by auto
  show 1: "dirent s' d = (if d = d0 then p OR 7 else dirent s d)" if "d < 1024" for d
    using assms(2) that by (simp add: dirent_def s'_def)
  then show 2: "dir_present s' d = (d = d0 \<or> dir_present s d)" if "d < 1024" for d
    using that by (simp add: dir_present_def)
  from 1 have 3: "table s' d = (if d = d0 then p else table s d)" if "d < 1024" for d
    using that p by (simp add: table_def)
  with assms(2) show "table s' d0 = p" by simp
  have "refs s' = refs s" by (simp add: s'_def)
  with assms(1,5) p fresh show "wf_dir s'"
    unfolding wf_dir_def by (auto simp: 2 3)
  have "phys s' (slot q t) = phys s (slot q t)" if "q \<noteq> 0" "page_aligned q" "t < 1024" for q t
    using that assms(2) by (simp add: s'_def)
  then show "entry s' d t = entry s d t" if "d < 1024" "t < 1024"
    using that p clear assms(1,3) 2 [OF that(1)] 3 [OF that(1)]
    by (auto simp: entry_def wf_dirD)
qed

text \<open>Allocating a frame leaves the tables alone: no table lies in a free frame.\<close>

lemma alloc_facts:
  assumes "wf_dir s" "get_free_page s = (p, s')" "p \<noteq> 0"
  shows dirent_alloc: "d < 1024 \<Longrightarrow> dirent s' d = dirent s d"
    and dir_present_alloc: "d < 1024 \<Longrightarrow> dir_present s' d = dir_present s d"
    and table_alloc: "d < 1024 \<Longrightarrow> table s' d = table s d"
    and table_not_alloc: "d < 1024 \<Longrightarrow> dir_present s d \<Longrightarrow> table s d \<noteq> p"
    and entry_alloc: "d < 1024 \<Longrightarrow> t < 1024 \<Longrightarrow> entry s' d t = entry s d t"
    and wf_dir_alloc: "wf_dir s'"
    and alloc_clear: "t < 1024 \<Longrightarrow> phys s' (slot p t) = 0"
proof -
  note g = get_free_page_nonzero [OF assms(2,3)]
  show 1: "dirent s' d = dirent s d" if "d < 1024" for d
    using that assms(3) by (simp add: dirent_def g(4) clear_page_def)
  then show 2: "dir_present s' d = dir_present s d" and 3: "table s' d = table s d" if "d < 1024" for d
    using that by (simp_all add: dir_present_def table_def)
  show 4: "table s d \<noteq> p" if "d < 1024" "dir_present s d" for d
    using that g(1,2) assms(1) by (auto dest: wf_dirD)
  show "entry s' d t = entry s d t" if "d < 1024" "t < 1024"
    using that 2 3 4 by (auto simp: entry_def g(4) clear_page_def)
  show "wf_dir s'"
    using assms(1) 1 by (rule wf_dir_cong) (use assms(1) in \<open>auto simp: g(3) wf_dirD\<close>)
  show "phys s' (slot p t) = 0" if "t < 1024"
    using that g(1) by (simp add: g(4) clear_page_def)
qed

section \<open>Mapping a page\<close>

lemma put_page_cases:
  assumes "put_page page address s = Inr (r, s')"
  obtains (old) l where "dir_present s (dir_index address)" "r = page"
      "s' = store (slot (table s (dir_index address)) (tbl_index address)) (page OR 7) (s\<lparr>klog := l\<rparr>)"
  | (new) l p s1 where "\<not> dir_present s (dir_index address)" "r = page"
      "get_free_page (s\<lparr>klog := l\<rparr>) = (p, s1)" "p \<noteq> 0"
      "s' = store (slot p (tbl_index address)) (page OR 7) (store (slot 0 (dir_index address)) (p OR 7) s1)"
  | (full) l l' where "\<not> dir_present s (dir_index address)" "r = 0"
      "get_free_page (s\<lparr>klog := l\<rparr>) = (0, s\<lparr>klog := l\<rparr>)" "s' = s\<lparr>klog := l'\<rparr>"
proof -
  define l where "l = (if mem_map s (MAP_NR page) \<noteq> 1
    then [(''mem_map disagrees with %x at %x'', [page, address])] else []) @
    (if page < LOW_MEM \<or> page \<ge> HIGH_MEMORY s
     then [(''Trying to put page %x at %x'', [page, address])] else []) @ klog s"
  let ?s = "s\<lparr>klog := l\<rparr>"
  have eq: "put_page page address s =
    (if MAP_NR page \<ge> PAGING_PAGES then Inl Out_of_bounds
     else if dir_present s (dir_index address)
     then Inr (page, store (slot (table s (dir_index address)) (tbl_index address)) (page OR 7) ?s)
     else (case get_free_page ?s of (tmp, s3) \<Rightarrow>
       if tmp = 0 then Inr (0, printk_call ''NO FREE PAGE!'' [] s3)
       else Inr (page, store (slot tmp (tbl_index address)) (page OR 7)
          (store (slot 0 (dir_index address)) (tmp OR 7) s3))))"
    unfolding put_page_def Let_def page_arith
    by (simp add: printk_call_def dir_present_def dirent_def table_def l_def)
  show thesis
  proof (cases "dir_present s (dir_index address)")
    case True
    with assms eq old show thesis by (auto split: if_splits)
  next
    case False
    obtain p s1 where p: "get_free_page ?s = (p, s1)" by fastforce
    show thesis
    proof (cases "p = 0")
      case True
      with p have "s1 = ?s" using get_free_page_0 by blast
      with assms eq False p True full show thesis by (auto simp: printk_call_def split: if_splits)
    next
      case nz: False
      with assms eq False p new show thesis by (auto split: if_splits)
    qed
  qed
qed

text \<open>
  The two ways the directory can change: not at all, or by one new table \<open>p\<close> for entry
  \<open>d0\<close>, in a frame that nobody referred to.
\<close>

definition same_dirs :: "'a mm_scheme \<Rightarrow> 'a mm_scheme \<Rightarrow> bool" where
  "same_dirs s s' \<longleftrightarrow> refs s' = refs s \<and>
     (\<forall>d < 1024. dir_present s' d = dir_present s d \<and> table s' d = table s d)"

definition new_dir :: "'a mm_scheme \<Rightarrow> nat \<Rightarrow> u32 \<Rightarrow> 'a mm_scheme \<Rightarrow> bool" where
  "new_dir s d0 p s' \<longleftrightarrow> managed p \<and> refs s p = 0 \<and> refs s' = (refs s)(p := 1) \<and> \<not> dir_present s d0 \<and>
     (\<forall>d < 1024. dir_present s' d = (d = d0 \<or> dir_present s d) \<and>
        table s' d = (if d = d0 then p else table s d))"

lemma wf_dir_klog [simp]: "wf_dir (s\<lparr>klog := l\<rparr>) = wf_dir s"
  by (simp add: wf_dir_def)

lemma put_page_success:
  assumes "put_page page address s = Inr (r, s')" "r \<noteq> 0" "wf_dir s"
  shows "r = page \<and> wf_dir s' \<and>
    (\<forall>d < 1024. \<forall>t < 1024. entry s' d t =
      (if d = dir_index address \<and> t = tbl_index address then Some (page OR 7) else entry s d t)) \<and>
    (same_dirs s s' \<or> (\<exists>p. new_dir s (dir_index address) p s')) \<and>
    HIGH_MEMORY s' = HIGH_MEMORY s \<and> (alloc_inv s \<longrightarrow> alloc_inv s')"
  using assms(1)
proof (cases rule: put_page_cases)
  case (old l)
  let ?s = "s\<lparr>klog := l\<rparr>"
  have w: "wf_dir ?s" "dir_present ?s (dir_index address)" "table ?s = table s"
    using assms(3) old by simp_all
  have s': "s' = store (slot (table ?s (dir_index address)) (tbl_index address)) (page OR 7) ?s"
    using old by simp
  have "same_dirs s s'"
    using dir_present_store_entry [OF w(1) dir_index_less tbl_index_less w(2)]
      table_store_entry [OF w(1) dir_index_less tbl_index_less w(2)]
    by (simp add: same_dirs_def s')
  moreover have "wf_dir s'"
    unfolding s' by (rule wf_dir_store_entry [OF w(1) dir_index_less tbl_index_less w(2)])
  moreover have "\<forall>d < 1024. \<forall>t < 1024. entry s' d t =
      (if d = dir_index address \<and> t = tbl_index address then Some (page OR 7) else entry s d t)"
    unfolding s' using entry_store_entry [OF w(1) dir_index_less tbl_index_less w(2)] by simp
  ultimately show ?thesis using old by simp
next
  case (new l p s1)
  let ?s = "s\<lparr>klog := l\<rparr>" and ?d = "dir_index address"
  have w: "wf_dir ?s" using assms(3) by simp
  note g = get_free_page_nonzero [OF new(3,4)]
  note al = w new(3,4)
  let ?s2 = "store (slot 0 ?d) (p OR 7) s1"
  have n: "\<not> dir_present s1 ?d" "refs s1 p \<noteq> 0" "\<And>d. d < 1024 \<Longrightarrow> dir_present s1 d \<Longrightarrow> table s1 d \<noteq> p"
    using new(1) g(3) table_not_alloc [OF al] by (simp_all add: dir_present_alloc [OF al] table_alloc [OF al])
  note nt = wf_dir_alloc [OF al] dir_index_less n(1) g(1) n(2,3) alloc_clear [OF al]
  have w2: "wf_dir ?s2" "dir_present ?s2 ?d" "table ?s2 ?d = p"
    using wf_dir_new_table [OF nt] dir_present_new_table [OF nt] table_new_table [OF nt] by auto
  note st = w2(1) dir_index_less tbl_index_less w2(2)
  note se = dir_present_store_entry [OF st, unfolded w2(3)] table_store_entry [OF st, unfolded w2(3)]
    entry_store_entry [OF st, unfolded w2(3)]
  note s' = new(5)
  have t2: "table ?s2 d = (if d = ?d then p else table s d)" if "d < 1024" for d
    using that dirent_new_table [OF nt] g(1) dirent_alloc [OF al] by (simp add: table_def)
  have "refs s p = 0" using g(2) by simp
  then have "new_dir s ?d p s'"
    using new(1) g(1,3) dir_present_new_table [OF nt] dir_present_alloc [OF al]
    by (simp add: new_dir_def s' se t2)
  moreover have "wf_dir s'" unfolding s' by (rule wf_dir_store_entry [OF st, unfolded w2(3)])
  moreover have "\<forall>d < 1024. \<forall>t < 1024. entry s' d t =
      (if d = ?d \<and> t = tbl_index address then Some (page OR 7) else entry s d t)"
    by (simp add: s' se entry_new_table [OF nt] entry_alloc [OF al])
  moreover have "HIGH_MEMORY s' = HIGH_MEMORY s" by (simp add: s' g(5))
  moreover have "alloc_inv s \<longrightarrow> alloc_inv s'"
    using get_free_page_pool(2) [OF _ new(3,4)] by (simp add: s')
  ultimately show ?thesis using new(2) by blast
next
  case full
  with assms(2) show ?thesis by simp
qed
end
