(* ===== verification/Page_Faults.thy ===== *)
theory Page_Faults
  imports Page_Tables
begin

text \<open>
  What mapping, demand paging and copy on write guarantee: the translation after
  \<open>put_page\<close> and after each of the two page-fault handlers, and the helpers of
  mm/mm_test.c read against the same translation.
\<close>

lemma index_pair_eq:
  "b < 1024 \<Longrightarrow> b' < 1024 \<Longrightarrow> 1024 * a + b = 1024 * a' + b' \<longleftrightarrow> a = a' \<and> b = b'" for a b :: nat
  by (metis add.commute div_mult_self4 div_less mod_less mod_mult_self4 add_0 zero_neq_numeral)

lemma same_page_iff: "dir_index x = dir_index y \<and> tbl_index x = tbl_index y \<longleftrightarrow> page_of x = page_of y"
proof -
  have d: "unat z div 4096 = 1024 * dir_index z + tbl_index z" for z :: u32
    by (simp add: dir_index_def tbl_index_def div_mult2_eq [of "unat z" 4096 1024, simplified])
  have "page_of x = page_of y \<longleftrightarrow> unat (page_of x) = unat (page_of y)"
    by (metis unsigned_word_eqI)
  also have "\<dots> \<longleftrightarrow> unat x div 4096 = unat y div 4096" by (simp add: unat_page_of)
  also have "\<dots> \<longleftrightarrow> dir_index x = dir_index y \<and> tbl_index x = tbl_index y"
    unfolding d by (rule index_pair_eq) simp_all
  finally show ?thesis ..
qed

section \<open>Removing write protection\<close>

lemma or_2_flags: "(e OR 2) AND 2 = (2 :: u32)" "(e OR 2) AND 1 = e AND 1" "page_of (e OR 2) = page_of e"
  by (simp_all add: bit.conj_disj_distrib2 word_ao_absorbs)

lemma frame_7_flags: "(p OR 7) AND 2 = (2 :: u32)"
  by (simp add: bit.conj_disj_distrib2 word_ao_absorbs)

definition valid_frame :: "u32 \<Rightarrow> bool" where
  "valid_frame p \<longleftrightarrow> page_aligned p \<and> p < 0x1000000"

lemma valid_frame_cases: "valid_frame p \<Longrightarrow> LOW_MEM \<le> p \<longleftrightarrow> managed p"
  by (auto simp: valid_frame_def managed_def)

lemma un_wp_page_outcome:
  fixes s :: "'a mm_scheme"
  assumes "wf_dir s" "d0 < 1024" "t0 < 1024" "entry s d0 t0 = Some e" "valid_frame (page_of e)"
    and used: "managed (page_of e) \<longrightarrow> refs s (page_of e) \<noteq> 0"
  obtains (sole) "managed (page_of e)" "refs s (page_of e) = 1"
      "un_wp_page (slot (table s d0) t0) s = Inr (store (slot (table s d0) t0) (e OR 2) s)"
  | (copied) p s1 s2 where "get_free_page s = (p, s1)" "p \<noteq> 0" "p \<noteq> page_of e"
      "managed (page_of e) \<longrightarrow> 1 < refs s (page_of e)"
      "un_wp_page (slot (table s d0) t0) s = Inr (store (slot (table s d0) t0) (p OR 7) s2)"
      "refs s2 = (if managed (page_of e) then (refs s)(p := 1, page_of e := refs s (page_of e) - 1)
                  else (refs s)(p := 1))"
      "s2 = s1\<lparr>mem_map := mem_map s2\<rparr>" "alloc_inv s \<longrightarrow> alloc_inv s2"
  | (full) "un_wp_page (slot (table s d0) t0) s = oom" "\<forall>q. managed q \<longrightarrow> refs s q \<noteq> 0"
proof -
  let ?te = "slot (table s d0) t0" and ?o = "page_of e"
  have te: "phys s ?te = e" using assms(4) by (auto simp: entry_def split: if_splits)
  have low: "LOW_MEM \<le> ?o \<longleftrightarrow> managed ?o" using assms(5) by (rule valid_frame_cases)
  have nr: "managed ?o \<Longrightarrow> \<not> 3840 \<le> MAP_NR ?o" by (simp add: managed_eq_frame not_le)
  have one: "managed ?o \<Longrightarrow> mem_map s (MAP_NR ?o) = 1 \<longleftrightarrow> refs s ?o = 1"
    by (simp add: refs_def word_unat_eq_iff)
  obtain p s1 where g: "get_free_page s = (p, s1)" by fastforce
  have eq: "un_wp_page ?te s =
    (if managed ?o \<and> refs s ?o = 1 then Inr (store ?te (e OR 2) s)
     else if p = 0 then oom
     else Inr (store ?te (p OR 7) (if managed ?o
        then s1\<lparr>mem_map := (mem_map s1)(MAP_NR ?o := mem_map s1 (MAP_NR ?o) - 1)\<rparr> else s1)))"
    using nr one by (cases "managed ?o") (simp_all add: un_wp_page_def te low g Let_def)
  show thesis
  proof (cases "managed ?o \<and> refs s ?o = 1")
    case True
    with eq sole show thesis by simp
  next
    case shared: False
    show thesis
    proof (cases "p = 0")
      case True
      with g have "get_free_page s = (0, s1)" by simp
      then have "\<forall>q. managed q \<longrightarrow> refs s q \<noteq> 0" using get_free_page_0 by blast
      moreover have "un_wp_page ?te s = oom" using True eq shared by auto
      ultimately show thesis by (intro full)
    next
      case False
      note gn = get_free_page_nonzero [OF g False]
      have ne: "p \<noteq> ?o" using gn(1,2) used by auto
      define s2 where "s2 = (if managed ?o
        then s1\<lparr>mem_map := (mem_map s1)(MAP_NR ?o := mem_map s1 (MAP_NR ?o) - 1)\<rparr> else s1)"
      have big: "managed ?o \<longrightarrow> 1 < refs s ?o" using shared used by auto
      have mm: "managed ?o \<Longrightarrow> mem_map s1 (MAP_NR ?o) = mem_map s (MAP_NR ?o)"
        using ne gn(1) by (simp add: gn(7) managed_inject)
      have "mem_map s (MAP_NR ?o) \<noteq> 0" if "managed ?o" using used that by (auto simp: refs_def)
      then have "refs s2 = (if managed ?o then (refs s)(p := 1, ?o := refs s ?o - 1) else (refs s)(p := 1))"
        using managed_eq_frame [of ?o] mm
        by (auto simp: s2_def gn(3) refs_upd unat_minus_one refs_def [of s ?o])
      moreover have "alloc_inv s \<longrightarrow> alloc_inv s2"
      proof
        assume "alloc_inv s"
        then have a: "alloc_inv s1" using get_free_page_pool(2) [OF _ g False] by blast
        have "mem_map s (MAP_NR ?o) - 1 \<noteq> 0" if "managed ?o"
          using big that by (auto simp: refs_def)
        with a mm show "alloc_inv s2" by (auto simp: alloc_inv_def s2_def)
      qed
      moreover have "un_wp_page ?te s = Inr (store ?te (p OR 7) s2)"
        unfolding s2_def using eq shared False by auto
      moreover have "s2 = s1\<lparr>mem_map := mem_map s2\<rparr>" by (simp add: s2_def)
      ultimately show thesis using copied [OF g False ne big] by blast
    qed
  qed
qed

text \<open>Taking a frame, and changing the byte map, moves no table.\<close>

lemma taken_frame_tables:
  fixes s :: "'a mm_scheme"
  assumes al: "wf_dir s" "get_free_page s = (p, s1)" "p \<noteq> 0" and eq: "s2 = s1\<lparr>mem_map := mem_map s2\<rparr>"
    and used: "\<forall>d < 1024. dir_present s d \<and> managed (table s d) \<longrightarrow> refs s2 (table s d) \<noteq> 0"
  shows "wf_dir s2" "phys s2 = phys s1" "HIGH_MEMORY s2 = HIGH_MEMORY s1"
    "d < 1024 \<Longrightarrow> dir_present s2 d = dir_present s d" "d < 1024 \<Longrightarrow> table s2 d = table s d"
    "d < 1024 \<Longrightarrow> t < 1024 \<Longrightarrow> entry s2 d t = entry s d t"
proof -
  have same: "dirent s2 = dirent s1" "entry s2 = entry s1" "dir_present s2 = dir_present s1" "table s2 = table s1"
    by (subst eq, simp add: dirent_def entry_def dir_present_def table_def fun_eq_iff)+
  show "phys s2 = phys s1" "HIGH_MEMORY s2 = HIGH_MEMORY s1" by (subst eq, simp)+
  show "wf_dir s2" by (rule wf_dir_cong [OF al(1)]) (simp_all add: same dirent_alloc [OF al] used)
  show "dir_present s2 d = dir_present s d" "table s2 d = table s d" if "d < 1024"
    using that by (simp_all add: same dir_present_alloc [OF al] table_alloc [OF al])
  show "entry s2 d t = entry s d t" if "d < 1024" "t < 1024" using that by (simp add: same entry_alloc [OF al])
qed

text \<open>What \<open>un_wp_page\<close> does to the tables.\<close>

lemma un_wp_page_success:
  fixes s :: "'a mm_scheme"
  assumes "wf_dir s" "d0 < 1024" "t0 < 1024" "entry s d0 t0 = Some e" "valid_frame (page_of e)"
    and used: "managed (page_of e) \<longrightarrow> refs s (page_of e) \<noteq> 0"
    and res: "un_wp_page (slot (table s d0) t0) s = Inr s'"
  obtains e' where "e' AND 2 = 2" "wf_dir s'"
      "\<And>d. d < 1024 \<Longrightarrow> dir_present s' d = dir_present s d \<and> table s' d = table s d"
      "\<And>d t. d < 1024 \<Longrightarrow> t < 1024 \<Longrightarrow>
         entry s' d t = (if d = d0 \<and> t = t0 then Some e' else entry s d t)"
      "managed (page_of e')" "refs s' (page_of e') = 1" "HIGH_MEMORY s' = HIGH_MEMORY s"
      "alloc_inv s \<longrightarrow> alloc_inv s'"
      "e' = e OR 2 \<and> refs s' = refs s \<or>
       e' = page_of e' OR 7 \<and> page_of e' \<noteq> page_of e \<and> refs s (page_of e') = 0 \<and>
       (managed (page_of e) \<longrightarrow> 1 < refs s (page_of e)) \<and>
       refs s' = (\<lambda>f. if f = page_of e' then 1
         else if f = page_of e \<and> managed f then refs s f - 1 else refs s f) \<and>
       (\<forall>a. page_of a = page_of e' \<longrightarrow> phys s' a = 0)"
  using assms(1-6)
proof (cases rule: un_wp_page_outcome)
  case sole
  have p: "dir_present s d0" "e AND 1 \<noteq> 0" using assms(4) by (auto simp: entry_def split: if_splits)
  note st = assms(1-3) p(1)
  have s': "s' = store (slot (table s d0) t0) (e OR 2) s" using sole(3) res by simp
  show thesis
    by (rule that [of "e OR 2"])
      (use sole p in \<open>auto simp: s' or_2_flags dir_present_store_entry [OF st] table_store_entry [OF st]
        entry_store_entry [OF st] wf_dir_store_entry [OF st]\<close>)
next
  case (copied p s1 s2)
  have dp: "dir_present s d0" using assms(4) by (auto simp: entry_def split: if_splits)
  note g = get_free_page_nonzero [OF copied(1,2)]
  note al = assms(1) copied(1,2)
  have r2: "refs s2 f = (if f = p then 1 else if f = page_of e \<and> managed f then refs s f - 1 else refs s f)" for f
    using copied(3) by (auto simp: copied(6))
  have "\<forall>d < 1024. dir_present s d \<and> managed (table s d) \<longrightarrow> refs s2 (table s d) \<noteq> 0"
    using wf_dirD(2) [OF assms(1)] copied(4) by (auto simp: r2)
  note same = taken_frame_tables [OF al copied(7) this]
  have tp: "table s d0 \<noteq> p" by (rule table_not_alloc [OF al assms(2) dp])
  note dp2 = same(4) [OF assms(2), THEN iffD2, OF dp] same(5) [OF assms(2)]
  note st = same(1) assms(2,3) dp2(1)
  note se = dir_present_store_entry [OF st, unfolded dp2(2)] table_store_entry [OF st, unfolded dp2(2)]
    entry_store_entry [OF st, unfolded dp2(2)]
  have s': "s' = store (slot (table s d0) t0) (p OR 7) s2" using copied(5) res by simp
  have z: "phys s' a = 0" if "page_of a = p" for a
  proof -
    have "page_of (slot (table s d0) t0) \<noteq> p" using tp assms(3) by simp
    with that have "a \<noteq> slot (table s d0) t0" by blast
    with that show ?thesis by (simp add: s' same(2) g(4) clear_page_def)
  qed
  have pf: "page_of (p OR 7) = p" using g(1) by simp
  show thesis
  proof (rule that [of "p OR 7"])
    show "wf_dir s'" unfolding s' by (rule wf_dir_store_entry [OF st, unfolded dp2(2)])
    show "dir_present s' d = dir_present s d \<and> table s' d = table s d" if "d < 1024" for d
      using that by (simp add: s' se same)
    show "entry s' d t = (if d = d0 \<and> t = t0 then Some (p OR 7) else entry s d t)"
      if "d < 1024" "t < 1024" for d t
      using that by (simp add: s' se same)
  qed (use g copied(3,4,8) z pf in \<open>simp_all add: frame_7_flags s' r2 same(3) fun_eq_iff\<close>)
next
  case full
  with res show thesis by (simp add: oom_def)
qed

section \<open>Demand paging\<close>

lemmas mm_eval = put_page_def get_free_page_def all_free_def scasb_step LOW_MEM_def MAP_NR_def
  clear_page_def slot_def Let_def frame_def printk_call_def

text \<open>\<open>put_page\<close> writes to page tables only: the words of another frame keep their values.\<close>

lemma put_page_frame_content:
  assumes "put_page page address s = Inr (r, s')" "wf_dir s" "managed q" "refs s q \<noteq> 0"
    and "\<And>d. d < 1024 \<Longrightarrow> dir_present s d \<Longrightarrow> table s d \<noteq> q" and "page_of a = q"
  shows "phys s' a = phys s a"
  using assms(1)
proof (cases rule: put_page_cases)
  case (old l)
  have "page_of (slot (table s (dir_index address)) (tbl_index address)) \<noteq> q"
    using assms(5) [OF dir_index_less old(1)] by simp
  with old(3) assms(6) show ?thesis by auto
next
  case (new l p s1)
  note g = get_free_page_nonzero [OF new(3,4)]
  have "p \<noteq> q" using g(2) assms(4) by auto
  moreover have "page_of (slot p (tbl_index address)) \<noteq> q" "page_of (slot 0 (dir_index address)) \<noteq> q"
    using g(1) \<open>p \<noteq> q\<close> assms(3) by auto
  ultimately show ?thesis using new(5) assms(6) by (auto simp: g(4) clear_page_def)
next
  case full
  then show ?thesis by simp
qed

lemma put_page_0_unchanged:
  assumes "put_page page address s = Inr (0, s')" "page \<noteq> 0"
  shows "(\<exists>l. s' = s\<lparr>klog := l\<rparr>) \<and> (\<forall>q. managed q \<longrightarrow> refs s q \<noteq> 0)"
  using assms(1)
proof (cases rule: put_page_cases)
  case (full l l')
  from full(4) get_free_page_0 [OF full(3)] show ?thesis by auto
qed (use assms(2) in auto)

lemma put_page_managed: "managed page \<Longrightarrow> \<exists>x. put_page page address s = Inr x"
  by (auto simp: put_page_def managed_eq_frame not_le Let_def split: prod.splits)

lemma walk_eq_entry:
  assumes "\<forall>d < 1024. \<forall>t < 1024. entry s' d t =
    (if d = dir_index address \<and> t = tbl_index address then x else entry s d t)"
  shows "walk s' a = (if page_of a = page_of address then x else walk s a)"
  using assms by (simp add: walk_def same_page_iff)

lemma do_no_page_success:
  assumes "wf_dir s" "alloc_inv s" "do_no_page error_code address s = Inr s'"
  obtains p s1 where "get_free_page s = (p, s1)" "p \<noteq> 0" "put_page p (page_of address) s1 = Inr (p, s')"
proof -
  obtain p s1 where g: "get_free_page s = (p, s1)" by fastforce
  with assms(3) have "p \<noteq> 0" by (auto simp: do_no_page_def oom_def)
  with g assms(3) obtain r s2 where r: "put_page p (page_of address) s1 = Inr (r, s2)"
    "(if r \<noteq> 0 then Inr s2 else kbind (free_page p s2) (\<lambda>_. oom)) = Inr s'"
    by (auto simp: do_no_page_def kbind_elim)
  then have "r \<noteq> 0" by (auto simp: oom_def kbind_elim)
  then have "r = p" using put_page_success [OF r(1)] wf_dir_alloc [OF assms(1) g \<open>p \<noteq> 0\<close>] by blast
  with r \<open>r \<noteq> 0\<close> g \<open>p \<noteq> 0\<close> show thesis by (auto intro: that)
qed

lemma dir_index_page_of [simp]: "dir_index (page_of x) = dir_index x"
  and tbl_index_page_of [simp]: "tbl_index (page_of x) = tbl_index x"
  using same_page_iff [of "page_of x" x] by auto

lemma do_no_page_total:
  assumes "wf_dir s" "alloc_inv s"
  shows "(\<exists>s'. do_no_page error_code address s = Inr s') \<or> do_no_page error_code address s = oom"
proof -
  obtain p s1 where g: "get_free_page s = (p, s1)" by fastforce
  show ?thesis
  proof (cases "p = 0")
    case True
    with g show ?thesis by (simp add: do_no_page_def)
  next
    case False
    note gn = get_free_page_nonzero [OF g False]
    obtain r s2 where r: "put_page p (page_of address) s1 = Inr (r, s2)"
      using put_page_managed [OF gn(1)] by (metis prod.exhaust)
    show ?thesis
    proof (cases "r = 0")
      case True
      then obtain l where "s2 = s1\<lparr>klog := l\<rparr>" using put_page_0_unchanged r False by blast
      then have "pool s2 p" "refs s2 p \<noteq> 0"
        using get_free_page_pool [OF assms(2) g False] gn(3) by auto
      with g False r True show ?thesis by (simp add: do_no_page_def free_page_pool)
    next
      case nz: False
      with g False r show ?thesis by (simp add: do_no_page_def)
    qed
  qed
qed

section \<open>Properties\<close>

text \<open>C4: mapping a page. When \<open>put_page\<close> succeeds it returns the page, every address of the
  linear page translates to that frame with all access rights, every other address
  translates as before, and the tables stay well formed; when it fails (0) no frame was
  left for a page table and no translation changed.\<close>

theorem put_page_translation:
  assumes "wf_dir s" and "page \<noteq> 0" and "put_page page address s = Inr (r, s')"
  shows "if r = 0 then (\<forall>x. walk s' x = walk s x) \<and> (\<forall>q. managed q \<longrightarrow> refs s q \<noteq> 0)
    else r = page \<and> wf_dir s' \<and>
      (\<forall>x. walk s' x = (if page_of x = page_of address then Some (page OR 7) else walk s x))"
proof (cases "r = 0")
  case True
  with assms put_page_0_unchanged [of page address s s'] show ?thesis by (auto simp: walk_def)
next
  case False
  note ps = put_page_success [OF assms(3) False assms(1)]
  then have "walk s' x = (if page_of x = page_of address then Some (page OR 7) else walk s x)" for x
    by (intro walk_eq_entry) blast
  with ps False show ?thesis by simp
qed

lemma wf_dir_all_free: "wf_dir all_free"
  by (simp add: wf_dir_def dir_present_def dirent_def all_free_def)

theorem put_page_translation_witness:
  "\<exists>s'. put_page 0x200000 0x4000000 all_free = Inr (0x200000, s') \<and>
     walk s' 0x4000abc = Some 0x200007 \<and> walk s' 0x4001000 = None"
proof -
  have m: "managed 0x200000" by (simp add: managed_def LOW_MEM_def)
  obtain r s' where r: "put_page 0x200000 0x4000000 all_free = Inr (r, s')"
    using put_page_managed [OF m] by (metis prod.exhaust)
  have "refs all_free 0x200000 = 0" by (simp add: refs_def all_free_def)
  moreover have "walk all_free 0x4001000 = None"
    by (simp add: walk_def entry_def dir_present_def dirent_def all_free_def)
  ultimately show ?thesis
    using r m put_page_translation [OF wf_dir_all_free _ r] by (auto split: if_splits)
qed

text \<open>C5: demand paging. \<open>do_no_page\<close> returns or ends in the out-of-memory panic; when it
  returns, the faulting page translates to a frame nobody referred to, now with one
  reference and all words zero, and every other page translates as before.\<close>

theorem do_no_page_maps_zero_page:
  assumes "wf_dir s" and "alloc_inv s"
  shows "do_no_page error_code address s = oom \<or>
    (\<exists>s' p. do_no_page error_code address s = Inr s' \<and> wf_dir s' \<and> alloc_inv s' \<and>
      managed p \<and> refs s p = 0 \<and> refs s' p = 1 \<and> (\<forall>a. page_of a = p \<longrightarrow> phys s' a = 0) \<and>
      (\<forall>x. walk s' x = (if page_of x = page_of address then Some (p OR 7) else walk s x)))"
proof (cases "do_no_page error_code address s")
  case (Inl e)
  with do_no_page_total [OF assms] show ?thesis by (metis Inl_Inr_False)
next
  case (Inr s')
  obtain p s1 where p: "get_free_page s = (p, s1)" "p \<noteq> 0"
    "put_page p (page_of address) s1 = Inr (p, s')"
    using do_no_page_success [OF assms Inr] by blast
  note g = get_free_page_nonzero [OF p(1,2)]
  note al = assms(1) p(1,2)
  note w1 = wf_dir_alloc [OF al]
  note ps = put_page_success [OF p(3,2) w1]
  have nt: "table s1 d \<noteq> p" if "d < 1024" "dir_present s1 d" for d
    using that table_not_alloc [OF al, of d] dir_present_alloc [OF al, of d] table_alloc [OF al, of d]
    by simp
  have "phys s' a = 0" if "page_of a = p" for a
  proof -
    have "phys s' a = phys s1 a"
      by (rule put_page_frame_content [OF p(3) w1 g(1) _ nt that]) (simp_all add: g(3))
    with that show ?thesis by (simp add: g(4) clear_page_def)
  qed
  moreover have "refs s' p = 1"
    using ps by (auto simp: g(3) same_dirs_def new_dir_def split: if_splits)
  moreover have "walk s' x = (if page_of x = page_of address then Some (p OR 7) else walk s x)" for x
    using ps entry_alloc [OF al] by (intro walk_eq_entry) simp
  moreover have "alloc_inv s'" using ps get_free_page_pool(2) [OF assms(2) p(1,2)] by blast
  ultimately show ?thesis using Inr ps g(1,2) by blast
qed

theorem do_no_page_maps_zero_page_witness:
  "\<exists>s' p. do_no_page 0 0x4000000 all_free = Inr s' \<and> walk s' 0x4000123 = Some (p OR 7) \<and> refs s' p = 1"
proof -
  have "do_no_page 0 0x4000000 all_free \<noteq> oom"
    by (simp add: do_no_page_def mm_eval oom_def)
  then show ?thesis
    using do_no_page_maps_zero_page [OF wf_dir_all_free all_free_inv, of 0 "0x4000000"] by fastforce
qed
lemma do_wp_page_eq:
  "do_wp_page error_code address s =
     un_wp_page (slot (table s (dir_index address)) (tbl_index address)) s"
  by (simp add: do_wp_page_def page_arith table_def dirent_def and.commute)

lemma and_3_eq: "e AND 1 \<noteq> 0 \<Longrightarrow> e AND 2 = 2 \<Longrightarrow> (e :: u32) AND 3 = 3"
proof -
  assume a: "e AND 1 \<noteq> 0" "e AND 2 = 2"
  have "(3 :: u32) = 1 OR 2" by simp
  then have "e AND 3 = (e AND 1) OR (e AND 2)" by (simp only: bit.conj_disj_distrib)
  moreover have "e AND 1 = 1" using a(1) by (simp add: and_one_eq mod2_eq_if split: if_splits)
  ultimately show ?thesis using a(2) by simp
qed

lemma entry_present: "entry s d t = Some e \<Longrightarrow> e AND 1 \<noteq> 0"
  by (auto simp: entry_def split: if_splits)

text \<open>C6: copy on write, as far as the tables go. A write fault on a mapped page returns or
  ends in the out-of-memory panic. When it returns, the page is present and writable and
  its frame has exactly one reference: the old frame when it was referred to once,
  otherwise a frame nobody referred to, the old one losing one reference. No other page
  is translated differently.\<close>

theorem do_wp_page_unshares:
  assumes "wf_dir s" and "walk s address = Some e" and "valid_frame (page_of e)"
    and "managed (page_of e) \<longrightarrow> refs s (page_of e) \<noteq> 0"
  shows "do_wp_page error_code address s = oom \<or>
    (\<exists>s' e'. do_wp_page error_code address s = Inr s' \<and> wf_dir s' \<and> e' AND 3 = 3 \<and>
      managed (page_of e') \<and> refs s' (page_of e') = 1 \<and>
      (\<forall>x. walk s' x = (if page_of x = page_of address then Some e' else walk s x)) \<and>
      (if managed (page_of e) \<and> refs s (page_of e) = 1
       then page_of e' = page_of e \<and> refs s' = refs s
       else refs s (page_of e') = 0 \<and>
         (managed (page_of e) \<longrightarrow> refs s' (page_of e) = refs s (page_of e) - 1)))"
proof -
  let ?te = "slot (table s (dir_index address)) (tbl_index address)"
  note a = assms(1) dir_index_less tbl_index_less assms(2)[unfolded walk_def] assms(3,4)
  consider s' where "un_wp_page ?te s = Inr s'" | "un_wp_page ?te s = oom"
    using a by (rule un_wp_page_outcome) (auto simp: oom_def)
  then show ?thesis
  proof cases
    case (1 s')
    from a 1 obtain e' where e': "e' AND 2 = 2" "wf_dir s'"
      "\<And>d t. d < 1024 \<Longrightarrow> t < 1024 \<Longrightarrow>
         entry s' d t = (if d = dir_index address \<and> t = tbl_index address then Some e' else entry s d t)"
      "managed (page_of e')" "refs s' (page_of e') = 1"
      and cs: "e' = e OR 2 \<and> refs s' = refs s \<or>
       e' = page_of e' OR 7 \<and> page_of e' \<noteq> page_of e \<and> refs s (page_of e') = 0 \<and>
       (managed (page_of e) \<longrightarrow> 1 < refs s (page_of e)) \<and>
       refs s' = (\<lambda>f. if f = page_of e' then 1
         else if f = page_of e \<and> managed f then refs s f - 1 else refs s f) \<and>
       (\<forall>a. page_of a = page_of e' \<longrightarrow> phys s' a = 0)"
      by (rule un_wp_page_success) blast
    have w: "walk s' x = (if page_of x = page_of address then Some e' else walk s x)" for x
      using e'(3) by (intro walk_eq_entry) blast
    have "entry s' (dir_index address) (tbl_index address) = Some e'" using e'(3) by simp
    then have three: "e' AND 3 = 3" using e'(1) entry_present by (blast intro: and_3_eq)
    have "if managed (page_of e) \<and> refs s (page_of e) = 1
       then page_of e' = page_of e \<and> refs s' = refs s
       else refs s (page_of e') = 0 \<and>
         (managed (page_of e) \<longrightarrow> refs s' (page_of e) = refs s (page_of e) - 1)"
      using cs
    proof
      assume "e' = e OR 2 \<and> refs s' = refs s"
      with e'(4,5) show ?thesis by (simp add: or_2_flags)
    qed auto
    with 1 w three e' show ?thesis unfolding do_wp_page_eq by blast
  qed (simp add: do_wp_page_eq)
qed

text \<open>Two linear pages that share frame \<open>0xf00000\<close> read-only through one table at \<open>0x5000\<close>,
  and a third page with a frame of its own.\<close>

definition two_sharers :: mm where
  "two_sharers = \<lparr>HIGH_MEMORY = 0x1000000, mem_map = (\<lambda>_. 0)(3584 := 2, 3585 := 1),
     phys = (\<lambda>_. 0)(0x40 := 0x5007, 0x5000 := 0xf00005, 0x5004 := 0xf00005, 0x5008 := 0xf01007,
       0xf00000 := 42),
     klog = []\<rparr>"

lemma two_sharers_dirent: "d < 1024 \<Longrightarrow> dirent two_sharers d = (if d = 16 then 0x5007 else 0)"
proof -
  assume d: "d < 1024"
  have "slot 0 d = 0x40 \<longleftrightarrow> d = 16"
    using d unat_slot [of 0 d] by (auto simp: word_unat_eq_iff)
  moreover have "slot 0 d \<noteq> 0x5000" "slot 0 d \<noteq> 0x5004" "slot 0 d \<noteq> 0x5008" "slot 0 d \<noteq> 0xf00000"
    using d unat_slot [of 0 d] by (auto simp: word_unat_eq_iff)
  ultimately show ?thesis using d by (simp add: dirent_def two_sharers_def)
qed

lemma wf_two_sharers: "wf_dir two_sharers"
proof -
  have "dir_present two_sharers d \<longleftrightarrow> d = 16" if "d < 1024" for d
    using that by (simp add: dir_present_def two_sharers_dirent)
  moreover have "table two_sharers 16 = 0x5000" by (simp add: table_def two_sharers_dirent)
  moreover have "\<not> managed 0x5000" by (simp add: managed_def LOW_MEM_def)
  ultimately show ?thesis by (auto simp: wf_dir_def)
qed

lemma walk_two_sharers: "walk two_sharers 0x4000000 = Some 0xf00005" "walk two_sharers 0x4001000 = Some 0xf00005"
  "walk two_sharers 0x4002000 = Some 0xf01007"
  by (simp_all add: walk_def entry_def dir_present_def table_def dirent_def dir_index_def tbl_index_def
      slot_def two_sharers_def)

lemma shared_frame: "valid_frame (page_of 0xf00005)" "managed 0xf00000" "refs two_sharers 0xf00000 = 2"
  by (simp_all add: valid_frame_def managed_def refs_def LOW_MEM_def MAP_NR_def two_sharers_def)

lemma two_sharers_fault: "\<exists>s'. do_wp_page 3 0x4000000 two_sharers = Inr s'"
  by (simp add: do_wp_page_def un_wp_page_def get_free_page_def scasb_step two_sharers_def LOW_MEM_def
      MAP_NR_def)

theorem do_wp_page_unshares_witness:
  "\<exists>s' e'. do_wp_page 3 0x4000000 two_sharers = Inr s' \<and> walk s' 0x4000000 = Some e' \<and>
     refs s' (page_of e') = 1 \<and> walk s' 0x4001000 = Some 0xf00005 \<and> refs s' 0xf00000 = 1"
proof -
  obtain s1 where s1: "do_wp_page 3 0x4000000 two_sharers = Inr s1" using two_sharers_fault by blast
  then have n: "do_wp_page 3 0x4000000 two_sharers \<noteq> oom" by (simp add: oom_def)
  from do_wp_page_unshares [OF wf_two_sharers walk_two_sharers(1) shared_frame(1), of 3] n shared_frame
  obtain s' e' where "do_wp_page 3 0x4000000 two_sharers = Inr s'" "refs s' (page_of e') = 1"
    "\<forall>x. walk s' x = (if page_of x = page_of 0x4000000 then Some e' else walk two_sharers x)"
    "refs s' 0xf00000 = 1" by auto
  then show ?thesis using walk_two_sharers(2) by auto
qed

text \<open>C7: the copy is missing from the copy on write. After a write fault on a page whose
  frame is shared (or lies below 1 MB) the page translates to another frame, and every
  word of that frame is 0, whatever the shared frame held: \<open>un_wp_page\<close> never uses
  \<open>copy_page\<close>.\<close>

theorem do_wp_page_loses_contents:
  assumes "wf_dir s" and "walk s address = Some e" and "valid_frame (page_of e)"
    and "managed (page_of e) \<longrightarrow> 1 < refs s (page_of e)"
    and "do_wp_page error_code address s = Inr s'"
  shows "\<exists>p. walk s' address = Some (p OR 7) \<and> managed p \<and> p \<noteq> page_of e \<and> (\<forall>a. page_of a = p \<longrightarrow> phys s' a = 0)"
proof -
  have u: "managed (page_of e) \<longrightarrow> refs s (page_of e) \<noteq> 0" using assms(4) by auto
  note a = assms(1) dir_index_less tbl_index_less assms(2)[unfolded walk_def] assms(3) u
    assms(5)[unfolded do_wp_page_eq]
  from a obtain e' where e': "managed (page_of e')" "refs s' (page_of e') = 1"
      "\<And>d t. d < 1024 \<Longrightarrow> t < 1024 \<Longrightarrow>
         entry s' d t = (if d = dir_index address \<and> t = tbl_index address then Some e' else entry s d t)"
      and cs: "e' = e OR 2 \<and> refs s' = refs s \<or>
       e' = page_of e' OR 7 \<and> page_of e' \<noteq> page_of e \<and> refs s (page_of e') = 0 \<and>
       (managed (page_of e) \<longrightarrow> 1 < refs s (page_of e)) \<and>
       refs s' = (\<lambda>f. if f = page_of e' then 1
         else if f = page_of e \<and> managed f then refs s f - 1 else refs s f) \<and>
       (\<forall>a. page_of a = page_of e' \<longrightarrow> phys s' a = 0)"
    by (rule un_wp_page_success) blast
  have "\<not> (e' = e OR 2 \<and> refs s' = refs s)"
    using e'(1,2) assms(4) by (auto simp: or_2_flags)
  with cs have c: "e' = page_of e' OR 7" "page_of e' \<noteq> page_of e" "\<forall>a. page_of a = page_of e' \<longrightarrow> phys s' a = 0"
    by auto
  have "walk s' address = Some e'" using e'(3) by (simp add: walk_def)
  with c e'(1) show ?thesis by metis
qed

theorem do_wp_page_loses_contents_witness:
  "phys two_sharers 0xf00000 = 42 \<and>
   (\<exists>s' p. do_wp_page 3 0x4000000 two_sharers = Inr s' \<and> walk s' 0x4000000 = Some (p OR 7) \<and>
     phys s' p = 0)"
proof -
  obtain s1 where s1: "do_wp_page 3 0x4000000 two_sharers = Inr s1" using two_sharers_fault by blast
  from do_wp_page_loses_contents [OF wf_two_sharers walk_two_sharers(1) shared_frame(1) _ s1] shared_frame
  obtain p where "walk s1 0x4000000 = Some (p OR 7)" "managed p" "\<forall>a. page_of a = p \<longrightarrow> phys s1 a = 0" by auto
  moreover from this have "phys s1 p = 0" by simp
  moreover have "phys two_sharers 0xf00000 = 42" by (simp add: two_sharers_def)
  ultimately show ?thesis using s1 by blast
qed

section \<open>The helpers of mm/mm_test.c\<close>

lemma pte_offset_eq: "push_bit 2 (drop_bit 12 x AND 0x3ff :: u32) = slot 0 (tbl_index x)"
proof -
  have "unat (drop_bit 12 x AND 0x3ff :: u32) = tbl_index x" by (rule tbl_offset_10_eq)
  then have "drop_bit 12 x AND 0x3ff = (of_nat (tbl_index x) :: u32)"
    by (simp add: tbl_offset_10_eq [symmetric])
  then show ?thesis by (simp add: slot_def push_bit_eq_mult)
qed

lemma linear_to_pte_eq:
  "linear_to_pte addr s = (if dir_present s (dir_index addr)
    then slot (table s (dir_index addr)) (tbl_index addr) else 0)"
proof -
  have "unat (slot 0 (dir_index addr)) = 4 * dir_index addr" by (simp add: unat_slot)
  with dir_index_less [of addr] have "unat (slot 0 (dir_index addr)) < 4096" by linarith
  then have "\<not> slot 0 (dir_index addr) > 0x1000" by (simp add: word_less_nat_alt)
  then show ?thesis
    unfolding linear_to_pte_def Let_def pte_offset_eq page_arith
    by (simp add: dir_present_def dirent_def table_def)
qed

text \<open>\<open>disable_linear\<close> unmaps exactly the page of its argument when the page table of
  that address exists. When it does not, \<open>linear_to_pte\<close> returns the null pointer and the
  store goes to physical address 0: it clears entry 0 of the page directory, the kernel's
  own first 4 MB.\<close>

theorem disable_linear_effect:
  assumes "wf_dir s"
  shows "if dir_present s (dir_index addr)
    then wf_dir (disable_linear addr s) \<and>
      (\<forall>x. walk (disable_linear addr s) x = (if page_of x = page_of addr then None else walk s x))
    else dirent (disable_linear addr s) 0 = 0 \<and>
      (\<forall>x. dir_index x = 0 \<longrightarrow> walk (disable_linear addr s) x = None)"
proof (cases "dir_present s (dir_index addr)")
  case True
  note st = assms dir_index_less tbl_index_less True
  have eq: "disable_linear addr s = store (slot (table s (dir_index addr)) (tbl_index addr)) 0 s"
    using True by (simp add: disable_linear_def linear_to_pte_eq)
  have "walk (disable_linear addr s) x = (if page_of x = page_of addr then None else walk s x)" for x
    by (rule walk_eq_entry) (simp add: eq entry_store_entry [OF st])
  with True show ?thesis using wf_dir_store_entry [OF st] by (simp add: eq)
next
  case False
  then have "dirent (disable_linear addr s) 0 = 0"
    by (simp add: disable_linear_def linear_to_pte_eq dirent_def)
  with False show ?thesis by (simp add: walk_def entry_def dir_present_def)
qed

theorem disable_linear_effect_witness:
  "walk (disable_linear 0x4000123 two_sharers) 0x4000000 = None \<and>
   walk (disable_linear 0x4000123 two_sharers) 0x4001000 = Some 0xf00005"
proof -
  have "dir_index 0x4000123 = 16" by (simp add: dir_index_def)
  moreover have "dir_present two_sharers 16" by (simp add: dir_present_def two_sharers_dirent)
  ultimately show ?thesis
    using disable_linear_effect [OF wf_two_sharers, of "0x4000123"] walk_two_sharers(2) by simp
qed

text \<open>\<open>mm_read_only\<close> takes the write permission of a mapped page away and changes no other
  translation.\<close>

theorem mm_read_only_effect:
  assumes "wf_dir s" and "walk s addr = Some e"
  shows "walk (mm_read_only addr s) x =
    (if page_of x = page_of addr then Some (e AND 0xfffffffd) else walk s x)"
proof -
  let ?te = "slot (table s (dir_index addr)) (tbl_index addr)"
  have dp: "dir_present s (dir_index addr)" and e: "phys s ?te = e" "e AND 1 \<noteq> 0"
    using assms(2) by (auto simp: walk_def entry_def split: if_splits)
  note st = assms(1) dir_index_less tbl_index_less dp
  have "(e AND 0xfffffffd) AND 1 = e AND 1" by (simp add: and.assoc)
  moreover have "entry (mm_read_only addr s) = entry (store ?te (e AND 0xfffffffd) s)"
    using dp e by (simp add: mm_read_only_def linear_to_pte_eq printk_call_def Let_def)
      (simp add: store_def entry_def dir_present_def table_def dirent_def fun_eq_iff)
  ultimately show ?thesis
    using e by (intro walk_eq_entry) (simp add: entry_store_entry [OF st])
qed

theorem mm_read_only_effect_witness:
  "walk (mm_read_only 0x4002000 two_sharers) 0x4002000 = Some 0xf01005 \<and>
   walk (mm_read_only 0x4002000 two_sharers) 0x4001000 = Some 0xf00005"
  using mm_read_only_effect [OF wf_two_sharers walk_two_sharers(3)] walk_two_sharers(2) by simp

end
