(* ===== verification/Ref_Count.thy ===== *)
theory Ref_Count
  imports Page_Faults
begin

text \<open>
  Copying and freeing whole page tables (\<open>copy_page_tables\<close>, \<open>free_page_tables\<close> of
  mm/memory.c), and the invariant behind all of the memory manager: the byte in
  \<open>mem_map\<close> is the number of references to the frame. A reference is an entry of a user
  page table, a directory entry, or one of the references the rest of the kernel holds,
  which the model keeps as a function \<open>own\<close>.
\<close>

section \<open>Operations\<close>

text \<open>The inner loop of \<open>free_page_tables\<close>: \<open>n\<close> entries from \<open>pg_tbl\<close> on.\<close>

fun free_entries :: "nat \<Rightarrow> u32 \<Rightarrow> 'a mm_scheme \<Rightarrow> kerror + 'a mm_scheme" where
  "free_entries 0 pg_tbl s = Inr s"
| "free_entries (Suc n) pg_tbl s =
     kbind (if phys s pg_tbl AND 1 \<noteq> 0 then free_page (0xfffff000 AND phys s pg_tbl) s else Inr s)
       (\<lambda>s1. free_entries n (pg_tbl + 4) (store pg_tbl 0 s1))"

text \<open>Its outer loop: \<open>n\<close> directory entries from \<open>pg_dir\<close> on.\<close>

fun free_dirs :: "nat \<Rightarrow> u32 \<Rightarrow> 'a mm_scheme \<Rightarrow> kerror + 'a mm_scheme" where
  "free_dirs 0 pg_dir s = Inr s"
| "free_dirs (Suc n) pg_dir s =
     (if phys s pg_dir AND 1 = 0 then free_dirs n (pg_dir + 4) s
      else kbind (free_entries 1024 (phys s pg_dir AND 0xfffff000) s) (\<lambda>s1.
        kbind (free_page (0xfffff000 AND phys s1 pg_dir) s1) (\<lambda>s2.
          free_dirs n (pg_dir + 4) (store pg_dir 0 s2))))"

definition free_page_tables :: "u32 \<Rightarrow> u32 \<Rightarrow> 'a mm_scheme \<Rightarrow> kerror + u32 \<times> 'a mm_scheme" where
  "free_page_tables from_addr sz s =
     (if from_addr AND 0x3fffff \<noteq> 0 then Inl (Panic ''free_page_tables called with wrong alignment'')
      else if from_addr = 0 then Inl (Panic ''try to free up swapper memory space'')
      else kbind (free_dirs (unat (drop_bit 22 (sz + 0x3fffff))) (drop_bit 20 from_addr AND 0xffc) s)
        (\<lambda>s1. Inr (0, s1)))"

text \<open>One turn of the inner loop of \<open>copy_page_tables\<close>, then the loop, then the outer loop.\<close>

definition copy_entry :: "u32 \<Rightarrow> u32 \<Rightarrow> 'a mm_scheme \<Rightarrow> kerror + 'a mm_scheme" where
  "copy_entry from_page_table to_page_table s =
     (let this_page = phys s from_page_table in
      if this_page AND 1 = 0 then Inr s
      else
        let this_page = this_page AND NOT 2; s1 = store to_page_table this_page s in
        if this_page > LOW_MEM then
          let s2 = store from_page_table this_page s1; i = MAP_NR this_page in
          if i \<ge> PAGING_PAGES then Inl Out_of_bounds
          else Inr (s2\<lparr>mem_map := (mem_map s2)(i := mem_map s2 i + 1)\<rparr>)
        else Inr s1)"

fun copy_entries :: "nat \<Rightarrow> u32 \<Rightarrow> u32 \<Rightarrow> 'a mm_scheme \<Rightarrow> kerror + 'a mm_scheme" where
  "copy_entries 0 from_page_table to_page_table s = Inr s"
| "copy_entries (Suc n) from_page_table to_page_table s =
     kbind (copy_entry from_page_table to_page_table s)
       (copy_entries n (from_page_table + 4) (to_page_table + 4))"

fun copy_dirs :: "nat \<Rightarrow> nat \<Rightarrow> u32 \<Rightarrow> u32 \<Rightarrow> 'a mm_scheme \<Rightarrow> kerror + u32 \<times> 'a mm_scheme" where
  "copy_dirs nr 0 from_dir to_dir s = Inr (0, s)"
| "copy_dirs nr (Suc n) from_dir to_dir s =
     (if 1 AND phys s to_dir \<noteq> 0 then Inl (Panic ''copy_page_tables: already exists'')
      else if 1 AND phys s from_dir = 0 then copy_dirs nr n (from_dir + 4) (to_dir + 4) s
      else
        let from_page_table = 0xfffff000 AND phys s from_dir in
        (case get_free_page s of (to_page_table, s1) \<Rightarrow>
           if to_page_table = 0 then Inr (-1, s1)
           else kbind (copy_entries nr from_page_table to_page_table
                        (store to_dir (to_page_table OR 7) s1))
             (copy_dirs nr n (from_dir + 4) (to_dir + 4))))"

definition copy_page_tables :: "u32 \<Rightarrow> u32 \<Rightarrow> u32 \<Rightarrow> 'a mm_scheme \<Rightarrow> kerror + u32 \<times> 'a mm_scheme" where
  "copy_page_tables from_addr to_addr sz s =
     (if from_addr AND 0x3fffff \<noteq> 0 \<or> to_addr AND 0x3fffff \<noteq> 0
      then Inl (Panic ''copy_page_tables called with wrong alignment'')
      else copy_dirs (if from_addr = 0 then 0xA0 else 1024) (unat (drop_bit 22 (sz + 0x3fffff)))
        (drop_bit 20 from_addr AND 0xffc) (drop_bit 20 to_addr AND 0xffc) s)"

section \<open>The reference-count invariant\<close>

text \<open>
  Directory entries 0 to 3 are the kernel's own map of the first 16 MB (boot/head.s): they
  map free frames too, and their entries are not references. All other entries are.
\<close>

definition maps_frame :: "u32 option \<Rightarrow> u32 \<Rightarrow> bool" where
  "maps_frame eo f \<longleftrightarrow> (case eo of None \<Rightarrow> False | Some e \<Rightarrow> page_of e = f)"

definition mappers :: "'a mm_scheme \<Rightarrow> u32 \<Rightarrow> (nat \<times> nat) set" where
  "mappers s f = {(d, t). 4 \<le> d \<and> d < 1024 \<and> t < 1024 \<and> maps_frame (entry s d t) f}"

definition tables :: "'a mm_scheme \<Rightarrow> u32 \<Rightarrow> nat set" where
  "tables s f = {d. d < 1024 \<and> dir_present s d \<and> table s d = f}"

definition counted :: "(u32 \<Rightarrow> nat) \<Rightarrow> 'a mm_scheme \<Rightarrow> bool" where
  "counted own s \<longleftrightarrow>
     (\<forall>f. pool s f \<longrightarrow> refs s f = card (mappers s f) + card (tables s f) + own f)"

definition vm_inv :: "(u32 \<Rightarrow> nat) \<Rightarrow> 'a mm_scheme \<Rightarrow> bool" where
  "vm_inv own s \<longleftrightarrow> alloc_inv s \<and> wf_dir s \<and> counted own s"

definition uses :: "'a mm_scheme \<Rightarrow> u32 \<Rightarrow> nat" where
  "uses s f = card (mappers s f) + card (tables s f)"

lemma finite_mappers [simp]: "finite (mappers s f)"
  by (rule finite_subset [of _ "{..<1024} \<times> {..<1024}"]) (auto simp: mappers_def)

lemma finite_tables [simp]: "finite (tables s f)"
  by (rule finite_subset [of _ "{..<1024}"]) (auto simp: tables_def)

lemma card_change:
  assumes "finite A" "x \<notin> A" "B = (if a then insert x A else A)" "C = (if b then insert x A else A)"
  shows "card B + of_bool b = card C + of_bool a"
  using assms by simp

text \<open>Every way one step changes the tables, as a change of the number of references.\<close>

lemma uses_cong:
  assumes "\<And>d. d < 1024 \<Longrightarrow> dir_present s' d = dir_present s d \<and> table s' d = table s d"
    and "\<And>d t f. 4 \<le> d \<Longrightarrow> d < 1024 \<Longrightarrow> t < 1024 \<Longrightarrow> maps_frame (entry s' d t) f = maps_frame (entry s d t) f"
  shows "uses s' = uses s"
proof -
  have "mappers s' f = mappers s f" "tables s' f = tables s f" for f
    using assms by (auto simp: mappers_def tables_def)
  then show ?thesis by (simp add: uses_def fun_eq_iff)
qed

lemma uses_entry:
  assumes "\<And>d. d < 1024 \<Longrightarrow> dir_present s' d = dir_present s d \<and> table s' d = table s d"
    and "\<And>d t. d < 1024 \<Longrightarrow> t < 1024 \<Longrightarrow>
      entry s' d t = (if d = d0 \<and> t = t0 then eo else entry s d t)"
    and "4 \<le> d0" "d0 < 1024" "t0 < 1024"
  shows "uses s' f + of_bool (maps_frame (entry s d0 t0) f) = uses s f + of_bool (maps_frame eo f)"
proof -
  have "tables s' f = tables s f" using assms(1) by (auto simp: tables_def)
  moreover have "card (mappers s' f) + of_bool (maps_frame (entry s d0 t0) f) =
      card (mappers s f) + of_bool (maps_frame eo f)"
  proof (rule card_change)
    let ?A = "mappers s f - {(d0, t0)}"
    show "finite ?A" "(d0, t0) \<notin> ?A" by simp_all
    show "mappers s' f = (if maps_frame eo f then insert (d0, t0) ?A else ?A)"
      using assms(2-) by (auto simp: mappers_def split: if_splits)
    show "mappers s f = (if maps_frame (entry s d0 t0) f then insert (d0, t0) ?A else ?A)"
      using assms(3-) by (auto simp: mappers_def)
  qed
  ultimately show ?thesis by (simp add: uses_def)
qed

lemma uses_new_table:
  assumes "\<And>d. d < 1024 \<Longrightarrow> dir_present s' d = (d = d0 \<or> dir_present s d)"
    and "\<And>d. d < 1024 \<Longrightarrow> table s' d = (if d = d0 then p else table s d)"
    and "\<And>d t. d < 1024 \<Longrightarrow> t < 1024 \<Longrightarrow> entry s' d t = entry s d t"
    and "d0 < 1024" "\<not> dir_present s d0"
  shows "uses s' f = uses s f + of_bool (f = p)"
proof -
  have "mappers s' f = mappers s f" using assms(3) by (auto simp: mappers_def)
  moreover have "tables s' f = (if f = p then insert d0 (tables s f) else tables s f)"
    using assms by (auto simp: tables_def)
  moreover have "d0 \<notin> tables s f" using assms(5) by (simp add: tables_def)
  ultimately show ?thesis by (cases "f = p") (simp_all add: uses_def)
qed

lemma uses_drop_table:
  assumes "\<And>d. d < 1024 \<Longrightarrow> dir_present s' d = (d \<noteq> d0 \<and> dir_present s d)"
    and "\<And>d. d < 1024 \<Longrightarrow> d \<noteq> d0 \<Longrightarrow> table s' d = table s d"
    and "\<And>d t. d < 1024 \<Longrightarrow> t < 1024 \<Longrightarrow> entry s' d t = entry s d t"
    and "d0 < 1024" "dir_present s d0"
  shows "uses s' f + of_bool (f = table s d0) = uses s f"
proof -
  have "mappers s' f = mappers s f" using assms(3) by (auto simp: mappers_def)
  moreover have "tables s f = (if f = table s d0 then insert d0 (tables s' f) else tables s' f)"
    using assms by (auto simp: tables_def)
  moreover have "d0 \<notin> tables s' f" using assms(1,4) by (simp add: tables_def)
  ultimately show ?thesis by (cases "f = table s d0") (simp_all add: uses_def)
qed

lemma maps_frame_simps [simp]:
  "\<not> maps_frame None f" "maps_frame (Some e) f \<longleftrightarrow> page_of e = f"
  by (simp_all add: maps_frame_def)

lemma counted_eq: "counted own s \<longleftrightarrow> (\<forall>f. pool s f \<longrightarrow> refs s f = uses s f + own f)"
  by (simp add: counted_def uses_def)

lemma uses_entry_pos:
  assumes "4 \<le> d" "d < 1024" "t < 1024" "entry s d t = Some e"
  shows "0 < uses s (page_of e)"
proof -
  have "(d, t) \<in> mappers s (page_of e)" using assms by (simp add: mappers_def)
  then have "0 < card (mappers s (page_of e))" by (auto simp: card_gt_0_iff)
  then show ?thesis by (simp add: uses_def)
qed

lemma uses_table_pos:
  assumes "d < 1024" "dir_present s d" shows "0 < uses s (table s d)"
proof -
  have "d \<in> tables s (table s d)" using assms by (simp add: tables_def)
  then have "0 < card (tables s (table s d))" by (auto simp: card_gt_0_iff)
  then show ?thesis by (simp add: uses_def)
qed

section \<open>Freeing tables\<close>

text \<open>A frame that loses one reference: \<open>free_page\<close> cannot panic, and ignores what is not in the pool.\<close>

lemma free_page_counted:
  assumes "alloc_inv s" "page_aligned p" "pool s p \<longrightarrow> refs s p \<noteq> 0"
  obtains s' where "free_page p s = Inr s'" "alloc_inv s'"
    "s' = s\<lparr>mem_map := mem_map s'\<rparr>"
    "refs s' = (if pool s p then (refs s)(p := refs s p - 1) else refs s)"
proof (cases "pool s p")
  case True
  then obtain s' where s': "free_page p s = Inr s'" "alloc_inv s'" "refs s' = (refs s)(p := refs s p - 1)"
    using memory.release_last [OF assms(1) True] assms(3) by auto
  moreover have "s' = s\<lparr>mem_map := mem_map s'\<rparr>"
    using s'(1) True by (auto simp: free_page_pool split: if_splits)
  ultimately show thesis using that True by simp
next
  case False
  then have "free_page p s = Inr s"
    using assms(1,2) by (auto simp: free_page_def pool_def managed_def alloc_inv_def not_less not_le)
  with False assms(1) show thesis using that by simp
qed

lemma alloc_same_phys:
  assumes "s' = s\<lparr>mem_map := m\<rparr>"
  shows "dirent s' = dirent s" "dir_present s' = dir_present s" "table s' = table s" "entry s' = entry s"
    "phys s' = phys s" "HIGH_MEMORY s' = HIGH_MEMORY s" "pool s' = pool s" "klog s' = klog s"
  using assms by (simp_all add: dirent_def dir_present_def table_def entry_def pool_def fun_eq_iff)

lemma vm_invD:
  assumes "vm_inv own s"
  shows "wf_dir s" "alloc_inv s" "\<And>f. pool s f \<Longrightarrow> refs s f = uses s f + own f"
  using assms by (auto simp: vm_inv_def counted_eq)

lemma vm_inv_used:
  assumes "vm_inv own s" "4 \<le> d" "d < 1024" "t < 1024" "entry s d t = Some e"
  shows "pool s (page_of e) \<longrightarrow> refs s (page_of e) \<noteq> 0"
  using vm_invD(3) [OF assms(1), of "page_of e"] uses_entry_pos [OF assms(2-)] by auto

text \<open>One turn of the inner loop.\<close>

lemma free_entry_step:
  fixes s :: "'a mm_scheme"
  assumes inv: "vm_inv own s" and d0: "4 \<le> d0" "d0 < 1024" "t0 < 1024" "dir_present s d0"
  defines "a \<equiv> slot (table s d0) t0"
  obtains s1 where "(if phys s a AND 1 \<noteq> 0 then free_page (0xfffff000 AND phys s a) s else Inr s) = Inr s1"
    "vm_inv own (store a 0 s1)" "HIGH_MEMORY s1 = HIGH_MEMORY s"
    "\<forall>d < 1024. dirent (store a 0 s1) d = dirent s d"
    "\<forall>d < 1024. \<forall>t < 1024.
      entry (store a 0 s1) d t = (if d = d0 \<and> t = t0 then None else entry s d t)"
proof -
  note wf = vm_invD(1) [OF inv] and al = vm_invD(2) [OF inv] and ct = vm_invD(3) [OF inv]
  let ?e = "phys s a" and ?p = "page_of (phys s a)"
  have en: "entry s d0 t0 = (if ?e AND 1 \<noteq> 0 then Some ?e else None)"
    using d0(4) by (simp add: entry_def a_def)
  obtain s1 where s1: "(if ?e AND 1 \<noteq> 0 then free_page (0xfffff000 AND ?e) s else Inr s) = Inr s1"
    "alloc_inv s1" "s1 = s\<lparr>mem_map := mem_map s1\<rparr>"
    "refs s1 = (if ?e AND 1 \<noteq> 0 \<and> pool s ?p then (refs s)(?p := refs s ?p - 1) else refs s)"
  proof (cases "?e AND 1 = 0")
    case True
    with al show thesis by (intro that [of s]) simp_all
  next
    case False
    with en have "entry s d0 t0 = Some ?e" by simp
    then have "pool s ?p \<longrightarrow> refs s ?p \<noteq> 0" by (rule vm_inv_used [OF inv d0(1-3)])
    then obtain s1 where "free_page ?p s = Inr s1" "alloc_inv s1" "s1 = s\<lparr>mem_map := mem_map s1\<rparr>"
      "refs s1 = (if pool s ?p then (refs s)(?p := refs s ?p - 1) else refs s)"
      by (rule free_page_counted [OF al page_of_page_of])
    with False show thesis by (intro that [of s1]) (simp_all add: and.commute)
  qed
  note same = alloc_same_phys [OF s1(3)]
  let ?s2 = "store a 0 s1"
  have dp: "dir_present s1 d0" using d0(4) by (simp add: same)
  have wf1: "wf_dir s1"
  proof (rule wf_dir_cong [OF wf])
    show "dirent s1 d = dirent s d" for d by (simp add: same)
    fix d assume d: "d < 1024" "dir_present s d" "managed (table s d)"
    have "0 < refs s (table s d)" using wf_dirD(2) [OF wf d] .
    moreover have "?e AND 1 \<noteq> 0 \<Longrightarrow> pool s ?p \<Longrightarrow> table s d = ?p \<Longrightarrow> refs s ?p \<noteq> 1"
    proof
      assume e: "?e AND 1 \<noteq> 0" "pool s ?p" "table s d = ?p" "refs s ?p = 1"
      have "(d0, t0) \<in> mappers s ?p" "d \<in> tables s ?p"
        using en e d0 d by (simp_all add: mappers_def tables_def)
      then have "0 < card (mappers s ?p)" "0 < card (tables s ?p)" by (auto simp: card_gt_0_iff)
      with ct [OF e(2)] e(4) show False by (simp add: uses_def)
    qed
    ultimately show "refs s1 (table s d) \<noteq> 0" by (auto simp: s1(4))
  qed
  note st = wf1 d0(2,3) dp
  have en2: "entry ?s2 d t = (if d = d0 \<and> t = t0 then None else entry s d t)" if "d < 1024" "t < 1024" for d t
    using that by (simp add: entry_store_entry [OF st, unfolded same, folded a_def])
  have di2: "dirent ?s2 d = dirent s d" if "d < 1024" for d
    using that by (simp add: dirent_store_entry [OF st, unfolded same, folded a_def])
  have ch: "uses ?s2 f + of_bool (maps_frame (entry s d0 t0) f) = uses s f" for f
    using uses_entry [of ?s2 s d0 t0 None f] di2 en2 d0 by (simp add: dir_present_def table_def)
  have "refs ?s2 f = uses ?s2 f + own f" if "pool s f" for f
    using ct [OF that] ch [of f] en that by (auto simp: s1(4) split: if_splits)
  then have "vm_inv own ?s2"
    using wf_dir_store_entry [OF st, of 0, unfolded same, folded a_def] s1(2)
    by (simp add: vm_inv_def counted_eq same)
  with s1(1) same(6) di2 en2 show thesis by (intro that [of s1]) auto
qed

lemma same_dirent: "dirent s' d = dirent s d \<Longrightarrow> dir_present s' d = dir_present s d \<and> table s' d = table s d"
  by (simp add: dir_present_def table_def)

lemma free_entries_spec:
  fixes s :: "'a mm_scheme"
  assumes "vm_inv own s" "4 \<le> d0" "d0 < 1024" "dir_present s d0" "t0 + n \<le> 1024"
  shows "\<exists>s'. free_entries n (slot (table s d0) t0) s = Inr s' \<and> vm_inv own s' \<and>
    HIGH_MEMORY s' = HIGH_MEMORY s \<and> (\<forall>d < 1024. dirent s' d = dirent s d) \<and>
    (\<forall>d < 1024. \<forall>t < 1024. entry s' d t =
      (if d = d0 \<and> t0 \<le> t \<and> t < t0 + n then None else entry s d t))"
  using assms
proof (induction n arbitrary: t0 s)
  case 0
  then show ?case by auto
next
  case (Suc n)
  let ?a = "slot (table s d0) t0"
  have t0: "t0 < 1024" using Suc.prems(5) by simp
  obtain s1 where s1: "(if phys s ?a AND 1 \<noteq> 0 then free_page (0xfffff000 AND phys s ?a) s else Inr s) = Inr s1"
    "vm_inv own (store ?a 0 s1)" "HIGH_MEMORY s1 = HIGH_MEMORY s"
    "\<forall>d < 1024. dirent (store ?a 0 s1) d = dirent s d"
    "\<forall>d < 1024. \<forall>t < 1024.
      entry (store ?a 0 s1) d t = (if d = d0 \<and> t = t0 then None else entry s d t)"
    by (rule free_entry_step [OF Suc.prems(1-3) t0 Suc.prems(4)])
  note sd = same_dirent [OF s1(4) [rule_format, OF Suc.prems(3)]]
  obtain s' where s': "free_entries n (slot (table s d0) (Suc t0)) (store ?a 0 s1) = Inr s'" "vm_inv own s'"
    "HIGH_MEMORY s' = HIGH_MEMORY (store ?a 0 s1)"
    "\<forall>d < 1024. dirent s' d = dirent (store ?a 0 s1) d"
    "\<forall>d < 1024. \<forall>t < 1024. entry s' d t =
      (if d = d0 \<and> Suc t0 \<le> t \<and> t < Suc t0 + n then None else entry (store ?a 0 s1) d t)"
    using Suc.IH [OF s1(2) Suc.prems(2,3), of "Suc t0"] Suc.prems(4,5) sd by auto
  have "free_entries (Suc n) ?a s = Inr s'"
    using s1(1) s'(1) by (simp add: slot_Suc split: if_splits)
  moreover have "entry s' d t = (if d = d0 \<and> t0 \<le> t \<and> t < t0 + Suc n then None else entry s d t)"
    if "d < 1024" "t < 1024" for d t
    using s'(5) s1(5) that by (auto simp: le_less)
  ultimately show ?case using s'(2-4) s1(3,4) by (intro exI [of _ s']) simp
qed

text \<open>A directory entry that is cleared when its table is empty.\<close>

lemma drop_dir:
  assumes "wf_dir s" "d0 < 1024" "dir_present s d0" "\<forall>t < 1024. entry s d0 t = None"
  defines "s' \<equiv> store (slot 0 d0) 0 s"
  shows "d < 1024 \<Longrightarrow> dirent s' d = (if d = d0 then 0 else dirent s d)"
    and "d < 1024 \<Longrightarrow> dir_present s' d = (d \<noteq> d0 \<and> dir_present s d)"
    and "d < 1024 \<Longrightarrow> t < 1024 \<Longrightarrow> entry s' d t = entry s d t"
    and "uses s' f + of_bool (f = table s d0) = uses s f"
proof -
  show 1: "dirent s' d = (if d = d0 then 0 else dirent s d)" if "d < 1024" for d
    using that assms(2) by (simp add: s'_def dirent_def)
  then show 2: "dir_present s' d = (d \<noteq> d0 \<and> dir_present s d)" if "d < 1024" for d
    using that by (simp add: dir_present_def)
  have 3: "table s' d = table s d" if "d < 1024" "d \<noteq> d0" for d
    using that 1 by (simp add: table_def)
  have "phys s' (slot p t) = phys s (slot p t)" if "page_aligned p" "p \<noteq> 0" "t < 1024" for p t
    using that assms(2) by (simp add: s'_def)
  then show 4: "entry s' d t = entry s d t" if "d < 1024" "t < 1024" for d t
    using that 2 3 assms(1,4) by (cases "d = d0") (auto simp: entry_def dest: wf_dirD(1))
  show "uses s' f + of_bool (f = table s d0) = uses s f"
    using 2 3 4 assms(2,3) by (intro uses_drop_table) auto
qed

lemma free_dir_step:
  fixes s :: "'a mm_scheme"
  assumes inv: "vm_inv own s" and d0: "d0 < 1024" "dir_present s d0" "\<forall>t < 1024. entry s d0 t = None"
  obtains s1 where "free_page (0xfffff000 AND phys s (slot 0 d0)) s = Inr s1"
    "vm_inv own (store (slot 0 d0) 0 s1)" "HIGH_MEMORY s1 = HIGH_MEMORY s"
    "\<forall>d < 1024. dirent (store (slot 0 d0) 0 s1) d = (if d = d0 then 0 else dirent s d)"
    "\<forall>d < 1024. \<forall>t < 1024. entry (store (slot 0 d0) 0 s1) d t = entry s d t"
proof -
  note wf = vm_invD(1) [OF inv] and al = vm_invD(2) [OF inv] and ct = vm_invD(3) [OF inv]
  let ?p = "table s d0"
  have used: "pool s ?p \<longrightarrow> refs s ?p \<noteq> 0"
    using ct [of ?p] uses_table_pos [OF d0(1,2)] by auto
  obtain s1 where s1: "free_page ?p s = Inr s1" "alloc_inv s1" "s1 = s\<lparr>mem_map := mem_map s1\<rparr>"
    "refs s1 = (if pool s ?p then (refs s)(?p := refs s ?p - 1) else refs s)"
    by (rule free_page_counted [OF al table_aligned used])
  note same = alloc_same_phys [OF s1(3)]
  let ?s2 = "store (slot 0 d0) 0 s1"
  have same2: "dirent ?s2 = dirent (store (slot 0 d0) 0 s)" "entry ?s2 = entry (store (slot 0 d0) 0 s)"
    "dir_present ?s2 = dir_present (store (slot 0 d0) 0 s)" "table ?s2 = table (store (slot 0 d0) 0 s)"
    by (simp_all add: dirent_def entry_def dir_present_def table_def fun_eq_iff same)
  note dr = drop_dir [OF wf d0]
  have u: "uses ?s2 = uses (store (slot 0 d0) 0 s)"
    by (simp add: uses_def mappers_def tables_def same2 fun_eq_iff)
  have "refs ?s2 f = uses ?s2 f + own f" if "pool s f" for f
    using ct [OF that] dr(4) [of f] that by (auto simp: s1(4) u split: if_splits)
  moreover have "wf_dir ?s2"
    unfolding wf_dir_def
  proof (intro conjI allI impI)
    fix d assume d: "d < 1024" "dir_present ?s2 d"
    then have d': "dir_present s d" "d \<noteq> d0" "table ?s2 d = table s d"
      using dr(1,2) [of d] by (auto simp: same2 table_def)
    then show "table ?s2 d \<noteq> 0" using wf d(1) by (simp add: wf_dirD)
    assume "managed (table ?s2 d)"
    then have "0 < refs s (table s d)" using wf d d' by (simp add: wf_dirD)
    moreover have "table s d \<noteq> ?p" using wf_dir_inj [OF wf d(1) d0(1) d'(1) d0(2)] d'(2) by simp
    ultimately show "refs ?s2 (table ?s2 d) \<noteq> 0" using d'(3) by (auto simp: s1(4))
  next
    fix d d' assume "d < 1024" "d' < 1024" "dir_present ?s2 d \<and> dir_present ?s2 d' \<and> table ?s2 d = table ?s2 d'"
    then show "d = d'"
      using dr(1,2) wf by (auto simp: same2 table_def [of "store (slot 0 d0) 0 s"]) (auto simp: wf_dir_def table_def)
  qed
  ultimately have "vm_inv own ?s2" using s1(2) by (simp add: vm_inv_def counted_eq same)
  with s1(1) same(6) dr(1,3) show thesis
    by (intro that [of s1]) (simp_all add: same2 table_def dirent_def and.commute)
qed

lemma free_dirs_spec:
  fixes s :: "'a mm_scheme"
  assumes "vm_inv own s" "4 \<le> d0" "d0 + n \<le> 1024"
  shows "\<exists>s'. free_dirs n (slot 0 d0) s = Inr s' \<and> vm_inv own s' \<and> HIGH_MEMORY s' = HIGH_MEMORY s \<and>
    (\<forall>d < 1024. dir_present s' d = (dir_present s d \<and> \<not> (d0 \<le> d \<and> d < d0 + n))) \<and>
    (\<forall>d < 1024. \<not> (d0 \<le> d \<and> d < d0 + n) \<longrightarrow> dirent s' d = dirent s d) \<and>
    (\<forall>d < 1024. \<forall>t < 1024. entry s' d t = (if d0 \<le> d \<and> d < d0 + n then None else entry s d t))"
  using assms
proof (induction n arbitrary: d0 s)
  case 0
  then show ?case by auto
next
  case (Suc n)
  have d0: "d0 < 1024" using Suc.prems(3) by simp
  have dp: "dir_present s d0 \<longleftrightarrow> phys s (slot 0 d0) AND 1 \<noteq> 0" by (simp add: dir_present_def dirent_def)
  have ta: "table s d0 = phys s (slot 0 d0) AND 0xfffff000" by (simp add: table_def dirent_def)
  show ?case
  proof (cases "dir_present s d0")
    case False
    then have "\<forall>t. entry s d0 t = None" by (simp add: entry_def)
    moreover have "free_dirs (Suc n) (slot 0 d0) s = free_dirs n (slot 0 (Suc d0)) s"
      using False dp by (simp add: slot_Suc)
    ultimately show ?thesis
      using Suc.IH [OF Suc.prems(1), of "Suc d0"] Suc.prems(2,3) False by (auto simp: le_less)
  next
    case True
    have whole: "0 + 1024 \<le> (1024 :: nat)" by simp
    obtain s1 where s1: "free_entries 1024 (slot (table s d0) 0) s = Inr s1" "vm_inv own s1"
      "HIGH_MEMORY s1 = HIGH_MEMORY s" "\<forall>d < 1024. dirent s1 d = dirent s d"
      "\<forall>d < 1024. \<forall>t < 1024. entry s1 d t = (if d = d0 \<and> 0 \<le> t \<and> t < 0 + 1024 then None else entry s d t)"
      using free_entries_spec [OF Suc.prems(1,2) d0 True whole] by blast
    have p1: "dir_present s1 d0" "\<forall>t < 1024. entry s1 d0 t = None"
      using same_dirent [of s1 d0 s] s1(4,5) d0 True by simp_all
    obtain s2 where s2: "free_page (0xfffff000 AND phys s1 (slot 0 d0)) s1 = Inr s2"
      "vm_inv own (store (slot 0 d0) 0 s2)" "HIGH_MEMORY s2 = HIGH_MEMORY s1"
      "\<forall>d < 1024. dirent (store (slot 0 d0) 0 s2) d = (if d = d0 then 0 else dirent s1 d)"
      "\<forall>d < 1024. \<forall>t < 1024. entry (store (slot 0 d0) 0 s2) d t = entry s1 d t"
      by (rule free_dir_step [OF s1(2) d0 p1])
    let ?s3 = "store (slot 0 d0) 0 s2"
    obtain s' where s': "free_dirs n (slot 0 (Suc d0)) ?s3 = Inr s'" "vm_inv own s'" "HIGH_MEMORY s' = HIGH_MEMORY ?s3"
      "\<forall>d < 1024. dir_present s' d = (dir_present ?s3 d \<and> \<not> (Suc d0 \<le> d \<and> d < Suc d0 + n))"
      "\<forall>d < 1024. \<not> (Suc d0 \<le> d \<and> d < Suc d0 + n) \<longrightarrow> dirent s' d = dirent ?s3 d"
      "\<forall>d < 1024. \<forall>t < 1024. entry s' d t = (if Suc d0 \<le> d \<and> d < Suc d0 + n then None else entry ?s3 d t)"
      using Suc.IH [OF s2(2), of "Suc d0"] Suc.prems(2,3) by auto
    have "free_entries 1024 (phys s (slot 0 d0) AND 0xfffff000) s = Inr s1"
      using s1(1) by (simp only: ta slot_0)
    then have "free_dirs (Suc n) (slot 0 d0) s = free_dirs n (slot 0 (Suc d0)) ?s3"
      using True [unfolded dp] s2(1) by (simp only: free_dirs.simps if_False kbind.simps slot_Suc)
    with s'(1) have "free_dirs (Suc n) (slot 0 d0) s = Inr s'" by (simp only:)
    moreover have "dir_present s' d = (dir_present s d \<and> \<not> (d0 \<le> d \<and> d < d0 + Suc n))" if "d < 1024" for d
      using s'(4) s2(4) s1(4) that by (cases "d = d0") (auto simp: dir_present_def)
    moreover have "dirent s' d = dirent s d" if "d < 1024" "\<not> (d0 \<le> d \<and> d < d0 + Suc n)" for d
      using s'(5) s2(4) s1(4) that by auto
    moreover have "entry s' d t = (if d0 \<le> d \<and> d < d0 + Suc n then None else entry s d t)"
      if "d < 1024" "t < 1024" for d t
      using s'(6) s2(5) s1(5) that by (cases "d = d0") auto
    ultimately show ?thesis
      using s'(2,3) s2(3) s1(3) by (intro exI [of _ s']) simp
  qed
qed

section \<open>The other operations keep the invariant\<close>

lemma vm_invI:
  "wf_dir s \<Longrightarrow> alloc_inv s \<Longrightarrow> (\<And>f. pool s f \<Longrightarrow> refs s f = uses s f + own f) \<Longrightarrow> vm_inv own s"
  by (simp add: vm_inv_def counted_eq)

lemma vm_inv_klog [simp]: "vm_inv own (s\<lparr>klog := l\<rparr>) = vm_inv own s"
  by (simp add: vm_inv_def counted_eq uses_def mappers_def tables_def)

lemma vm_inv_refs_managed:
  assumes "vm_inv own s" "4 \<le> d" "d < 1024" "t < 1024" "entry s d t = Some e"
  shows "managed (page_of e) \<longrightarrow> refs s (page_of e) \<noteq> 0"
proof
  assume m: "managed (page_of e)"
  show "refs s (page_of e) \<noteq> 0"
  proof (cases "pool s (page_of e)")
    case True
    with vm_inv_used [OF assms] show ?thesis by simp
  next
    case False
    with m vm_invD(2) [OF assms(1)] managed_eq_frame [OF m] show ?thesis
      by (simp add: alloc_inv_def pool_def refs_def not_less unat_eq_0)
  qed
qed

lemma vm_inv_take:
  assumes "vm_inv own s" "get_free_page s = (p, s')" "p \<noteq> 0"
  shows "vm_inv (own(p := 1)) s'" and "own p = 0" and "uses s p = 0" and "uses s' = uses s"
proof -
  note inv = vm_invD [OF assms(1)]
  note g = get_free_page_nonzero [OF assms(2,3)] and al = inv(1) assms(2,3)
  have "refs s p = uses s p + own p"
    using get_free_page_pool(1) [OF inv(2) assms(2,3)] by (rule inv(3))
  with g(2) show z: "own p = 0" "uses s p = 0" by simp_all
  show u: "uses s' = uses s"
    by (rule uses_cong) (simp_all add: dir_present_alloc [OF al] table_alloc [OF al] entry_alloc [OF al])
  show "vm_inv (own(p := 1)) s'"
    using wf_dir_alloc [OF al] get_free_page_pool(2,3) [OF inv(2) assms(2,3)] inv(3) z u
    by (intro vm_invI) (auto simp: g(3))
qed

lemma vm_inv_release:
  assumes "vm_inv own s" "pool s p" "0 < own p"
  shows "\<exists>s'. free_page p s = Inr s' \<and> vm_inv (own(p := own p - 1)) s'"
proof -
  note inv = vm_invD [OF assms(1)]
  have nz: "refs s p \<noteq> 0" using inv(3) [OF assms(2)] assms(3) by simp
  have al: "page_aligned p" using assms(2) by (simp add: pool_def)
  have nz': "pool s p \<longrightarrow> refs s p \<noteq> 0" using nz by simp
  obtain s' where s': "free_page p s = Inr s'" "alloc_inv s'" "s' = s\<lparr>mem_map := mem_map s'\<rparr>"
    "refs s' = (if pool s p then (refs s)(p := refs s p - 1) else refs s)"
    by (rule free_page_counted [OF inv(2) al nz'])
  note same = alloc_same_phys [OF s'(3)]
  have u: "uses s' = uses s" by (rule uses_cong) (simp_all add: same)
  have "wf_dir s'"
  proof (rule wf_dir_cong [OF inv(1)])
    fix d assume d: "d < 1024" "dir_present s d" "managed (table s d)"
    have "table s d = p \<Longrightarrow> 1 < refs s p"
      using inv(3) [OF assms(2)] assms(3) uses_table_pos [OF d(1,2)] by auto
    with wf_dirD(2) [OF inv(1) d] show "refs s' (table s d) \<noteq> 0" by (auto simp: s'(4))
  qed (simp add: same)
  then have "vm_inv (own(p := own p - 1)) s'"
    using s'(2) inv(3) assms(2,3) u by (intro vm_invI) (auto simp: s'(4) same)
  with s'(1) show ?thesis by blast
qed

lemma uses_put_page:
  assumes "put_page page address s = Inr (r, s')" "r \<noteq> 0" "wf_dir s" "page_aligned page"
    and "4 \<le> dir_index address" "walk s address = None"
  shows "same_dirs s s' \<and> uses s' = (\<lambda>f. uses s f + of_bool (f = page)) \<or>
    (\<exists>p. new_dir s (dir_index address) p s' \<and>
      uses s' = (\<lambda>f. uses s f + of_bool (f = page) + of_bool (f = p)))"
proof -
  let ?d = "dir_index address" and ?t = "tbl_index address"
  note ps = put_page_success [OF assms(1-3)]
  then have en: "entry s' d t = (if d = ?d \<and> t = ?t then Some (page OR 7) else entry s d t)"
    if "d < 1024" "t < 1024" for d t using that by blast
  have none: "entry s ?d ?t = None" using assms(6) by (simp add: walk_def)
  have pg: "page_of (page OR 7) = page" using assms(4) by simp
  from ps consider "same_dirs s s'" | p where "new_dir s ?d p s'" by blast
  then show ?thesis
  proof cases
    case 1
    then have "uses s' f = uses s f + of_bool (f = page)" for f
      using uses_entry [of s' s ?d ?t "Some (page OR 7)" f] en assms(5) none pg
      by (auto simp: same_dirs_def)
    with 1 show ?thesis by auto
  next
    case (2 p)
    have empty: "entry s ?d t = None" for t using 2 by (simp add: new_dir_def entry_def)
    have mp: "mappers s' f = (if f = page then insert (?d, ?t) (mappers s f) else mappers s f)" for f
      using en assms(5) none pg by (auto simp: mappers_def split: if_splits)
    have tb: "tables s' f = (if f = p then insert ?d (tables s f) else tables s f)" for f
      using 2 by (auto simp: tables_def new_dir_def)
    have "(?d, ?t) \<notin> mappers s f" "?d \<notin> tables s f" for f
      using none 2 by (simp_all add: mappers_def tables_def new_dir_def)
    then have "uses s' f = uses s f + of_bool (f = page) + of_bool (f = p)" for f
      by (simp add: uses_def mp tb)
    with 2 show ?thesis by auto
  qed
qed

lemma vm_inv_put_page:
  assumes "vm_inv own s" "put_page page address s = Inr (r, s')" "r \<noteq> 0" "page_aligned page" "0 < own page"
    and "4 \<le> dir_index address" "walk s address = None"
  shows "vm_inv (own(page := own page - 1)) s'"
proof -
  note inv = vm_invD [OF assms(1)]
  note ps = put_page_success [OF assms(2,3) inv(1)]
  then have po: "pool s' = pool s" by (simp add: pool_def fun_eq_iff)
  have "refs s' f = uses s' f + (own(page := own page - 1)) f" if "pool s f" for f
    using uses_put_page [OF assms(2,3) inv(1) assms(4,6,7)] inv(3) [OF that] assms(5)
    by (auto simp: same_dirs_def new_dir_def)
  with ps inv(2) po show ?thesis by (intro vm_invI) auto
qed

lemma vm_inv_do_no_page:
  assumes "vm_inv own s" "4 \<le> dir_index address" "walk s address = None"
    and "do_no_page error_code address s = Inr s'"
  shows "vm_inv own s'"
proof -
  note inv = vm_invD [OF assms(1)]
  obtain p s1 where p: "get_free_page s = (p, s1)" "p \<noteq> 0" "put_page p (page_of address) s1 = Inr (p, s')"
    using do_no_page_success [OF inv(1,2) assms(4)] by blast
  note g = get_free_page_nonzero [OF p(1,2)] and tk = vm_inv_take [OF assms(1) p(1,2)]
  have w: "walk s1 (page_of address) = None"
    using assms(3) by (simp add: walk_def entry_alloc [OF inv(1) p(1,2)])
  have al: "page_aligned p" using g(1) by simp
  from vm_inv_put_page [OF tk(1) p(3,2) al _ _ w] assms(2)
  have "vm_inv ((own(p := 1))(p := 0)) s'" by simp
  moreover have "(own(p := 1))(p := 0) = own" using tk(2) by (simp add: fun_eq_iff)
  ultimately show ?thesis by simp
qed

lemma vm_inv_un_wp_page:
  fixes s :: "'a mm_scheme"
  assumes inv: "vm_inv own s" and d0: "4 \<le> d0" "d0 < 1024" "t0 < 1024" "entry s d0 t0 = Some e"
    and "valid_frame (page_of e)" and res: "un_wp_page (slot (table s d0) t0) s = Inr s'"
  shows "vm_inv own s'"
proof -
  note iv = vm_invD [OF inv] and used = vm_inv_refs_managed [OF inv d0]
  from iv(1) d0(2-) assms(6) used res obtain e' where e': "wf_dir s'"
      "\<And>d. d < 1024 \<Longrightarrow> dir_present s' d = dir_present s d \<and> table s' d = table s d"
      "\<And>d t. d < 1024 \<Longrightarrow> t < 1024 \<Longrightarrow>
         entry s' d t = (if d = d0 \<and> t = t0 then Some e' else entry s d t)"
      "managed (page_of e')" "HIGH_MEMORY s' = HIGH_MEMORY s" "alloc_inv s \<longrightarrow> alloc_inv s'"
      and cs: "e' = e OR 2 \<and> refs s' = refs s \<or>
       e' = page_of e' OR 7 \<and> page_of e' \<noteq> page_of e \<and> refs s (page_of e') = 0 \<and>
       (managed (page_of e) \<longrightarrow> 1 < refs s (page_of e)) \<and>
       refs s' = (\<lambda>f. if f = page_of e' then 1
         else if f = page_of e \<and> managed f then refs s f - 1 else refs s f) \<and>
       (\<forall>a. page_of a = page_of e' \<longrightarrow> phys s' a = 0)"
    by (rule un_wp_page_success) blast
  have po: "pool s' = pool s" using e'(5) by (simp add: pool_def fun_eq_iff)
  have u: "uses s' f + of_bool (page_of e = f) = uses s f + of_bool (page_of e' = f)" for f
    using uses_entry [of s' s d0 t0 "Some e'" f] e'(2,3) d0 by simp
  have "refs s' f = uses s' f + own f" if "pool s f" for f
  proof -
    have m: "managed f" using that by (simp add: pool_def)
    show ?thesis using cs
    proof
      assume "e' = e OR 2 \<and> refs s' = refs s"
      then show ?thesis using u [of f] iv(3) [OF that] by (auto simp: or_2_flags split: if_splits)
    next
      assume c: "e' = page_of e' OR 7 \<and> page_of e' \<noteq> page_of e \<and> refs s (page_of e') = 0 \<and>
       (managed (page_of e) \<longrightarrow> 1 < refs s (page_of e)) \<and>
       refs s' = (\<lambda>f. if f = page_of e' then 1
         else if f = page_of e \<and> managed f then refs s f - 1 else refs s f) \<and>
       (\<forall>a. page_of a = page_of e' \<longrightarrow> phys s' a = 0)"
      then show ?thesis using u [of f] iv(3) [OF that] m by (auto split: if_splits)
    qed
  qed
  with e' iv(2) po show ?thesis by (intro vm_invI) auto
qed

section \<open>Copying tables\<close>

text \<open>What a present entry becomes in the copy, and in the source.\<close>

definition copied :: "u32 \<Rightarrow> u32" where
  "copied e = e AND NOT 2"

definition shared :: "u32 \<Rightarrow> u32" where
  "shared e = (if LOW_MEM \<le> page_of e then copied e else e)"

lemma copied_bits [simp]: "copied e AND 1 = e AND 1" "page_of (copied e) = page_of e" "copied e AND 2 = 0"
  by (simp_all add: copied_def and.assoc)

lemma shared_bits [simp]: "shared e AND 1 = e AND 1" "page_of (shared e) = page_of e"
  by (simp_all add: shared_def)

lemma present_above_low:
  assumes "(x :: u32) AND 1 \<noteq> 0"
  shows "x > LOW_MEM \<longleftrightarrow> LOW_MEM \<le> page_of x"
proof
  assume "x > LOW_MEM"
  then show "LOW_MEM \<le> page_of x" by (intro MAP_NR_page_of) simp
next
  assume l: "LOW_MEM \<le> page_of x"
  have "unat (page_of x) \<le> unat x" by (simp add: unat_page_of)
  then have "page_of x \<le> x" by (simp add: word_le_nat_alt)
  with l have "LOW_MEM \<le> x" by (rule order_trans)
  moreover have "x \<noteq> LOW_MEM" using assms by (auto simp: LOW_MEM_def)
  ultimately show "x > LOW_MEM" by simp
qed

lemma copy_entry_eq:
  assumes "page_of (phys s a) < 0x1000000"
  shows "copy_entry a b s =
    (if phys s a AND 1 = 0 then Inr s
     else if managed (page_of (phys s a))
     then let s2 = store a (copied (phys s a)) (store b (copied (phys s a)) s); i = MAP_NR (page_of (phys s a)) in
       Inr (s2\<lparr>mem_map := (mem_map s2)(i := mem_map s2 i + 1)\<rparr>)
     else Inr (store b (copied (phys s a)) s))"
proof (cases "phys s a AND 1 = 0")
  case True
  then show ?thesis by (simp add: copy_entry_def Let_def)
next
  case False
  let ?x = "copied (phys s a)"
  have p: "?x AND 1 \<noteq> 0" using False by simp
  have m: "managed (page_of (phys s a)) \<longleftrightarrow> ?x > LOW_MEM"
    using assms by (simp add: present_above_low [OF p] managed_def)
  have nr: "MAP_NR ?x = MAP_NR (page_of (phys s a))" if "?x > LOW_MEM"
    using MAP_NR_page_of(2) [of ?x] that by simp
  have lt: "\<not> 3840 \<le> MAP_NR (page_of (phys s a))" if "?x > LOW_MEM"
    using managed_eq_frame(1) that m by (simp add: not_le)
  show ?thesis
    using False nr lt unfolding m copy_entry_def copied_def [symmetric] by (simp add: Let_def)
qed

text \<open>
  How many of the \<open>n\<close> entries from entry \<open>t\<close> of table \<open>d\<close> on map frame \<open>f\<close>, and how many
  of the first \<open>nr\<close> entries of the \<open>n\<close> tables from \<open>d\<close> on: what a copy adds to its count.
\<close>

fun share :: "'a mm_scheme \<Rightarrow> nat \<Rightarrow> nat \<Rightarrow> nat \<Rightarrow> u32 \<Rightarrow> nat" where
  "share s d t 0 f = 0"
| "share s d t (Suc n) f = of_bool (maps_frame (entry s d t) f) + share s d (Suc t) n f"

fun shares :: "'a mm_scheme \<Rightarrow> nat \<Rightarrow> nat \<Rightarrow> nat \<Rightarrow> u32 \<Rightarrow> nat" where
  "shares s nr d 0 f = 0"
| "shares s nr d (Suc n) f = share s d 0 nr f + shares s nr (Suc d) n f"

lemma share_cong:
  "(\<And>u. t \<le> u \<Longrightarrow> u < t + n \<Longrightarrow> maps_frame (entry s' d u) f = maps_frame (entry s d u) f) \<Longrightarrow>
   share s' d t n f = share s d t n f"
  by (induction n arbitrary: t) auto

lemma shares_cong:
  "(\<And>d' u. d \<le> d' \<Longrightarrow> d' < d + n \<Longrightarrow> u < nr \<Longrightarrow>
     maps_frame (entry s' d' u) f = maps_frame (entry s d' u) f) \<Longrightarrow>
   shares s' nr d n f = shares s nr d n f"
  by (induction n arbitrary: d) (auto intro!: arg_cong2 [where f = "(+)"] share_cong)

lemma maps_frame_map_option [simp]:
  "maps_frame (map_option copied x) f = maps_frame x f" "maps_frame (map_option shared x) f = maps_frame x f"
  by (cases x; simp)+

text \<open>The entry of a managed frame is copied and its own protected, and the new reference counted.\<close>

lemma copy_entry_managed:
  fixes s :: "'a mm_scheme"
  assumes inv: "vm_inv own s" and d: "d1 < 1024" "4 \<le> d2" "d2 < 1024" "d1 \<noteq> d2" "t < 1024"
    and dp: "dir_present s d1" "dir_present s d2" and none: "entry s d2 t = None"
    and Some: "entry s d1 t = Some e" and ok: "page_of e < 0x1000000" "managed (page_of e)" "refs s (page_of e) < 255"
  obtains s' where "copy_entry (slot (table s d1) t) (slot (table s d2) t) s = Inr s'"
    "vm_inv own s'" "HIGH_MEMORY s' = HIGH_MEMORY s" "\<forall>d < 1024. dirent s' d = dirent s d"
    "\<forall>d < 1024. \<forall>u < 1024. entry s' d u = (if u = t \<and> (d = d2 \<or> d = d1) then Some (copied e) else entry s d u)"
    "refs s' = (refs s)(page_of e := refs s (page_of e) + 1)"
proof -
  let ?a = "slot (table s d1) t" and ?b = "slot (table s d2) t"
  note iv = vm_invD [OF inv] and b = wf_dir_store_entry [OF _ d(3,5) dp(2)]
  have e: "phys s ?a = e" "e AND 1 \<noteq> 0" using Some by (auto simp: entry_def split: if_splits)
  note b = iv(1) d(3,5) dp(2)
  let ?s1 = "store ?b (copied e) s"
  have dir1: "dirent ?s1 x = dirent s x" if "x < 1024" for x using that by (rule dirent_store_entry [OF b])
  have en1: "entry ?s1 x u = (if x = d2 \<and> u = t then Some (copied e) else entry s x u)" if "x < 1024" "u < 1024" for x u
    using entry_store_entry [OF b that, of "copied e"] e(2) by simp
  have u1: "uses ?s1 f = uses s f + of_bool (page_of e = f)" for f
    using uses_entry [of ?s1 s d2 t "Some (copied e)" f] dir1 en1 d none by (simp add: dir_present_def table_def)
  have dp1: "dir_present ?s1 d1" "table ?s1 d1 = table s d1" using same_dirent [OF dir1 [OF d(1)]] dp(1) by auto
  note a = wf_dir_store_entry [OF b] d(1,5) dp1(1)
  let ?s2 = "store ?a (copied e) ?s1" and ?i = "MAP_NR (page_of e)"
  define s3 where "s3 = ?s2\<lparr>mem_map := (mem_map ?s2)(?i := mem_map ?s2 ?i + 1)\<rparr>"
  note same = alloc_same_phys [OF s3_def]
  have dir2: "dirent s3 x = dirent s x" if "x < 1024" for x
    unfolding same using dirent_store_entry [OF a that, unfolded dp1] dir1 [OF that] by simp
  have en2: "entry s3 x u = (if x = d1 \<and> u = t then Some (copied e) else entry ?s1 x u)" if "x < 1024" "u < 1024" for x u
    unfolding same using entry_store_entry [OF a that, of "copied e", unfolded dp1] e(2) by simp
  have "maps_frame (entry s3 x u) f = maps_frame (entry ?s1 x u) f" if "x < 1024" "u < 1024" for x u f
    unfolding en2 [OF that] en1 [OF that] using Some d(4) by auto
  then have u3: "uses s3 = uses ?s1" using dir1 dir2 by (intro uses_cong) (simp_all add: dir_present_def table_def)
  have fr: "?i < 3840" "frame ?i = page_of e" using ok(2) by (simp_all add: managed_eq_frame)
  have cnt: "unat (mem_map s ?i + 1) = refs s (page_of e) + 1" using ok by (simp add: refs_def unat_word_ariths)
  have r3: "refs s3 = (refs s)(page_of e := refs s (page_of e) + 1)"
    using refs_upd [OF fr(1), of ?s2 "mem_map ?s2 ?i + 1"] cnt by (simp add: fr(2) s3_def)
  have "mem_map s ?i + 1 \<noteq> 0" using cnt by (metis unat_0 add_is_0 zero_neq_one)
  then have "alloc_inv s3" using iv(2) by (simp add: alloc_inv_def s3_def)
  moreover have "wf_dir s3" using iv(1) dir2 by (rule wf_dir_cong) (use iv(1) in \<open>auto simp: r3 wf_dirD\<close>)
  ultimately have "vm_inv own s3"
    using iv(3) u3 u1 by (intro vm_invI) (auto simp: r3 pool_def same)
  moreover have "copy_entry ?a ?b s = Inr s3" using e ok by (simp add: copy_entry_eq Let_def s3_def)
  moreover have "HIGH_MEMORY s3 = HIGH_MEMORY s" by (simp add: same)
  ultimately show thesis using dir2 en2 en1 r3 d(4) by (intro that [of s3]) auto
qed

text \<open>The frame below 1 MB is not counted, and its own entry left as it is.\<close>

lemma copy_entry_unmanaged:
  fixes s :: "'a mm_scheme"
  assumes inv: "vm_inv own s" and d: "4 \<le> d2" "d2 < 1024" "t < 1024" and dp: "dir_present s d1" "dir_present s d2"
    and none: "entry s d2 t = None" and Some: "entry s d1 t = Some e" and ok: "page_of e < 0x1000000" "\<not> managed (page_of e)"
  obtains s' where "copy_entry (slot (table s d1) t) (slot (table s d2) t) s = Inr s'"
    "vm_inv own s'" "HIGH_MEMORY s' = HIGH_MEMORY s" "\<forall>d < 1024. dirent s' d = dirent s d"
    "\<forall>d < 1024. \<forall>u < 1024. entry s' d u = (if u = t \<and> d = d2 then Some (copied e) else entry s d u)" "refs s' = refs s"
proof -
  let ?s1 = "store (slot (table s d2) t) (copied e) s"
  note iv = vm_invD [OF inv]
  note b = iv(1) d(2,3) dp(2)
  have e: "phys s (slot (table s d1) t) = e" "e AND 1 \<noteq> 0" using Some by (auto simp: entry_def split: if_splits)
  have dir1: "dirent ?s1 x = dirent s x" if "x < 1024" for x using that by (rule dirent_store_entry [OF b])
  have en1: "entry ?s1 x u = (if x = d2 \<and> u = t then Some (copied e) else entry s x u)" if "x < 1024" "u < 1024" for x u
    using entry_store_entry [OF b that, of "copied e"] e(2) by simp
  have "uses ?s1 f = uses s f + of_bool (page_of e = f)" for f
    using uses_entry [of ?s1 s d2 t "Some (copied e)" f] dir1 en1 d none by (simp add: dir_present_def table_def)
  then have "vm_inv own ?s1"
    using wf_dir_store_entry [OF b] iv(2,3) ok(2) by (intro vm_invI) (auto simp: pool_def)
  moreover have "copy_entry (slot (table s d1) t) (slot (table s d2) t) s = Inr ?s1" using e ok by (simp add: copy_entry_eq)
  ultimately show thesis using dir1 en1 by (intro that [of ?s1]) auto
qed

text \<open>The entries from \<open>t0\<close> to \<open>t0 + n\<close> of table \<open>d1\<close> have been copied to table \<open>d2\<close>.\<close>

definition entries_copied :: "(u32 \<Rightarrow> nat) \<Rightarrow> nat \<Rightarrow> nat \<Rightarrow> nat \<Rightarrow> nat \<Rightarrow> 'a mm_scheme \<Rightarrow> 'a mm_scheme \<Rightarrow> bool" where
  "entries_copied own d1 d2 t0 n s s' \<longleftrightarrow> vm_inv own s' \<and> HIGH_MEMORY s' = HIGH_MEMORY s \<and> (\<forall>d < 1024. dirent s' d = dirent s d) \<and>
    (\<forall>d < 1024. \<forall>u < 1024. entry s' d u =
      (if t0 \<le> u \<and> u < t0 + n \<and> d = d2 then map_option copied (entry s d1 u)
       else if t0 \<le> u \<and> u < t0 + n \<and> d = d1 then map_option shared (entry s d1 u) else entry s d u)) \<and>
    (\<forall>f. refs s' f = refs s f + (if managed f then share s d1 t0 n f else 0))"

lemma entries_copiedD:
  assumes "entries_copied own d1 d2 t0 n s s'"
  shows "vm_inv own s'" "HIGH_MEMORY s' = HIGH_MEMORY s" "\<And>d. d < 1024 \<Longrightarrow> dirent s' d = dirent s d"
    "\<And>d u. d < 1024 \<Longrightarrow> u < 1024 \<Longrightarrow> entry s' d u =
      (if t0 \<le> u \<and> u < t0 + n \<and> d = d2 then map_option copied (entry s d1 u)
       else if t0 \<le> u \<and> u < t0 + n \<and> d = d1 then map_option shared (entry s d1 u) else entry s d u)"
    "\<And>f. refs s' f = refs s f + (if managed f then share s d1 t0 n f else 0)"
  using assms unfolding entries_copied_def by blast+

text \<open>One turn of the inner loop, when the target entry is empty and the count has room.\<close>

lemma copy_entry_step:
  fixes s :: "'a mm_scheme"
  assumes inv: "vm_inv own s" and d: "d1 < 1024" "4 \<le> d2" "d2 < 1024" "d1 \<noteq> d2" "t < 1024"
    and dp: "dir_present s d1" "dir_present s d2" and none: "entry s d2 t = None"
    and ok: "\<And>e. entry s d1 t = Some e \<Longrightarrow> page_of e < 0x1000000 \<and>
      (managed (page_of e) \<longrightarrow> refs s (page_of e) < 255)"
  obtains s' where "copy_entry (slot (table s d1) t) (slot (table s d2) t) s = Inr s'" "entries_copied own d1 d2 t 1 s s'"
proof (cases "entry s d1 t")
  case None
  then have "phys s (slot (table s d1) t) AND 1 = 0" using dp by (auto simp: entry_def split: if_splits)
  then show thesis
    using None none inv by (intro that [of s]) (auto simp: copy_entry_def entries_copied_def Let_def le_less_Suc_eq)
next
  case (Some e)
  note ok = ok [OF Some]
  have one: "t \<le> u \<and> u < t + 1 \<and> x \<longleftrightarrow> u = t \<and> x" "share s d1 t 1 f = of_bool (maps_frame (entry s d1 t) f)" for u x f by auto
  show thesis
  proof (cases "managed (page_of e)")
    case False
    then have "shared e = e" using ok by (auto simp: shared_def managed_def)
    moreover obtain s' where s': "copy_entry (slot (table s d1) t) (slot (table s d2) t) s = Inr s'"
      "vm_inv own s'" "HIGH_MEMORY s' = HIGH_MEMORY s" "\<forall>d < 1024. dirent s' d = dirent s d"
      "\<forall>d < 1024. \<forall>u < 1024. entry s' d u = (if u = t \<and> d = d2 then Some (copied e) else entry s d u)" "refs s' = refs s"
      by (rule copy_entry_unmanaged [OF inv d(2,3,5) dp none Some]) (use ok False in blast)+
    ultimately show thesis
      using Some False by (intro that [OF s'(1)]) (auto simp: entries_copied_def one simp del: One_nat_def)
  next
    case True
    then have "shared e = copied e" by (simp add: shared_def managed_def)
    moreover obtain s' where s': "copy_entry (slot (table s d1) t) (slot (table s d2) t) s = Inr s'"
      "vm_inv own s'" "HIGH_MEMORY s' = HIGH_MEMORY s" "\<forall>d < 1024. dirent s' d = dirent s d"
      "\<forall>d < 1024. \<forall>u < 1024. entry s' d u = (if u = t \<and> (d = d2 \<or> d = d1) then Some (copied e) else entry s d u)"
      "refs s' = (refs s)(page_of e := refs s (page_of e) + 1)"
      by (rule copy_entry_managed [OF inv d dp none Some]) (use ok True in blast)+
    ultimately show thesis
      using Some True d(4) by (intro that [OF s'(1)]) (auto simp: entries_copied_def one simp del: One_nat_def)
  qed
qed

lemma entries_copied_Suc:
  assumes c: "entries_copied own d1 d2 t0 1 s s1" "entries_copied own d1 d2 (Suc t0) n s1 s'"
    and d: "d1 < 1024" "d2 < 1024" "d1 \<noteq> d2" "t0 + Suc n \<le> 1024"
  shows "entries_copied own d1 d2 t0 (Suc n) s s'"
proof -
  note a = entries_copiedD [OF c(1)] and b = entries_copiedD [OF c(2)]
  have later: "entry s1 d1 t = entry s d1 t" if "Suc t0 \<le> t" "t < Suc t0 + n" for t
    using a(4) [of d1 t] that d(1,4) by simp
  then have sh: "share s1 d1 (Suc t0) n f = share s d1 (Suc t0) n f" for f by (intro share_cong) simp
  have "entry s' d u =
      (if t0 \<le> u \<and> u < t0 + Suc n \<and> d = d2 then map_option copied (entry s d1 u)
       else if t0 \<le> u \<and> u < t0 + Suc n \<and> d = d1 then map_option shared (entry s d1 u) else entry s d u)"
    if "d < 1024" "u < 1024" for d u
  proof (cases "u = t0")
    case True
    then show ?thesis using a(4) b(4) that d(3) by simp
  next
    case False
    have "\<not> (t0 \<le> u \<and> u < t0 + 1)" using False by simp
    then have "entry s1 d1 u = entry s d1 u" "entry s1 d u = entry s d u"
      using a(4) [OF d(1) that(2)] a(4) [OF that] by (auto simp del: One_nat_def)
    moreover have "(Suc t0 \<le> u \<and> u < Suc t0 + n) = (t0 \<le> u \<and> u < t0 + Suc n)" using False by auto
    moreover note b(4) [OF that]
    ultimately show ?thesis using False by (simp only:) auto
  qed
  moreover have "refs s' f = refs s f + (if managed f then share s d1 t0 (Suc n) f else 0)" for f
    using a(5) b(5) by (simp add: sh)
  ultimately show ?thesis unfolding entries_copied_def using a(2,3) b(1-3) by simp
qed

lemma copy_entries_spec:
  fixes s :: "'a mm_scheme"
  assumes "vm_inv own s" "d1 < 1024" "4 \<le> d2" "d2 < 1024" "d1 \<noteq> d2" "t0 + n \<le> 1024"
    and "dir_present s d1" "dir_present s d2" "\<And>t. t0 \<le> t \<Longrightarrow> t < t0 + n \<Longrightarrow> entry s d2 t = None"
    and "\<And>t e. t0 \<le> t \<Longrightarrow> t < t0 + n \<Longrightarrow> entry s d1 t = Some e \<Longrightarrow> page_of e < 0x1000000 \<and>
      (managed (page_of e) \<longrightarrow> refs s (page_of e) + share s d1 t0 n (page_of e) < 256)"
  shows "\<exists>s'. copy_entries n (slot (table s d1) t0) (slot (table s d2) t0) s = Inr s' \<and> entries_copied own d1 d2 t0 n s s'"
  using assms
proof (induction n arbitrary: t0 s)
  case 0
  then show ?case by (auto simp: entries_copied_def)
next
  case (Suc n)
  note prems = Suc.prems
  have ok: "page_of e < 0x1000000 \<and> (managed (page_of e) \<longrightarrow> refs s (page_of e) < 255)" if "entry s d1 t0 = Some e" for e
    using prems(10) [OF _ _ that] that by auto
  obtain s1 where s1: "copy_entry (slot (table s d1) t0) (slot (table s d2) t0) s = Inr s1" "entries_copied own d1 d2 t0 1 s s1"
    using copy_entry_step [OF prems(1-5) _ prems(7,8) _ ok, of t0] prems(6,9) by auto
  note c = entries_copiedD [OF s1(2)]
  have dirs: "dir_present s1 d1" "dir_present s1 d2" "table s1 d1 = table s d1" "table s1 d2 = table s d2"
    using c(3) prems(2,4,7,8) same_dirent [of s1 d1 s] same_dirent [of s1 d2 s] by simp_all
  have later: "entry s1 d1 t = entry s d1 t" "entry s1 d2 t = entry s d2 t" if "Suc t0 \<le> t" "t < Suc t0 + n" for t
    using c(4) [of _ t] that prems(2,4,6) by auto
  have sh: "share s1 d1 (Suc t0) n f = share s d1 (Suc t0) n f" for f using later by (intro share_cong) simp
  have "\<exists>s'. copy_entries n (slot (table s1 d1) (Suc t0)) (slot (table s1 d2) (Suc t0)) s1 = Inr s' \<and>
    entries_copied own d1 d2 (Suc t0) n s1 s'"
  proof (rule Suc.IH [OF c(1) prems(2-5) _ dirs(1,2)])
    show "Suc t0 + n \<le> 1024" using prems(6) by simp
    fix t assume t: "Suc t0 \<le> t" "t < Suc t0 + n"
    then have t': "t0 \<le> t" "t < t0 + Suc n" by simp_all
    show "entry s1 d2 t = None" using prems(9) [OF t'] later(2) [OF t] by simp
    fix e assume e: "entry s1 d1 t = Some e"
    then have "entry s d1 t = Some e" using later(1) [OF t] by simp
    from prems(10) [OF t' this]
    show "page_of e < 0x1000000 \<and> (managed (page_of e) \<longrightarrow> refs s1 (page_of e) + share s1 d1 (Suc t0) n (page_of e) < 256)"
      by (auto simp: c(5) sh)
  qed
  then obtain s' where s': "copy_entries n (slot (table s1 d1) (Suc t0)) (slot (table s1 d2) (Suc t0)) s1 = Inr s'"
    "entries_copied own d1 d2 (Suc t0) n s1 s'" by blast
  have "copy_entries (Suc n) (slot (table s d1) t0) (slot (table s d2) t0) s = Inr s'"
    using s1(1) s'(1) by (simp add: slot_Suc dirs)
  with entries_copied_Suc [OF s1(2) s'(2) prems(2,4,5,6)] show ?case by blast
qed

text \<open>A new, empty table that takes over the reference of its frame's allocation.\<close>

lemma vm_inv_new_table:
  fixes s :: "'a mm_scheme"
  assumes inv: "vm_inv own s" and g: "get_free_page s = (p, s1)" "p \<noteq> 0"
    and d0: "d0 < 1024" "\<not> dir_present s d0"
  defines "s2 \<equiv> store (slot 0 d0) (p OR 7) s1"
  shows "vm_inv own s2" and "managed p" and "refs s p = 0" and "refs s2 = (refs s)(p := 1)"
    and "HIGH_MEMORY s2 = HIGH_MEMORY s" and "table s2 d0 = p"
    and "\<And>d. d < 1024 \<Longrightarrow> dir_present s2 d = (d = d0 \<or> dir_present s d)"
    and "\<And>d. d < 1024 \<Longrightarrow> d \<noteq> d0 \<Longrightarrow> dirent s2 d = dirent s d"
    and "\<And>d t. d < 1024 \<Longrightarrow> t < 1024 \<Longrightarrow> entry s2 d t = entry s d t"
proof -
  note iv = vm_invD [OF inv]
  note gn = get_free_page_nonzero [OF g] and al = iv(1) g and tk = vm_inv_take [OF inv g]
  have n: "\<not> dir_present s1 d0" "refs s1 p \<noteq> 0" "\<And>d. d < 1024 \<Longrightarrow> dir_present s1 d \<Longrightarrow> table s1 d \<noteq> p"
    using d0 gn(3) table_not_alloc [OF al] by (simp_all add: dir_present_alloc [OF al] table_alloc [OF al])
  note nt = wf_dir_alloc [OF al] d0(1) n(1) gn(1) n(2,3) alloc_clear [OF al]
  show 1: "\<And>d. d < 1024 \<Longrightarrow> dir_present s2 d = (d = d0 \<or> dir_present s d)"
    by (simp add: s2_def dir_present_new_table [OF nt] dir_present_alloc [OF al])
  show 2: "\<And>d. d < 1024 \<Longrightarrow> d \<noteq> d0 \<Longrightarrow> dirent s2 d = dirent s d"
    by (simp add: s2_def dirent_new_table [OF nt] dirent_alloc [OF al])
  show 3: "\<And>d t. d < 1024 \<Longrightarrow> t < 1024 \<Longrightarrow> entry s2 d t = entry s d t"
    by (simp add: s2_def entry_new_table [OF nt] entry_alloc [OF al])
  show 4: "table s2 d0 = p" by (simp add: s2_def table_new_table [OF nt])
  show "managed p" "refs s p = 0" by (simp_all add: gn(1,2))
  show r: "refs s2 = (refs s)(p := 1)" "HIGH_MEMORY s2 = HIGH_MEMORY s" by (simp_all add: s2_def gn(3,5))
  have t2: "table s2 d = (if d = d0 then p else table s d)" if "d < 1024" for d
    using that 2 4 by (simp add: table_def)
  have "uses s2 f = uses s f + of_bool (f = p)" for f
    using 1 t2 3 d0 by (rule uses_new_table)
  moreover have "wf_dir s2" "alloc_inv s2" "pool s2 = pool s"
    using wf_dir_new_table [OF nt] get_free_page_pool(2,3) [OF iv(2) g] by (simp_all add: s2_def)
  ultimately show "vm_inv own s2"
    using iv(3) tk(2,3) r by (intro vm_invI) auto
qed

text \<open>What a copy of the first \<open>nr\<close> entries of the \<open>n\<close> tables from \<open>d\<close> on needs.\<close>

definition copyable :: "nat \<Rightarrow> nat \<Rightarrow> nat \<Rightarrow> 'a mm_scheme \<Rightarrow> bool" where
  "copyable nr d n s \<longleftrightarrow> (\<forall>d' t e. d \<le> d' \<and> d' < d + n \<and> t < nr \<and> entry s d' t = Some e \<longrightarrow>
     page_of e < 0x1000000 \<and> (managed (page_of e) \<longrightarrow>
       0 < refs s (page_of e) \<and> refs s (page_of e) + shares s nr d n (page_of e) < 256))"

lemma copyableD:
  assumes "copyable nr d n s" "d \<le> d'" "d' < d + n" "t < nr" "entry s d' t = Some e"
  shows "page_of e < 0x1000000" "managed (page_of e) \<Longrightarrow> 0 < refs s (page_of e)"
    "managed (page_of e) \<Longrightarrow> refs s (page_of e) + shares s nr d n (page_of e) < 256"
  using assms unfolding copyable_def by blast+

text \<open>
  The state after \<open>m\<close> tables have been copied from \<open>d1\<close> on to \<open>d2\<close> on.
\<close>

definition tables_copied :: "nat \<Rightarrow> nat \<Rightarrow> nat \<Rightarrow> nat \<Rightarrow> 'a mm_scheme \<Rightarrow> 'a mm_scheme \<Rightarrow> bool" where
  "tables_copied nr m d1 d2 s s' \<longleftrightarrow> HIGH_MEMORY s' = HIGH_MEMORY s \<and>
     (\<forall>d < 1024. dir_present s' d = (dir_present s d \<or> d2 \<le> d \<and> d < d2 + m \<and> dir_present s (d - d2 + d1))) \<and>
     (\<forall>d < 1024. \<not> (d2 \<le> d \<and> d < d2 + m) \<longrightarrow> dirent s' d = dirent s d) \<and>
     (\<forall>d < 1024. \<forall>t < 1024. entry s' d t =
       (if d2 \<le> d \<and> d < d2 + m then (if t < nr then map_option copied (entry s (d - d2 + d1) t) else None)
        else if d1 \<le> d \<and> d < d1 + m \<and> t < nr then map_option shared (entry s d t) else entry s d t))"

lemma tables_copied_0 [simp]: "tables_copied nr 0 d1 d2 s s"
  by (auto simp: tables_copied_def)

lemma tables_copied_Suc:
  assumes "tables_copied nr 1 d1 d2 s s1" "tables_copied nr m (Suc d1) (Suc d2) s1 s'"
    and "d1 + Suc m \<le> d2 \<or> d2 + Suc m \<le> d1" "d1 + Suc m \<le> 1024" "d2 + Suc m \<le> 1024"
  shows "tables_copied nr (Suc m) d1 d2 s s'"
  unfolding tables_copied_def
proof (intro conjI allI impI)
  note a = assms(1,2) [unfolded tables_copied_def]
  show "HIGH_MEMORY s' = HIGH_MEMORY s" using a by simp
  fix d :: nat assume d: "d < 1024"
  have one: "(d2 \<le> x \<and> x < d2 + 1) = (x = d2)" "(d1 \<le> x \<and> x < d1 + 1) = (x = d1)" for x by auto
  have p1: "dir_present s1 x = (dir_present s x \<or> x = d2 \<and> dir_present s d1)" if "x < 1024" for x
    using assms(1) that by (auto simp: tables_copied_def)
  have e1: "entry s1 x t = (if x = d2 then (if t < nr then map_option copied (entry s d1 t) else None)
        else if x = d1 \<and> t < nr then map_option shared (entry s d1 t) else entry s x t)"
    if "x < 1024" "t < 1024" for x t
    using assms(1) that unfolding tables_copied_def one by auto
  have in_r: "(Suc d2 \<le> d \<and> d < Suc d2 + m) = (d \<noteq> d2 \<and> d2 \<le> d \<and> d < d2 + Suc m)"
    "(Suc d1 \<le> d \<and> d < Suc d1 + m) = (d \<noteq> d1 \<and> d1 \<le> d \<and> d < d1 + Suc m)" by auto
  have sh: "d - Suc d2 + Suc d1 = d - d2 + d1" "d - d2 + d1 \<noteq> d2" "d - d2 + d1 \<noteq> d1" "d - d2 + d1 < 1024"
    if "d \<noteq> d2" "d2 \<le> d" "d < d2 + Suc m"
    using that assms(3,4) by linarith+
  show "dir_present s' d = (dir_present s d \<or> d2 \<le> d \<and> d < d2 + Suc m \<and> dir_present s (d - d2 + d1))"
  proof (cases "d \<noteq> d2 \<and> d2 \<le> d \<and> d < d2 + Suc m")
    case True
    then show ?thesis
      using assms(2) d sh p1 unfolding tables_copied_def by (auto simp: in_r)
  next
    case False
    then have "dir_present s' d = dir_present s1 d"
      using assms(2) d unfolding tables_copied_def by (auto simp: in_r)
    with False d p1 show ?thesis by auto
  qed
  show "dirent s' d = dirent s d" if "\<not> (d2 \<le> d \<and> d < d2 + Suc m)"
  proof -
    have "dirent s' d = dirent s1 d" using assms(2) d that unfolding tables_copied_def by auto
    also have "\<dots> = dirent s d" using assms(1) d that unfolding tables_copied_def by auto
    finally show ?thesis .
  qed
  fix t :: nat assume t: "t < 1024"
  note e2 = assms(2) [unfolded tables_copied_def in_r, THEN conjunct2, THEN conjunct2, THEN conjunct2,
      rule_format, OF d t, unfolded in_r]
  show "entry s' d t = (if d2 \<le> d \<and> d < d2 + Suc m
      then (if t < nr then map_option copied (entry s (d - d2 + d1) t) else None)
      else if d1 \<le> d \<and> d < d1 + Suc m \<and> t < nr then map_option shared (entry s d t) else entry s d t)"
  proof (cases "d2 \<le> d \<and> d < d2 + Suc m")
    case True
    show ?thesis
    proof (cases "d = d2")
      case True
      then show ?thesis using e2 e1 [OF d t] assms(3) by auto
    next
      case False
      with True sh e1 [of "d - d2 + d1" t] t e2 show ?thesis by auto
    qed
  next
    case False
    then show ?thesis using e2 e1 [OF d t] by (auto simp: in_r)
  qed
qed

text \<open>One turn of the outer loop, when the source table exists.\<close>

lemma copy_table_step:
  fixes s :: "'a mm_scheme"
  assumes inv: "vm_inv own s" and d: "d1 < 1024" "4 \<le> d2" "d2 < 1024" "d1 \<noteq> d2" "nr \<le> 1024"
    and dp: "dir_present s d1" "\<not> dir_present s d2" and ok: "copyable nr d1 (Suc n) s"
    and g: "get_free_page s = (p, s1)" "p \<noteq> 0"
  obtains s' where "copy_entries nr (table s d1) p (store (slot 0 d2) (p OR 7) s1) = Inr s'"
    "vm_inv own s'" "tables_copied nr 1 d1 d2 s s'" "refs s p = 0"
    "\<forall>f. refs s' f = (if f = p then 1 else refs s f) + (if managed f then share s d1 0 nr f else 0)"
proof -
  define s2 where "s2 = store (slot 0 d2) (p OR 7) s1"
  note nt = vm_inv_new_table [OF inv g d(3) dp(2), folded s2_def]
  have t1: "table s2 d1 = table s d1" "dir_present s2 d1" "dir_present s2 d2"
    using nt(7,8) d(1,3,4) dp by (simp_all add: table_def)
  have sh: "share s2 d1 0 nr f = share s d1 0 nr f" for f
    using nt(9) d(1,5) by (intro share_cong) simp
  have src: "page_of e < 0x1000000 \<and>
      (managed (page_of e) \<longrightarrow> refs s2 (page_of e) + share s2 d1 0 nr (page_of e) < 256)"
    if "t < nr" "entry s2 d1 t = Some e" for t e
  proof -
    have "entry s d1 t = Some e" using that nt(9) d(1,5) by simp
    from copyableD [OF ok _ _ that(1) this] nt(3) show ?thesis by (auto simp: nt(4) sh)
  qed
  have none: "entry s2 d2 t = None" if "t < 1024" for t
    using nt(9) d(3) that dp(2) by (simp add: entry_def)
  have "\<exists>s'. copy_entries nr (slot (table s2 d1) 0) (slot (table s2 d2) 0) s2 = Inr s' \<and> entries_copied own d1 d2 0 nr s2 s'"
    by (rule copy_entries_spec [OF nt(1) d(1-4) _ t1(2,3)]) (use d(5) none src in auto)
  then obtain s' where c: "copy_entries nr (table s d1) p s2 = Inr s'" "entries_copied own d1 d2 0 nr s2 s'"
    using nt(5,6) t1(1) by auto
  have s': "vm_inv own s'" "HIGH_MEMORY s' = HIGH_MEMORY s" "\<forall>d < 1024. dirent s' d = dirent s2 d"
    and en: "\<forall>d < 1024. \<forall>u < 1024. entry s' d u =
      (if u < nr \<and> d = d2 then map_option copied (entry s d1 u)
       else if u < nr \<and> d = d1 then map_option shared (entry s d1 u) else entry s2 d u)"
    and r: "\<forall>f. refs s' f = refs s2 f + (if managed f then share s d1 0 nr f else 0)"
    using entries_copiedD [OF c(2)] nt(5,6,9) d(1) by (auto simp: sh)
  have "entry s' x t = (if d2 \<le> x \<and> x < d2 + 1 then (if t < nr then map_option copied (entry s (x - d2 + d1) t) else None)
        else if d1 \<le> x \<and> x < d1 + 1 \<and> t < nr then map_option shared (entry s x t) else entry s x t)"
    if "x < 1024" "t < 1024" for x t
    using en [rule_format, OF that] nt(9) [OF that] none [OF that(2)] d(4)
    by (cases "x = d2"; cases "x = d1") auto
  moreover have "dir_present s' x = (dir_present s x \<or> d2 \<le> x \<and> x < d2 + 1 \<and> dir_present s (x - d2 + d1))"
    if "x < 1024" for x
    using nt(7) [OF that] s'(3) that dp by (cases "x = d2") (auto simp: dir_present_def)
  moreover have "dirent s' x = dirent s x" if "x < 1024" "\<not> (d2 \<le> x \<and> x < d2 + 1)" for x
    using nt(8) [of x] s'(3) that by auto
  ultimately have "tables_copied nr 1 d1 d2 s s'"
    using s'(2) unfolding tables_copied_def by blast
  moreover have "refs s' f = (if f = p then 1 else refs s f) + (if managed f then share s d1 0 nr f else 0)" for f
    using r by (simp add: nt(4))
  ultimately show thesis using that c(1) s'(1) nt(3) unfolding s2_def by blast
qed

lemma copyable_next:
  assumes ok: "copyable nr d1 (Suc n) s" and "tables_copied nr 1 d1 d2 s s'" "refs s p = 0"
    and r: "\<forall>f. refs s' f = (if f = p then 1 else refs s f) + (if managed f then share s d1 0 nr f else 0)"
    and "d1 + Suc n \<le> d2 \<or> d2 + Suc n \<le> d1" "d1 + Suc n \<le> 1024" "nr \<le> 1024"
  shows "copyable nr (Suc d1) n s'"
proof -
  have en: "entry s' d t = entry s d t" if "Suc d1 \<le> d" "d < Suc d1 + n" "t < nr" for d t
    using assms(2,5-7) that unfolding tables_copied_def by auto
  have sh: "shares s' nr (Suc d1) n f = shares s nr (Suc d1) n f" for f
    using en by (intro shares_cong) simp
  show ?thesis
    unfolding copyable_def
  proof (intro allI impI)
    fix d t e
    assume a: "Suc d1 \<le> d \<and> d < Suc d1 + n \<and> t < nr \<and> entry s' d t = Some e"
    then have e: "entry s d t = Some e" using en by auto
    have "d1 \<le> d" "d < d1 + Suc n" "t < nr" using a by auto
    note c = copyableD [OF ok this e]
    then show "page_of e < 0x1000000 \<and> (managed (page_of e) \<longrightarrow> 0 < refs s' (page_of e) \<and>
        refs s' (page_of e) + shares s' nr (Suc d1) n (page_of e) < 256)"
      using assms(3) by (auto simp: r sh)
  qed
qed

lemma copyable_tail:
  assumes ok: "copyable nr d1 (Suc n) s" shows "copyable nr (Suc d1) n s"
  unfolding copyable_def
proof (intro allI impI)
  fix d t e
  assume "Suc d1 \<le> d \<and> d < Suc d1 + n \<and> t < nr \<and> entry s d t = Some e"
  then have "d1 \<le> d" "d < d1 + Suc n" "t < nr" "entry s d t = Some e" by auto
  from copyableD [OF ok this]
  show "page_of e < 0x1000000 \<and> (managed (page_of e) \<longrightarrow> 0 < refs s (page_of e) \<and>
      refs s (page_of e) + shares s nr (Suc d1) n (page_of e) < 256)" by auto
qed

lemma copy_dirs_spec:
  fixes s :: "'a mm_scheme"
  assumes "vm_inv own s" "4 \<le> d2" "d1 + n \<le> 1024" "d2 + n \<le> 1024" "d1 + n \<le> d2 \<or> d2 + n \<le> d1" "nr \<le> 1024"
    and "\<And>d. d2 \<le> d \<Longrightarrow> d < d2 + n \<Longrightarrow> \<not> dir_present s d" and "copyable nr d1 n s"
  shows "\<exists>s' m r. copy_dirs nr n (slot 0 d1) (slot 0 d2) s = Inr (r, s') \<and> vm_inv own s' \<and>
    tables_copied nr m d1 d2 s s' \<and>
    (m = n \<and> r = 0 \<or> m < n \<and> r = -1 \<and> (\<forall>f. managed f \<longrightarrow> refs s' f \<noteq> 0))"
  using assms
proof (induction n arbitrary: d1 d2 s)
  case 0
  then show ?case by (intro exI [of _ s] exI [of _ 0]) simp
next
  case (Suc n)
  note prems = Suc.prems
  have d: "d1 < 1024" "d2 < 1024" "d1 \<noteq> d2" using prems(3-5) by auto
  have ndp: "\<not> dir_present s d2" using prems(7) by simp
  then have nd2: "\<not> 1 AND phys s (slot 0 d2) \<noteq> 0" by (simp add: dir_present_def dirent_def and.commute)
  have dp1: "1 AND phys s (slot 0 d1) = 0 \<longleftrightarrow> \<not> dir_present s d1"
    by (simp add: dir_present_def dirent_def and.commute)
  have step: "\<exists>s' m r. copy_dirs nr (Suc n) (slot 0 d1) (slot 0 d2) s = Inr (r, s') \<and> vm_inv own s' \<and>
    tables_copied nr m d1 d2 s s' \<and>
    (m = Suc n \<and> r = 0 \<or> m < Suc n \<and> r = -1 \<and> (\<forall>f. managed f \<longrightarrow> refs s' f \<noteq> 0))"
    if "copy_dirs nr (Suc n) (slot 0 d1) (slot 0 d2) s = copy_dirs nr n (slot 0 (Suc d1)) (slot 0 (Suc d2)) s1"
      "vm_inv own s1" and tc: "tables_copied nr 1 d1 d2 s s1" and "copyable nr (Suc d1) n s1" for s1
  proof -
    have "\<not> dir_present s1 x" if "Suc d2 \<le> x" "x < Suc d2 + n" for x
      using tc prems(4) prems(7) [of x] that unfolding tables_copied_def by auto
    then have "\<exists>s' m r. copy_dirs nr n (slot 0 (Suc d1)) (slot 0 (Suc d2)) s1 = Inr (r, s') \<and> vm_inv own s' \<and>
      tables_copied nr m (Suc d1) (Suc d2) s1 s' \<and>
      (m = n \<and> r = 0 \<or> m < n \<and> r = -1 \<and> (\<forall>f. managed f \<longrightarrow> refs s' f \<noteq> 0))"
      using prems(2-6) that by (intro Suc.IH) auto
    then obtain s' m r where s': "copy_dirs nr n (slot 0 (Suc d1)) (slot 0 (Suc d2)) s1 = Inr (r, s')" "vm_inv own s'"
      and tc': "tables_copied nr m (Suc d1) (Suc d2) s1 s'"
      and o: "m = n \<and> r = 0 \<or> m < n \<and> r = -1 \<and> (\<forall>f. managed f \<longrightarrow> refs s' f \<noteq> 0)"
      by blast
    have "tables_copied nr (Suc m) d1 d2 s s'"
      using prems(3-5) o by (intro tables_copied_Suc [OF tc tc']) auto
    with s' o that(1) show ?thesis
      by (intro exI [of _ s'] exI [of _ "Suc m"] exI [of _ r]) auto
  qed
  show ?case
  proof (cases "dir_present s d1")
    case False
    have "entry s d1 t = None" "entry s d2 t = None" for t using False ndp by (simp_all add: entry_def)
    then have "tables_copied nr 1 d1 d2 s s"
      using False d(3) unfolding tables_copied_def by (auto simp: less_Suc_eq_le)
    moreover have "copyable nr (Suc d1) n s" by (rule copyable_tail [OF prems(8)])
    moreover have "copy_dirs nr (Suc n) (slot 0 d1) (slot 0 d2) s = copy_dirs nr n (slot 0 (Suc d1)) (slot 0 (Suc d2)) s"
      using nd2 dp1 False by (simp only: copy_dirs.simps if_False slot_Suc) simp
    ultimately show ?thesis using prems(1) by (intro step)
  next
    case True
    obtain p s1 where g: "get_free_page s = (p, s1)" by fastforce
    have tab: "0xfffff000 AND phys s (slot 0 d1) = table s d1"
      by (simp add: table_def dirent_def and.commute)
    show ?thesis
    proof (cases "p = 0")
      case p0: True
      then have "s1 = s \<and> (\<forall>f. managed f \<longrightarrow> refs s f \<noteq> 0)" using get_free_page_0 g by blast
      moreover have "copy_dirs nr (Suc n) (slot 0 d1) (slot 0 d2) s = Inr (-1, s1)"
        using nd2 dp1 True g p0 by simp
      ultimately show ?thesis using prems(1) by (intro exI [of _ s] exI [of _ 0] exI [of _ "-1"]) simp
    next
      case False
      obtain s' where s': "copy_entries nr (table s d1) p (store (slot 0 d2) (p OR 7) s1) = Inr s'"
        "vm_inv own s'" "tables_copied nr 1 d1 d2 s s'" "refs s p = 0"
        "\<forall>f. refs s' f = (if f = p then 1 else refs s f) + (if managed f then share s d1 0 nr f else 0)"
        by (rule copy_table_step [OF prems(1) d(1) prems(2) d(2,3) prems(6) True ndp prems(8) g False])
      have "copy_dirs nr (Suc n) (slot 0 d1) (slot 0 d2) s = copy_dirs nr n (slot 0 (Suc d1)) (slot 0 (Suc d2)) s'"
        using nd2 dp1 True g False s'(1) by (simp add: tab slot_Suc)
      then show ?thesis using s'(2,3) copyable_next [OF prems(8) s'(3,4,5) prems(5,3,6)] by (rule step)
    qed
  qed
qed

definition dir_count :: "u32 \<Rightarrow> nat" where
  "dir_count sz = unat (drop_bit 22 (sz + 0x3fffff))"

lemma dir_count_eq:
  assumes "unat sz \<le> 4290772992" shows "dir_count sz = (unat sz + 4194303) div 4194304"
proof -
  have "unat (sz + 0x3fffff) = unat sz + 4194303"
    using assms by (simp add: unat_word_ariths)
  then show ?thesis by (simp add: dir_count_def unat_drop_bit_eq drop_bit_eq_div [where 'a = nat])
qed

text \<open>A 4 MB aligned base and an offset.\<close>

lemma dir_aligned:
  assumes "base AND 0x3fffff = (0 :: u32)" shows "unat base = 4194304 * dir_index base"
proof -
  have e: "(0x3fffff :: u32) = mask 22" by (simp add: mask_eq_exp_minus_1)
  have "unat (base AND 0x3fffff) = unat base mod 4194304"
    unfolding e by (simp add: take_bit_eq_mask [symmetric] unsigned_take_bit_eq take_bit_eq_mod [where 'a = nat])
  with assms have "unat base mod 4194304 = 0" by simp
  then show ?thesis using div_mult_mod_eq [of "unat base" 4194304] by (simp add: dir_index_def)
qed

lemma index_add:
  assumes "base AND 0x3fffff = (0 :: u32)" "dir_index base + dir_index y < 1024"
  shows "dir_index (base + y) = dir_index base + dir_index y" and "tbl_index (base + y) = tbl_index y"
proof -
  note b = dir_aligned [OF assms(1)]
  have y: "unat y < 4194304 * (dir_index y + 1)"
    using div_less_iff_less_mult [of 4194304 "unat y" "dir_index y + 1"] by (simp add: dir_index_def)
  with b assms(2) have "unat base + unat y < 4294967296" by simp
  then have "unat (base + y) = 4194304 * dir_index base + unat y"
    using b by (simp add: unat_word_ariths)
  moreover have "(4194304 * a + u) div 4194304 = a + u div 4194304"
    "(4194304 * a + u) div 4096 = 1024 * a + u div 4096" for a u :: nat
    using div_mult_self3 [of 4194304 a u] div_mult_self3 [of 4096 "1024 * a" u] by simp_all
  ultimately show "dir_index (base + y) = dir_index base + dir_index y" "tbl_index (base + y) = tbl_index y"
    by (simp_all add: dir_index_def tbl_index_def)
qed

section \<open>Closed examples\<close>

lemma share_card: "share s d t n f = card {u. t \<le> u \<and> u < t + n \<and> maps_frame (entry s d u) f}"
proof (induction n arbitrary: t)
  case (Suc n)
  let ?A = "{u. Suc t \<le> u \<and> u < Suc t + n \<and> maps_frame (entry s d u) f}"
  have "{u. t \<le> u \<and> u < t + Suc n \<and> maps_frame (entry s d u) f} =
      (if maps_frame (entry s d t) f then insert t ?A else ?A)"
    by (auto simp: Suc_le_eq dest: le_neq_implies_less)
  moreover have "finite ?A" by (rule finite_subset [of _ "{..<Suc t + n}"]) auto
  moreover have "t \<notin> ?A" by simp
  ultimately show ?case by (simp add: Suc.IH)
qed simp

lemma entry_two_sharers:
  assumes "d < 1024" "t < 1024"
  shows "entry two_sharers d t = (if d = 16 then if t = 0 \<or> t = 1 then Some 0xf00005
    else if t = 2 then Some 0xf01007 else None else None)"
proof (cases "d = 16")
  case True
  have "unat (slot 0x5000 t) = 20480 + 4 * t" using assms(2) by (simp add: unat_slot)
  then have "slot 0x5000 t = 0x5000 \<longleftrightarrow> t = 0" "slot 0x5000 t = 0x5004 \<longleftrightarrow> t = 1" "slot 0x5000 t = 0x5008 \<longleftrightarrow> t = 2"
    "slot 0x5000 t \<noteq> 0x40" "slot 0x5000 t \<noteq> 0xf00000"
    using assms(2) by (auto simp: word_unat_eq_iff)
  then have "phys two_sharers (slot 0x5000 t) = (if t = 0 \<or> t = 1 then 0xf00005 else if t = 2 then 0xf01007 else 0)"
    by (cases "t = 0"; cases "t = 1"; cases "t = 2") (auto simp: two_sharers_def)
  with True show ?thesis by (cases "t = 0"; cases "t = 1"; cases "t = 2") (simp_all add: entry_def dir_present_def table_def two_sharers_dirent)
next
  case False
  with assms show ?thesis by (simp add: entry_def dir_present_def two_sharers_dirent)
qed

lemma mappers_two_sharers:
  "mappers two_sharers f = (if f = 0xf00000 then {(16, 0), (16, 1)} else if f = 0xf01000 then {(16, 2)} else {})"
  by (auto simp: mappers_def entry_two_sharers split: if_splits)

lemma tables_two_sharers: "managed f \<Longrightarrow> tables two_sharers f = {}"
proof -
  assume "managed f"
  moreover have "\<not> managed 0x5000" by (simp add: managed_def LOW_MEM_def)
  ultimately show ?thesis
    by (auto simp: tables_def dir_present_def table_def two_sharers_dirent split: if_splits)
qed

lemma refs_two_sharers:
  assumes "managed f" shows "refs two_sharers f = (if f = 0xf00000 then 2 else if f = 0xf01000 then 1 else 0)"
proof -
  have m: "managed 0xf00000" "managed 0xf01000" "MAP_NR 0xf00000 = 3584" "MAP_NR 0xf01000 = 3585"
    by (simp_all add: managed_def MAP_NR_def LOW_MEM_def)
  have "MAP_NR f = 3584 \<longleftrightarrow> f = 0xf00000" "MAP_NR f = 3585 \<longleftrightarrow> f = 0xf01000"
    using managed_inject [OF assms m(1)] managed_inject [OF assms m(2)] m(3,4) by simp_all
  then show ?thesis using assms by (auto simp: refs_def two_sharers_def)
qed

lemma two_sharers_vm: "vm_inv (\<lambda>_. 0) two_sharers"
proof (rule vm_invI [OF wf_two_sharers])
  have "HIGH_MEMORY two_sharers = 0x1000000" by (simp add: two_sharers_def)
  moreover have "\<not> (0x1000000 :: u32) \<le> frame i" if "i < 3840" for i
    using managed_frame [OF that] by (simp add: managed_def not_le)
  ultimately show "alloc_inv two_sharers" by (simp add: alloc_inv_def)
  show "refs two_sharers f = uses two_sharers f + 0" if "pool two_sharers f" for f
    using that by (simp add: pool_def refs_two_sharers uses_def mappers_two_sharers tables_two_sharers)
qed

lemma two_sharers_copyable: "copyable 1024 16 1 two_sharers"
  unfolding copyable_def
proof (intro allI impI)
  fix d t e
  assume "16 \<le> d \<and> d < 16 + 1 \<and> t < 1024 \<and> entry two_sharers d t = Some e"
  then have e: "page_of e = 0xf00000 \<or> page_of e = 0xf01000"
    by (auto simp: entry_two_sharers split: if_splits)
  have three: "shares two_sharers 1024 16 1 f \<le> 3" for f
  proof -
    have "{u. u < 1024 \<and> maps_frame (entry two_sharers 16 u) f} \<subseteq> {0, 1, 2}"
      by (auto simp: entry_two_sharers split: if_splits)
    then have "card {u. u < 1024 \<and> maps_frame (entry two_sharers 16 u) f} \<le> card {0 :: nat, 1, 2}"
      by (rule card_mono [rotated]) simp
    then show ?thesis by (simp add: share_card)
  qed
  have "refs two_sharers f + shares two_sharers 1024 16 1 f < 256" if "managed f" for f
  proof -
    have "refs two_sharers f \<le> 2" using that by (simp add: refs_two_sharers)
    with three [of f] show ?thesis by linarith
  qed
  with e show "page_of e < 0x1000000 \<and> (managed (page_of e) \<longrightarrow> 0 < refs two_sharers (page_of e) \<and>
      refs two_sharers (page_of e) + shares two_sharers 1024 16 1 (page_of e) < 256)"
    by (auto simp: refs_two_sharers)
qed

section \<open>Properties\<close>

lemma free_page_tables_spec:
  fixes s :: "'a mm_scheme"
  assumes "vm_inv own s" and "from_addr AND 0x3fffff = 0" and "4 \<le> dir_index from_addr"
    and "dir_index from_addr + dir_count sz \<le> 1024"
  defines "freed \<equiv> \<lambda>d. dir_index from_addr \<le> d \<and> d < dir_index from_addr + dir_count sz"
  shows "\<exists>s'. free_page_tables from_addr sz s = Inr (0, s') \<and> vm_inv own s' \<and>
    (\<forall>x. walk s' x = (if freed (dir_index x) then None else walk s x)) \<and>
    (\<forall>d < 1024. freed d \<longrightarrow> \<not> dir_present s' d) \<and>
    (\<forall>f. pool s f \<and> own f = 0 \<and> (\<forall>d t. (d, t) \<in> mappers s f \<longrightarrow> freed d) \<and> (\<forall>d \<in> tables s f. freed d)
      \<longrightarrow> refs s' f = 0)"
proof -
  let ?d = "dir_index from_addr" and ?n = "dir_count sz"
  obtain s' where s': "free_dirs ?n (slot 0 ?d) s = Inr s'" "vm_inv own s'" "HIGH_MEMORY s' = HIGH_MEMORY s"
    and dp: "\<forall>d < 1024. dir_present s' d = (dir_present s d \<and> \<not> freed d)"
    and di: "\<forall>d < 1024. \<not> freed d \<longrightarrow> dirent s' d = dirent s d"
    and en: "\<forall>d < 1024. \<forall>t < 1024. entry s' d t = (if freed d then None else entry s d t)"
    using free_dirs_spec [OF assms(1,3,4)] unfolding freed_def by blast
  have "from_addr \<noteq> 0" using assms(3) by (auto simp: dir_index_def)
  then have "free_page_tables from_addr sz s = Inr (0, s')"
    using assms(2) s'(1) by (simp add: free_page_tables_def dir_offset_eq_slot dir_count_def)
  moreover have "refs s' f = 0"
    if f: "pool s f" "own f = 0" "\<forall>d t. (d, t) \<in> mappers s f \<longrightarrow> freed d" "\<forall>d \<in> tables s f. freed d" for f
  proof -
    have "mappers s' f = {}" using f(3) en by (auto simp: mappers_def)
    moreover have "tables s' f = {}"
    proof (rule equals0I)
      fix d
      assume "d \<in> tables s' f"
      then have d: "d < 1024" "dir_present s' d" "table s' d = f" by (simp_all add: tables_def)
      then have "dir_present s d" "\<not> freed d" "table s d = f" using dp di by (simp_all add: table_def)
      with d f(4) show False by (simp add: tables_def)
    qed
    moreover have "pool s' f" using f(1) s'(3) by (simp add: pool_def)
    ultimately show ?thesis using vm_invD(3) [OF s'(2)] f(2) by (simp add: uses_def)
  qed
  moreover have "\<forall>x. walk s' x = (if freed (dir_index x) then None else walk s x)"
    using en by (simp add: walk_def)
  moreover have "\<forall>d < 1024. freed d \<longrightarrow> \<not> dir_present s' d" using dp by simp
  ultimately show ?thesis using s'(2) by blast
qed

text \<open>C10: freeing page tables. Under the reference-count invariant \<open>free_page_tables\<close> on a
  4 MB aligned user range never panics and returns 0; every page of the range is unmapped and
  every table released, no other translation changes, the invariant is kept, and a frame that
  only the range referred to is free.\<close>

theorem free_page_tables_correct:
  fixes s :: "'a mm_scheme"
  assumes "vm_inv own s" and "from_addr AND 0x3fffff = 0" and "4 \<le> dir_index from_addr"
    and "dir_index from_addr + dir_count sz \<le> 1024"
  defines "freed \<equiv> \<lambda>d. dir_index from_addr \<le> d \<and> d < dir_index from_addr + dir_count sz"
  shows "\<exists>s'. free_page_tables from_addr sz s = Inr (0, s') \<and> vm_inv own s' \<and>
    (\<forall>x. walk s' x = (if freed (dir_index x) then None else walk s x)) \<and>
    (\<forall>d < 1024. freed d \<longrightarrow> \<not> dir_present s' d) \<and>
    (\<forall>f. pool s f \<and> own f = 0 \<and> (\<forall>d t. (d, t) \<in> mappers s f \<longrightarrow> freed d) \<and> (\<forall>d \<in> tables s f. freed d)
      \<longrightarrow> refs s' f = 0)"
  unfolding freed_def by (rule free_page_tables_spec [OF assms(1-4)])

theorem free_page_tables_correct_witness:
  "walk two_sharers 0x4002000 = Some 0xf01007 \<and> refs two_sharers 0xf01000 = 1 \<and>
   (\<exists>s'. free_page_tables 0x4000000 0x400000 two_sharers = Inr (0, s') \<and> walk s' 0x4002000 = None \<and>
     refs s' 0xf01000 = 0)"
proof -
  have d: "dir_index 0x4000000 = 16" "dir_count 0x400000 = 1" "dir_index 0x4002000 = 16"
    by (simp_all add: dir_index_def dir_count_def)
  have m: "managed 0xf01000" by (simp add: managed_def LOW_MEM_def)
  then have p: "pool two_sharers 0xf01000" by (simp add: pool_def two_sharers_def)
  have "walk two_sharers 0x4002000 = Some 0xf01007" "refs two_sharers 0xf01000 = 1"
    using m by (simp_all add: walk_two_sharers refs_two_sharers)
  with free_page_tables_correct [OF two_sharers_vm, of "0x4000000" "0x400000"] p m show ?thesis
    by (auto simp: d mappers_two_sharers tables_two_sharers)
qed

lemma copy_page_tables_spec:
  fixes s :: "'a mm_scheme"
  assumes "vm_inv own s" and "from_addr AND 0x3fffff = 0" and "to_addr AND 0x3fffff = 0"
    and "4 \<le> dir_index to_addr" and "dir_index from_addr + dir_count sz \<le> 1024"
    and "dir_index to_addr + dir_count sz \<le> 1024"
    and "dir_index from_addr + dir_count sz \<le> dir_index to_addr \<or> dir_index to_addr + dir_count sz \<le> dir_index from_addr"
    and "\<forall>d. dir_index to_addr \<le> d \<and> d < dir_index to_addr + dir_count sz \<longrightarrow> \<not> dir_present s d"
    and "copyable (if from_addr = 0 then 0xA0 else 1024) (dir_index from_addr) (dir_count sz) s"
  defines "copies \<equiv> \<lambda>y. from_addr = 0 \<longrightarrow> tbl_index y < 0xA0"
  shows "\<exists>s' r m. copy_page_tables from_addr to_addr sz s = Inr (r, s') \<and> vm_inv own s' \<and>
    (r = 0 \<and> m = dir_count sz \<or> r = -1 \<and> m < dir_count sz \<and> (\<forall>f. managed f \<longrightarrow> refs s' f \<noteq> 0)) \<and>
    (\<forall>y. dir_index y < m \<longrightarrow>
      walk s' (to_addr + y) = (if copies y then map_option copied (walk s (from_addr + y)) else None) \<and>
      walk s' (from_addr + y) = (if copies y then map_option shared (walk s (from_addr + y)) else walk s (from_addr + y))) \<and>
    (\<forall>x. \<not> (dir_index from_addr \<le> dir_index x \<and> dir_index x < dir_index from_addr + m) \<and>
         \<not> (dir_index to_addr \<le> dir_index x \<and> dir_index x < dir_index to_addr + m) \<longrightarrow> walk s' x = walk s x)"
proof -
  let ?d1 = "dir_index from_addr" and ?d2 = "dir_index to_addr" and ?n = "dir_count sz"
  let ?nr = "if from_addr = 0 then 0xA0 else 1024 :: nat"
  have nr: "?nr \<le> 1024" and cp: "copies y \<longleftrightarrow> tbl_index y < ?nr" for y by (simp_all add: copies_def)
  obtain s' m r where s': "copy_dirs ?nr ?n (slot 0 ?d1) (slot 0 ?d2) s = Inr (r, s')" "vm_inv own s'"
    and tc: "tables_copied ?nr m ?d1 ?d2 s s'"
    and o: "m = ?n \<and> r = 0 \<or> m < ?n \<and> r = -1 \<and> (\<forall>f. managed f \<longrightarrow> refs s' f \<noteq> 0)"
    using copy_dirs_spec [OF assms(1,4-7) nr _ assms(9)] assms(8) by blast
  have eq: "copy_page_tables from_addr to_addr sz s = Inr (r, s')"
    using assms(2,3) s'(1) by (simp add: copy_page_tables_def dir_offset_eq_slot dir_count_def)
  have m: "m \<le> ?n" using o by auto
  have en: "entry s' d t = (if ?d2 \<le> d \<and> d < ?d2 + m then (if t < ?nr then map_option copied (entry s (d - ?d2 + ?d1) t) else None)
        else if ?d1 \<le> d \<and> d < ?d1 + m \<and> t < ?nr then map_option shared (entry s d t) else entry s d t)"
    if "d < 1024" "t < 1024" for d t
    using tc that unfolding tables_copied_def by blast
  have "walk s' (to_addr + y) = (if copies y then map_option copied (walk s (from_addr + y)) else None) \<and>
      walk s' (from_addr + y) = (if copies y then map_option shared (walk s (from_addr + y)) else walk s (from_addr + y))"
    if y: "dir_index y < m" for y
  proof -
    note ix = index_add [OF assms(2), of y] index_add [OF assms(3), of y]
    have "?d1 + dir_index y < 1024" "?d2 + dir_index y < 1024" using y m assms(5,6) by linarith+
    with ix y m assms(7) show ?thesis by (auto simp: walk_def en cp add.commute)
  qed
  moreover have "walk s' x = walk s x" if "\<not> (?d1 \<le> dir_index x \<and> dir_index x < ?d1 + m)"
    "\<not> (?d2 \<le> dir_index x \<and> dir_index x < ?d2 + m)" for x
    using that by (auto simp: walk_def en)
  ultimately show ?thesis using eq s'(2) o by (intro exI [of _ s'] exI [of _ r] exI [of _ m]) blast
qed

text \<open>C11: copying page tables. When the target range has no tables and the counts have room,
  \<open>copy_page_tables\<close> returns 0, or -1 when the frames ran out after \<open>m\<close> tables. In the copied
  tables every page of the target translates to the frame of the source page, without write
  permission; the source page loses its write permission when its frame is above 1 MB (a copy
  from address 0 takes the first 640 KB of each table only); no other translation changes, and
  the reference counts are exact again.\<close>

theorem copy_page_tables_correct:
  fixes s :: "'a mm_scheme"
  assumes "vm_inv own s" and "from_addr AND 0x3fffff = 0" and "to_addr AND 0x3fffff = 0"
    and "4 \<le> dir_index to_addr" and "dir_index from_addr + dir_count sz \<le> 1024"
    and "dir_index to_addr + dir_count sz \<le> 1024"
    and "dir_index from_addr + dir_count sz \<le> dir_index to_addr \<or> dir_index to_addr + dir_count sz \<le> dir_index from_addr"
    and "\<forall>d. dir_index to_addr \<le> d \<and> d < dir_index to_addr + dir_count sz \<longrightarrow> \<not> dir_present s d"
    and "copyable (if from_addr = 0 then 0xA0 else 1024) (dir_index from_addr) (dir_count sz) s"
  defines "copies \<equiv> \<lambda>y. from_addr = 0 \<longrightarrow> tbl_index y < 0xA0"
  shows "\<exists>s' r m. copy_page_tables from_addr to_addr sz s = Inr (r, s') \<and> vm_inv own s' \<and>
    (r = 0 \<and> m = dir_count sz \<or> r = -1 \<and> m < dir_count sz \<and> (\<forall>f. managed f \<longrightarrow> refs s' f \<noteq> 0)) \<and>
    (\<forall>y. dir_index y < m \<longrightarrow>
      walk s' (to_addr + y) = (if copies y then map_option copied (walk s (from_addr + y)) else None) \<and>
      walk s' (from_addr + y) = (if copies y then map_option shared (walk s (from_addr + y)) else walk s (from_addr + y))) \<and>
    (\<forall>x. \<not> (dir_index from_addr \<le> dir_index x \<and> dir_index x < dir_index from_addr + m) \<and>
         \<not> (dir_index to_addr \<le> dir_index x \<and> dir_index x < dir_index to_addr + m) \<longrightarrow> walk s' x = walk s x)"
  unfolding copies_def by (rule copy_page_tables_spec [OF assms(1-9)])

theorem copy_page_tables_correct_witness:
  "walk two_sharers 0x4002000 = Some 0xf01007 \<and>
   (\<exists>s'. copy_page_tables 0x4000000 0x8000000 0x400000 two_sharers = Inr (0, s') \<and>
     walk s' 0x8002000 = Some 0xf01005 \<and> walk s' 0x4002000 = Some 0xf01005)"
proof -
  have d: "dir_index 0x4000000 = 16" "dir_index 0x8000000 = 32" "dir_count 0x400000 = 1" "dir_index 0x2000 = 0"
    by (simp_all add: dir_index_def dir_count_def)
  have n: "\<forall>d. 32 \<le> d \<and> d < 33 \<longrightarrow> \<not> dir_present two_sharers d"
    by (auto simp: dir_present_def two_sharers_dirent)
  have w: "walk two_sharers 0x4002000 = Some 0xf01007" by (simp add: walk_two_sharers)
  have r: "r = 0" if "copy_page_tables 0x4000000 0x8000000 0x400000 two_sharers = Inr (r, s')" for r s'
    using that
    by (auto simp: copy_page_tables_def kbind_elim get_free_page_def scasb_step LOW_MEM_def two_sharers_def
        split: if_splits)
  from copy_page_tables_correct [OF two_sharers_vm, of "0x4000000" "0x8000000" "0x400000"] n two_sharers_copyable
  obtain s' r m where c: "copy_page_tables 0x4000000 0x8000000 0x400000 two_sharers = Inr (r, s')"
      "r = 0 \<and> m = 1 \<or> r = -1 \<and> m < 1 \<and> (\<forall>f. managed f \<longrightarrow> refs s' f \<noteq> 0)"
    and y: "\<forall>y. dir_index y < m \<longrightarrow> walk s' (0x8000000 + y) = map_option copied (walk two_sharers (0x4000000 + y)) \<and>
      walk s' (0x4000000 + y) = map_option shared (walk two_sharers (0x4000000 + y))"
    by (auto simp: d)
  from r [OF c(1)] c(2) have "m = 1" "r = 0" by auto
  with spec [OF y, of "0x2000"] c(1) w show ?thesis
    by (simp add: d shared_def copied_def LOW_MEM_def)
qed

end
