(* ===== verification/Address_Spaces.thy ===== *)
theory Address_Spaces
  imports Ref_Count
begin

text \<open>
  The memory manager as a transition system: every sequence of allocations, releases, page
  faults and table operations that starts from the state boot/head.s and \<open>mem_init\<close> leave,
  and what holds in every state it reaches. A state comes with \<open>own\<close>, the references the
  rest of the kernel holds on frames it took with \<open>get_free_page\<close>.
\<close>

section \<open>The transition system\<close>

text \<open>The page directory of boot/head.s: four tables map the first 16 MB.\<close>

definition head_tables :: "'a mm_scheme \<Rightarrow> bool" where
  "head_tables s \<longleftrightarrow> (\<forall>d < 1024. dirent s d = (if d < 4 then of_nat (4096 * (d + 1)) OR 7 else 0))"

inductive vm_reach :: "(u32 \<Rightarrow> nat) \<Rightarrow> mm \<Rightarrow> bool" where
  boot: "head_tables s0 \<Longrightarrow> mem_init 0x100000 0x300000 s0 = Inr s \<Longrightarrow> vm_reach (\<lambda>_. 0) s"
| take_frame: "vm_reach own s \<Longrightarrow> get_free_page s = (p, s') \<Longrightarrow> p \<noteq> 0 \<Longrightarrow> vm_reach (own(p := 1)) s'"
| give_frame: "vm_reach own s \<Longrightarrow> pool s p \<Longrightarrow> 0 < own p \<Longrightarrow> free_page p s = Inr s' \<Longrightarrow>
    vm_reach (own(p := own p - 1)) s'"
| map_frame: "vm_reach own s \<Longrightarrow> page_aligned page \<Longrightarrow> 0 < own page \<Longrightarrow> 4 \<le> dir_index x \<Longrightarrow> walk s x = None \<Longrightarrow>
    put_page page x s = Inr (r, s') \<Longrightarrow> r \<noteq> 0 \<Longrightarrow> vm_reach (own(page := own page - 1)) s'"
| missing_page: "vm_reach own s \<Longrightarrow> 4 \<le> dir_index x \<Longrightarrow> walk s x = None \<Longrightarrow> ec AND 1 = 0 \<Longrightarrow>
    page_fault ec x s = Inr s' \<Longrightarrow> vm_reach own s'"
| protected_page: "vm_reach own s \<Longrightarrow> 4 \<le> dir_index x \<Longrightarrow> walk s x = Some e \<Longrightarrow> valid_frame (page_of e) \<Longrightarrow>
    ec AND 1 \<noteq> 0 \<Longrightarrow> page_fault ec x s = Inr s' \<Longrightarrow> vm_reach own s'"
| free_tables: "vm_reach own s \<Longrightarrow> 4 \<le> dir_index f \<Longrightarrow> dir_index f + dir_count sz \<le> 1024 \<Longrightarrow>
    free_page_tables f sz s = Inr (r, s') \<Longrightarrow> vm_reach own s'"
| copy_tables: "vm_reach own s \<Longrightarrow> 4 \<le> dir_index t \<Longrightarrow> dir_index f + dir_count sz \<le> 1024 \<Longrightarrow>
    dir_index t + dir_count sz \<le> 1024 \<Longrightarrow>
    dir_index f + dir_count sz \<le> dir_index t \<or> dir_index t + dir_count sz \<le> dir_index f \<Longrightarrow>
    (\<And>d. dir_index t \<le> d \<Longrightarrow> d < dir_index t + dir_count sz \<Longrightarrow> \<not> dir_present s d) \<Longrightarrow>
    copyable (if f = 0 then 0xA0 else 1024) (dir_index f) (dir_count sz) s \<Longrightarrow>
    copy_page_tables f t sz s = Inr (r, s') \<Longrightarrow> vm_reach own s'"

inductive_cases vm_reach_elim: "vm_reach own s"

section \<open>The invariant\<close>

lemma mem_init_boot:
  assumes "mem_init 0x100000 0x300000 s0 = Inr s"
  shows "HIGH_MEMORY s = 0x300000" "phys s = phys s0" "\<And>i. i < 512 \<Longrightarrow> mem_map s i = 0"
    "\<And>i. 512 \<le> i \<Longrightarrow> i < 3840 \<Longrightarrow> mem_map s i = USED"
  using assms by (auto simp: mem_init_def mem_set_eq MAP_NR_def LOW_MEM_def)

lemma vm_inv_boot:
  assumes "head_tables s0" "mem_init 0x100000 0x300000 s0 = Inr s"
  shows "vm_inv (\<lambda>_. 0) s"
proof (rule vm_invI)
  note mi = mem_init_boot [OF assms(2)]
  have di: "dirent s d = (if d < 4 then of_nat (4096 * (d + 1)) OR 7 else 0)" if "d < 1024" for d
    using that assms(1) mi(2) by (simp add: dirent_def head_tables_def)
  have dp: "dir_present s d \<longleftrightarrow> d < 4" if "d < 1024" for d
    using that by (simp add: dir_present_def di)
  have al: "page_aligned (of_nat (4096 * (d + 1)))" if "d < 4" for d
    using that by (simp add: page_aligned_iff_dvd unat_of_nat_u32 del: of_nat_mult of_nat_add of_nat_Suc)
  have tb: "unat (table s d) = 4096 * (d + 1)" if "d < 4" for d
    using that al [OF that] di [of d]
    by (simp add: table_def unat_of_nat_u32 del: of_nat_mult of_nat_add of_nat_Suc)
  have nm: "\<not> managed (table s d)" if "d < 4" for d
    using tb [OF that] that by (simp add: managed_def LOW_MEM_def word_le_nat_alt)
  show "wf_dir s"
    unfolding wf_dir_def using tb nm dp by (auto simp: word_unat_eq_iff)
  show "alloc_inv s"
    unfolding alloc_inv_def
  proof (intro conjI allI impI)
    show "HIGH_MEMORY s \<le> 0x1000000" by (simp add: mi(1))
    fix i assume "i < 3840" "HIGH_MEMORY s \<le> frame i"
    then have "512 \<le> i" by (simp add: mi(1) word_le_nat_alt unat_frame)
    then show "mem_map s i \<noteq> 0" using mi(4) \<open>i < 3840\<close> by (simp add: USED_def)
  qed
  fix f assume f: "pool s f"
  then have m: "managed f" "unat f < 3145728" by (simp_all add: pool_def mi(1) word_less_nat_alt)
  have "unat f = 1048576 + 4096 * MAP_NR f"
    using unat_frame [OF managed_eq_frame(1) [OF m(1)]] managed_eq_frame(2) [OF m(1)] by simp
  then have "refs s f = 0" using m mi(3) by (simp add: refs_def)
  moreover have "mappers s f = {}" using dp by (auto simp: mappers_def entry_def)
  moreover have "tables s f = {}" using dp nm m(1) by (auto simp: tables_def)
  ultimately show "refs s f = uses s f + 0" by (simp add: uses_def)
qed

lemma free_page_tables_Inr:
  assumes "free_page_tables f sz s = Inr (r, s')"
  shows "free_dirs (dir_count sz) (slot 0 (dir_index f)) s = Inr s'"
  using assms
  by (auto simp: free_page_tables_def dir_offset_eq_slot dir_count_def kbind_elim split: if_splits)

lemma copy_page_tables_Inr:
  assumes "copy_page_tables f t sz s = Inr (r, s')"
  shows "copy_dirs (if f = 0 then 0xA0 else 1024) (dir_count sz) (slot 0 (dir_index f)) (slot 0 (dir_index t)) s = Inr (r, s')"
  using assms by (auto simp: copy_page_tables_def dir_offset_eq_slot dir_count_def split: if_splits)

lemma vm_reach_inv: "vm_reach own s \<Longrightarrow> vm_inv own s"
proof (induction rule: vm_reach.induct)
  case (boot s0 s)
  then show ?case by (rule vm_inv_boot)
next
  case (take_frame own s p s')
  then show ?case using vm_inv_take(1) by blast
next
  case (give_frame own s p s')
  then show ?case using vm_inv_release [OF give_frame.IH give_frame.hyps(2,3)] by (metis Inr_inject)
next
  case (map_frame own s page x r s')
  then show ?case by (elim vm_inv_put_page) simp_all
next
  case (missing_page own s x ec s')
  then have "do_no_page ec x s = Inr s'" by (simp add: page_fault_def)
  with missing_page.IH missing_page.hyps(2,3) show ?case by (rule vm_inv_do_no_page)
next
  case (protected_page own s x e ec s')
  then have "un_wp_page (slot (table s (dir_index x)) (tbl_index x)) s = Inr s'"
    by (simp add: page_fault_def do_wp_page_eq)
  with protected_page.IH protected_page.hyps(2) dir_index_less tbl_index_less
    protected_page.hyps(3) [unfolded walk_def] protected_page.hyps(4)
  show ?case by (rule vm_inv_un_wp_page)
next
  case (free_tables own s f sz r s')
  then show ?case
    using free_dirs_spec [OF free_tables.IH free_tables.hyps(2,3)] free_page_tables_Inr by fastforce
next
  case (copy_tables own s t f sz r s')
  have "(if f = 0 then 0xA0 else 1024 :: nat) \<le> 1024" by simp
  note copy_dirs_spec [OF copy_tables.IH copy_tables.hyps(2-5) this copy_tables.hyps(6,7)]
  then show ?case using copy_page_tables_Inr [OF copy_tables.hyps(8)] by auto
qed

section \<open>Properties\<close>

lemma page_fault_outcomes:
  assumes "vm_inv own s" "4 \<le> dir_index x"
  shows "walk s x = None \<and> ec AND 1 = 0 \<or> (\<exists>e. walk s x = Some e \<and> valid_frame (page_of e)) \<and> ec AND 1 \<noteq> 0 \<Longrightarrow>
    page_fault ec x s = oom \<or> (\<exists>s'. page_fault ec x s = Inr s')"
proof (elim disjE conjE exE)
  assume "walk s x = None" "ec AND 1 = 0"
  then show ?thesis using do_no_page_total [OF vm_invD(1,2) [OF assms(1)]] by (auto simp: page_fault_def)
next
  fix e assume e: "walk s x = Some e" "valid_frame (page_of e)" "ec AND 1 \<noteq> 0"
  note w = e(1) [unfolded walk_def]
  show ?thesis
    using vm_invD(1) [OF assms(1)] dir_index_less tbl_index_less w e(2)
      vm_inv_refs_managed [OF assms dir_index_less tbl_index_less w]
    by (rule un_wp_page_outcome) (use e(3) in \<open>simp_all add: page_fault_def do_wp_page_eq\<close>)
qed

text \<open>C12: the reference-count invariant. In every state the memory manager reaches, the
  byte of each frame of the pool is exactly the number of page-table entries that map it
  plus the directory entries that point to it plus the references the kernel took itself.
  So the kernel can release a frame it owns without a panic, and a page fault on a missing
  or a write-protected page returns or ends in the out-of-memory panic.\<close>

theorem reference_counts_exact:
  assumes "vm_reach own s"
  shows "wf_dir s \<and> alloc_inv s \<and>
    (\<forall>f. pool s f \<longrightarrow> refs s f = card (mappers s f) + card (tables s f) + own f) \<and>
    (\<forall>f. pool s f \<and> 0 < own f \<longrightarrow> (\<exists>s'. free_page f s = Inr s')) \<and>
    (\<forall>x ec. 4 \<le> dir_index x \<and> (walk s x = None \<and> ec AND 1 = 0 \<or>
        (\<exists>e. walk s x = Some e \<and> valid_frame (page_of e)) \<and> ec AND 1 \<noteq> 0) \<longrightarrow>
      page_fault ec x s = oom \<or> (\<exists>s'. page_fault ec x s = Inr s'))"
proof -
  have inv: "vm_inv own s" using assms by (rule vm_reach_inv)
  note page_fault_outcomes [OF inv]
  moreover have "\<exists>s'. free_page f s = Inr s'" if "pool s f" "0 < own f" for f
    using vm_inv_release [OF inv that] by blast
  ultimately show ?thesis using vm_invD [OF inv] by (simp add: uses_def)
qed

text \<open>The state boot/head.s leaves, and the first page a process touches.\<close>

definition head_state :: mm where
  "head_state = all_free\<lparr>phys := (\<lambda>_. 0)(0 := 0x1007, 4 := 0x2007, 8 := 0x3007, 12 := 0x4007)\<rparr>"

lemma head_state_tables: "head_tables head_state"
  unfolding head_tables_def
proof (intro allI impI)
  fix d :: nat assume d: "d < 1024"
  then have "unat (slot 0 d) = 4 * d" by (simp add: unat_slot)
  then have "slot 0 d = 0 \<longleftrightarrow> d = 0" "slot 0 d = 4 \<longleftrightarrow> d = 1" "slot 0 d = 8 \<longleftrightarrow> d = 2" "slot 0 d = 12 \<longleftrightarrow> d = 3"
    by (auto simp: word_unat_eq_iff)
  moreover have "d = 0 \<or> d = 1 \<or> d = 2 \<or> d = 3 \<or> \<not> d < 4" by linarith
  ultimately show "dirent head_state d = (if d < 4 then of_nat (4096 * (d + 1)) OR 7 else 0)"
    by (auto simp: dirent_def head_state_def)
qed

lemma head_state_boot: "\<exists>s. mem_init 0x100000 0x300000 head_state = Inr s"
  by (simp add: mem_init_def mem_set_eq MAP_NR_def LOW_MEM_def)

theorem reference_counts_exact_witness:
  "\<exists>own s f. vm_reach own s \<and> pool s f \<and> refs s f = card (mappers s f) + card (tables s f) + 1 \<and>
     (\<exists>s'. free_page f s = Inr s')"
proof -
  obtain s where s: "mem_init 0x100000 0x300000 head_state = Inr s" using head_state_boot by blast
  have r: "vm_reach (\<lambda>_. 0) s" by (rule boot [OF head_state_tables s])
  obtain p s1 where p: "get_free_page s = (p, s1)" by fastforce
  have "refs s (frame 0) = 0" using mem_init_boot(3) [OF s, of 0] by (simp add: refs_frame)
  have nz: "p \<noteq> 0"
  proof
    assume "p = 0"
    with p have "get_free_page s = (0, s1)" by simp
    then have "\<forall>p. managed p \<longrightarrow> refs s p \<noteq> 0" by (rule get_free_page_0 [THEN conjunct2])
    then have "refs s (frame 0) \<noteq> 0" using managed_frame [of 0] by simp
    with \<open>refs s (frame 0) = 0\<close> show False by simp
  qed
  have r1: "vm_reach ((\<lambda>_. 0)(p := 1)) s1" by (rule take_frame [OF r p nz])
  have "pool s1 p" using get_free_page_pool [OF vm_invD(2) [OF vm_reach_inv [OF r]] p nz] by simp
  then have "refs s1 p = card (mappers s1 p) + card (tables s1 p) + 1" "\<exists>s'. free_page p s1 = Inr s'"
    using reference_counts_exact [OF r1] by simp_all
  with r1 \<open>pool s1 p\<close> show ?thesis by blast
qed

section \<open>Isolation\<close>

lemma two_mappers:
  assumes "4 \<le> dir_index x" "4 \<le> dir_index x'" "page_of x \<noteq> page_of x'" "walk s x = Some e" "walk s x' = Some e'"
    and "page_of e' = page_of e"
  shows "1 < uses s (page_of e)"
proof -
  let ?a = "(dir_index x, tbl_index x)" and ?b = "(dir_index x', tbl_index x')"
  have "{?a, ?b} \<subseteq> mappers s (page_of e)"
    using assms by (auto simp: mappers_def walk_def)
  then have "card {?a, ?b} \<le> card (mappers s (page_of e))" by (rule card_mono [rotated]) simp
  moreover have "?a \<noteq> ?b" using assms(3) same_page_iff [of x x'] by auto
  ultimately show ?thesis by (simp add: uses_def)
qed

text \<open>Two pages that share a frame, as a copy of page tables leaves them, do not see
  each other's writes: the write fault of one gives it another frame, and leaves the
  translation of the other page and every word of the shared frame as they were.\<close>

theorem write_fault_isolates:
  assumes "vm_inv own s" and "4 \<le> dir_index x" and "4 \<le> dir_index x'" and "page_of x \<noteq> page_of x'"
    and "walk s x = Some e" and "walk s x' = Some e'" and "page_of e' = page_of e" and "pool s (page_of e)"
    and "\<forall>d < 1024. dir_present s d \<longrightarrow> table s d \<noteq> page_of e"
    and "do_wp_page error_code x s = Inr s'"
  shows "vm_inv own s' \<and> walk s' x' = Some e' \<and> (\<forall>a. page_of a = page_of e \<longrightarrow> phys s' a = phys s a) \<and>
    (\<exists>p. walk s' x = Some (p OR 7) \<and> page_aligned p \<and> p \<noteq> page_of e \<and> refs s' p = 1)"
proof -
  let ?d = "dir_index x" and ?t = "tbl_index x" and ?f = "page_of e"
  note iv = vm_invD [OF assms(1)] and w = assms(5) [unfolded walk_def]
  note res = assms(10) [unfolded do_wp_page_eq]
  have m: "managed ?f" and v: "valid_frame ?f"
    using assms(8) by (auto simp: pool_def managed_def valid_frame_def)
  have big: "1 < refs s ?f"
    using two_mappers [OF assms(2-7)] iv(3) [OF assms(8)] by simp
  have dp: "dir_present s ?d" using w by (auto simp: entry_def split: if_splits)
  note inv' = vm_inv_un_wp_page [OF assms(1,2) dir_index_less tbl_index_less w v res]
  have used: "managed ?f \<longrightarrow> refs s ?f \<noteq> 0" using big by simp
  have "(\<forall>a. page_of a = ?f \<longrightarrow> phys s' a = phys s a) \<and>
    (\<exists>p. entry s' ?d ?t = Some (p OR 7) \<and> page_aligned p \<and> p \<noteq> ?f \<and> refs s' p = 1) \<and>
    (\<forall>d < 1024. \<forall>t < 1024. \<not> (d = ?d \<and> t = ?t) \<longrightarrow> entry s' d t = entry s d t)"
    using iv(1) dir_index_less tbl_index_less w v used
  proof (cases rule: un_wp_page_outcome)
    case sole
    with big show ?thesis by simp
  next
    case (copied p s1 s2)
    note g = get_free_page_nonzero [OF copied(1,2)]
    have s': "s' = store (slot (table s ?d) ?t) (p OR 7) s2" using copied(5) res by simp
    have ph: "phys s2 = phys s1" by (subst copied(7)) simp
    have "phys s' a = phys s a" if "page_of a = ?f" for a
    proof -
      have "page_of (slot (table s ?d) ?t) \<noteq> ?f" using assms(9) dp by simp
      then have "a \<noteq> slot (table s ?d) ?t" using that by blast
      then show ?thesis using that copied(3) by (simp add: s' ph g(4) clear_page_def)
    qed
    moreover from iv(1) dir_index_less tbl_index_less w v used res obtain e'' where e'': "managed (page_of e'')" "refs s' (page_of e'') = 1"
       "\<And>d t. d < 1024 \<Longrightarrow> t < 1024 \<Longrightarrow>
         entry s' d t = (if d = ?d \<and> t = ?t then Some e'' else entry s d t)"
      and cs: "e'' = e OR 2 \<and> refs s' = refs s \<or>
       e'' = page_of e'' OR 7 \<and> page_of e'' \<noteq> page_of e \<and> refs s (page_of e'') = 0 \<and>
       (managed (page_of e) \<longrightarrow> 1 < refs s (page_of e)) \<and>
       refs s' = (\<lambda>f. if f = page_of e'' then 1
         else if f = page_of e \<and> managed f then refs s f - 1 else refs s f) \<and>
       (\<forall>a. page_of a = page_of e'' \<longrightarrow> phys s' a = 0)"
      by (rule un_wp_page_success) blast
    have ne: "e'' = page_of e'' OR 7 \<and> page_of e'' \<noteq> ?f"
      using cs e''(2) big by (auto simp: or_2_flags)
    then have "entry s' ?d ?t = Some (page_of e'' OR 7)" using e''(3) [of ?d ?t] by simp
    then have "\<exists>p. entry s' ?d ?t = Some (p OR 7) \<and> page_aligned p \<and> p \<noteq> ?f \<and> refs s' p = 1"
      using ne e''(2) page_of_page_of by blast
    ultimately show ?thesis using e''(3) by simp
  next
    case full
    with res show ?thesis by (simp add: oom_def)
  qed
  with inv' assms(4,6) show ?thesis by (auto simp: walk_def same_page_iff [symmetric])
qed

theorem write_fault_isolates_witness:
  "\<exists>s'. do_wp_page 3 0x4000000 two_sharers = Inr s' \<and> walk s' 0x4001000 = Some 0xf00005 \<and>
     phys s' 0xf00000 = 42"
proof -
  obtain s' where s': "do_wp_page 3 0x4000000 two_sharers = Inr s'" using two_sharers_fault by blast
  have p: "pool two_sharers 0xf00000" using shared_frame(2) by (simp add: pool_def two_sharers_def)
  have n: "\<forall>d < 1024. dir_present two_sharers d \<longrightarrow> table two_sharers d \<noteq> 0xf00000"
    by (auto simp: dir_present_def table_def two_sharers_dirent split: if_splits)
  have "phys two_sharers 0xf00000 = 42" by (simp add: two_sharers_def)
  with write_fault_isolates [OF two_sharers_vm _ _ _ walk_two_sharers(1,2) _ _ _ s'] p n s'
  show ?thesis by (simp add: dir_index_def)
qed

end
