(* ===== verification/Descriptors.thy ===== *)
theory Descriptors
  imports Prelude
begin

text \<open>
  The 8-byte descriptors of the GDT, the IDT and a task's LDT, and the inline assembly that
  reads and writes them (include/linux/sched.h, include/asm/system.h). A descriptor is the
  pair of its two words, as \<open>struct desc_struct\<close> of include/linux/head.h has it; the byte at
  offset 4 of the descriptor is the lowest byte of the second word.
\<close>

section \<open>Operations\<close>

record desc_struct =
  desc_a :: u32
  desc_b :: u32

definition set_base :: "u32 \<Rightarrow> desc_struct \<Rightarrow> desc_struct" where
  "set_base base d = d\<lparr>
     desc_a := take_bit 16 (desc_a d) OR push_bit 16 base,
     desc_b := take_bit 8 (drop_bit 16 base) OR push_bit 8 (take_bit 16 (drop_bit 8 (desc_b d))) OR
       push_bit 24 (drop_bit 24 base)\<rparr>"

definition get_base :: "desc_struct \<Rightarrow> u32" where
  "get_base d = push_bit 16 (take_bit 8 (desc_b d) OR push_bit 8 (drop_bit 24 (desc_b d))) OR
     drop_bit 16 (desc_a d)"

text \<open>
  The \<open>lsl\<close> instruction of \<open>get_limit\<close>: the limit of a segment in bytes, from the 20 bits of
  its descriptor and the granularity bit; the macro adds 1.
\<close>

definition get_limit :: "desc_struct \<Rightarrow> u32" where
  "get_limit d =
     (let l = take_bit 16 (desc_a d) OR push_bit 16 (take_bit 4 (drop_bit 16 (desc_b d))) in
      (if bit (desc_b d) 23 then push_bit 12 l OR 0xfff else l) + 1)"

definition set_gate :: "u32 \<Rightarrow> u32 \<Rightarrow> u32 \<Rightarrow> desc_struct" where
  "set_gate type dpl funaddr = \<lparr>
     desc_a = 0x00080000 OR take_bit 16 funaddr,
     desc_b = push_bit 16 (drop_bit 16 funaddr) OR
       take_bit 16 (0x8000 + push_bit 13 dpl + push_bit 8 type)\<rparr>"

definition set_trap_gate :: "nat \<Rightarrow> u32 \<Rightarrow> (nat \<Rightarrow> desc_struct) \<Rightarrow> (nat \<Rightarrow> desc_struct)" where
  "set_trap_gate n funaddr idt = idt(n := set_gate 0xF 0 funaddr)"

definition set_intr_gate :: "nat \<Rightarrow> u32 \<Rightarrow> (nat \<Rightarrow> desc_struct) \<Rightarrow> (nat \<Rightarrow> desc_struct)" where
  "set_intr_gate n funaddr idt = idt(n := set_gate 0xE 0 funaddr)"

definition set_system_gate :: "nat \<Rightarrow> u32 \<Rightarrow> (nat \<Rightarrow> desc_struct) \<Rightarrow> (nat \<Rightarrow> desc_struct)" where
  "set_system_gate n funaddr idt = idt(n := set_gate 0xF 3 funaddr)"

text \<open>The limit is always 104, the size of the hardware part of a TSS.\<close>

definition set_tssldt_desc :: "u32 \<Rightarrow> u32 \<Rightarrow> desc_struct" where
  "set_tssldt_desc addr type = \<lparr>
     desc_a = 104 OR push_bit 16 addr,
     desc_b = take_bit 8 (drop_bit 16 addr) OR push_bit 8 type OR push_bit 24 (drop_bit 24 addr)\<rparr>"

definition set_tss_desc :: "u32 \<Rightarrow> desc_struct" where
  "set_tss_desc addr = set_tssldt_desc addr 0x89"

definition set_ldt_desc :: "u32 \<Rightarrow> desc_struct" where
  "set_ldt_desc addr = set_tssldt_desc addr 0x82"

definition FIRST_TSS_ENTRY :: nat where
  "FIRST_TSS_ENTRY = 4"

definition FIRST_LDT_ENTRY :: nat where
  "FIRST_LDT_ENTRY = FIRST_TSS_ENTRY + 1"

definition TSS_sel :: "nat \<Rightarrow> u32" where
  "TSS_sel n = push_bit 4 (of_nat n) + push_bit 3 (of_nat FIRST_TSS_ENTRY)"

definition LDT_sel :: "nat \<Rightarrow> u32" where
  "LDT_sel n = push_bit 4 (of_nat n) + push_bit 3 (of_nat FIRST_LDT_ENTRY)"

section \<open>What they mean\<close>

text \<open>The fields a processor reads in a descriptor.\<close>

definition desc_type :: "desc_struct \<Rightarrow> u32" where
  "desc_type d = take_bit 8 (drop_bit 8 (desc_b d))"

definition gate_offset :: "desc_struct \<Rightarrow> u32" where
  "gate_offset d = take_bit 16 (desc_a d) OR push_bit 16 (drop_bit 16 (desc_b d))"

definition gate_selector :: "desc_struct \<Rightarrow> u32" where
  "gate_selector d = drop_bit 16 (desc_a d)"

definition gate_dpl :: "desc_struct \<Rightarrow> u32" where
  "gate_dpl d = take_bit 2 (drop_bit 13 (desc_b d))"

definition gate_type :: "desc_struct \<Rightarrow> u32" where
  "gate_type d = take_bit 5 (drop_bit 8 (desc_b d))"

lemma get_base_set_base [simp]: "get_base (set_base base d) = base"
  unfolding get_base_def set_base_def
  by (rule bit_word_eqI) (auto simp: bit_simps)

lemma get_limit_set_base [simp]: "get_limit (set_base base d) = get_limit d"
proof -
  have "take_bit 16 (desc_a (set_base base d)) = take_bit 16 (desc_a d)"
    unfolding set_base_def by (rule bit_word_eqI) (auto simp: bit_simps)
  moreover have "take_bit 4 (drop_bit 16 (desc_b (set_base base d))) = take_bit 4 (drop_bit 16 (desc_b d))"
    unfolding set_base_def by (rule bit_word_eqI) (auto simp: bit_simps)
  moreover have "bit (desc_b (set_base base d)) 23 = bit (desc_b d) 23"
    unfolding set_base_def by (auto simp: bit_simps)
  ultimately show ?thesis by (simp add: get_limit_def Let_def)
qed

lemma desc_type_set_base [simp]: "desc_type (set_base base d) = desc_type d"
  unfolding desc_type_def set_base_def by (rule bit_word_eqI) (auto simp: bit_simps)

lemma take_bit_not_bit: "take_bit k x = x \<Longrightarrow> k \<le> n \<Longrightarrow> \<not> bit (x :: u32) n"
  by (metis bit_take_bit_iff not_le)

lemma get_base_tssldt:
  assumes "take_bit 8 type = type" shows "get_base (set_tssldt_desc addr type) = addr"
proof -
  have t: "\<not> bit type n" if "8 \<le> n" for n using take_bit_not_bit [OF assms that] .
  have "take_bit 7 (104 :: u32) = 104" by simp
  then have l: "\<not> bit (104 :: u32) n" if "7 \<le> n" for n using take_bit_not_bit that by blast
  show ?thesis
    unfolding get_base_def set_tssldt_desc_def
    by (rule bit_word_eqI) (auto simp: bit_simps t l)
qed

lemma get_base_tss [simp]: "get_base (set_tss_desc addr) = addr" "get_base (set_ldt_desc addr) = addr"
  by (simp_all add: set_tss_desc_def set_ldt_desc_def get_base_tssldt)

lemma desc_type_tssldt:
  assumes "take_bit 8 type = type" shows "desc_type (set_tssldt_desc addr type) = type"
proof -
  have t: "\<not> bit type n" if "8 \<le> n" for n using take_bit_not_bit [OF assms that] .
  show ?thesis
    unfolding desc_type_def set_tssldt_desc_def
    by (rule bit_word_eqI) (use t in \<open>force simp: bit_simps not_less\<close>)
qed

lemma get_limit_tssldt:
  assumes "take_bit 8 type = type" shows "get_limit (set_tssldt_desc addr type) = 105"
proof -
  have t: "\<not> bit type n" if "8 \<le> n" for n using take_bit_not_bit [OF assms that] .
  have "take_bit 7 (104 :: u32) = 104" by simp
  then have l: "\<not> bit (104 :: u32) n" if "7 \<le> n" for n using take_bit_not_bit that by blast
  have "take_bit 16 (desc_a (set_tssldt_desc addr type)) = 104"
    unfolding set_tssldt_desc_def by (rule bit_word_eqI) (use l in \<open>force simp: bit_simps not_less\<close>)
  moreover have "take_bit 4 (drop_bit 16 (desc_b (set_tssldt_desc addr type))) = 0"
    unfolding set_tssldt_desc_def by (rule bit_word_eqI) (auto simp: bit_simps t)
  moreover have "\<not> bit (desc_b (set_tssldt_desc addr type)) 23"
    unfolding set_tssldt_desc_def by (auto simp: bit_simps t)
  ultimately show ?thesis by (simp add: get_limit_def Let_def)
qed

lemma gate_offset_set_gate [simp]: "gate_offset (set_gate type dpl f) = f"
proof -
  have "take_bit 20 (0x80000 :: u32) = 0x80000" "take_bit 16 (0x80000 :: u32) = 0" by simp_all
  then have s: "\<not> bit (0x80000 :: u32) n" if "n < 16" for n
    using that by (metis bit_take_bit_iff bit_0_eq bot_fun_def bot_bool_def)
  show ?thesis
    unfolding gate_offset_def set_gate_def
    by (rule bit_word_eqI) (auto simp: bit_simps s)
qed

lemma gate_selector_set_gate [simp]: "gate_selector (set_gate type dpl f) = 8"
proof -
  have "drop_bit 16 (0x80000 OR take_bit 16 f) = drop_bit 16 (0x80000 :: u32)"
    by (rule bit_word_eqI) (auto simp: bit_simps)
  then show ?thesis by (simp add: gate_selector_def set_gate_def)
qed

lemma gate_bits_set_gate:
  "gate_dpl (set_gate type dpl f) = take_bit 2 (drop_bit 13 (0x8000 + push_bit 13 dpl + push_bit 8 type))"
  "gate_type (set_gate type dpl f) = take_bit 5 (drop_bit 8 (0x8000 + push_bit 13 dpl + push_bit 8 type))"
  unfolding gate_dpl_def gate_type_def set_gate_def
  by (rule bit_word_eqI; auto simp: bit_simps)+

lemma gates [simp]:
  "gate_dpl (set_gate 0xF 0 f) = 0" "gate_type (set_gate 0xF 0 f) = 0xF"
  "gate_dpl (set_gate 0xE 0 f) = 0" "gate_type (set_gate 0xE 0 f) = 0xE"
  "gate_dpl (set_gate 0xF 3 f) = 3" "gate_type (set_gate 0xF 3 f) = 0xF"
  by (simp_all add: gate_bits_set_gate)

section \<open>Properties\<close>

text \<open>the base address of a descriptor. \<open>get_base\<close> reads back what \<open>set_base\<close> or one of
  \<open>set_tss_desc\<close> and \<open>set_ldt_desc\<close> wrote, for all 32 bits of it, and \<open>set_base\<close> changes
  neither the limit nor the type of the segment.\<close>

theorem descriptor_base_roundtrip:
  "get_base (set_base base d) = base \<and> get_limit (set_base base d) = get_limit d \<and>
   desc_type (set_base base d) = desc_type d \<and>
   get_base (set_tss_desc base) = base \<and> desc_type (set_tss_desc base) = 0x89 \<and>
   get_base (set_ldt_desc base) = base \<and> desc_type (set_ldt_desc base) = 0x82 \<and>
   get_limit (set_tss_desc base) = 105 \<and> get_limit (set_ldt_desc base) = 105"
  by (simp add: set_tss_desc_def set_ldt_desc_def get_base_tssldt desc_type_tssldt get_limit_tssldt)

end
