(* ===== verification/Tasks.thy ===== *)
theory Tasks
  imports Address_Spaces Descriptors
begin

text \<open>
  The kernel's process table (include/linux/sched.h): the descriptor of a task with its
  signal actions, its LDT and its TSS, and the state of the kernel around it, which extends
  the state of the memory manager. A task is named by the address of its descriptor, as in
  the code; \<open>tstruct\<close> gives the descriptor at an address, and \<open>cell\<close> the value of a variable
  of type \<open>struct task_struct *\<close> at an address, the head of a wait queue.
\<close>

section \<open>Task descriptors\<close>

record sigaction =
  sa_handler :: u32
  sa_mask :: u32
  sa_flags :: u32
  sa_restorer :: u32

record tss_struct =
  tss_back_link :: u32
  tss_esp0 :: u32
  tss_ss0 :: u32
  tss_esp1 :: u32
  tss_ss1 :: u32
  tss_esp2 :: u32
  tss_ss2 :: u32
  tss_cr3 :: u32
  tss_eip :: u32
  tss_eflags :: u32
  tss_eax :: u32
  tss_ecx :: u32
  tss_edx :: u32
  tss_ebx :: u32
  tss_esp :: u32
  tss_ebp :: u32
  tss_esi :: u32
  tss_edi :: u32
  tss_es :: u32
  tss_cs :: u32
  tss_ss :: u32
  tss_ds :: u32
  tss_fs :: u32
  tss_gs :: u32
  tss_ldt :: u32
  tss_bitmap :: u32
  tss_i387 :: "u32 list"

record task_struct =
  state :: u32
  counter :: u32
  priority :: u32
  signal :: u32
  sigactions :: "nat \<Rightarrow> sigaction"
  blocked :: u32
  exit_code :: u32
  start_code :: u32
  end_code :: u32
  end_data :: u32
  brk :: u32
  start_stack :: u32
  pid :: u32
  father :: u32
  pgrp :: u32
  session :: u32
  leader :: u32
  uid :: u16
  euid :: u16
  suid :: u16
  gid :: u16
  egid :: u16
  sgid :: u16
  alarm :: u32
  utime :: u32
  stime :: u32
  cutime :: u32
  cstime :: u32
  start_time :: u32
  used_math :: u16
  tty :: u32
  ldt :: "nat \<Rightarrow> desc_struct"
  tss :: tss_struct

text \<open>The offsets of \<open>ldt\<close> and \<open>tss\<close> in the structure (32-bit ABI).\<close>

definition LDT_OFFSET :: u32 where
  "LDT_OFFSET = 620"

definition TSS_OFFSET :: u32 where
  "TSS_OFFSET = 644"

definition NR_TASKS :: nat where
  "NR_TASKS = 64"

definition HZ :: u32 where
  "HZ = 100"

definition TASK_RUNNING :: u32 where
  "TASK_RUNNING = 0"

definition TASK_INTERRUPTIBLE :: u32 where
  "TASK_INTERRUPTIBLE = 1"

definition TASK_UNINTERRUPTIBLE :: u32 where
  "TASK_UNINTERRUPTIBLE = 2"

definition TASK_ZOMBIE :: u32 where
  "TASK_ZOMBIE = 3"

definition TASK_STOPPED :: u32 where
  "TASK_STOPPED = 4"

lemmas task_states = TASK_RUNNING_def TASK_INTERRUPTIBLE_def TASK_UNINTERRUPTIBLE_def TASK_ZOMBIE_def
  TASK_STOPPED_def

text \<open>Signal \<open>n\<close> as a bit of a signal set, and the signals the code names.\<close>

definition sigbit :: "nat \<Rightarrow> u32" where
  "sigbit n = push_bit (n - 1) 1"

definition SIGKILL :: nat where
  "SIGKILL = 9"

definition SIGALRM :: nat where
  "SIGALRM = 14"

definition SIGCHLD :: nat where
  "SIGCHLD = 17"

definition SIGSTOP :: nat where
  "SIGSTOP = 19"

section \<open>The state of the kernel\<close>

text \<open>
  \<open>init_task\<close> is the address of the static descriptor of task 0, \<open>fpu\<close> the state of the
  coprocessor, \<open>outs\<close> the values written to the ports of the interrupt controllers, the timer and
  the keyboard controller, the last one first.
\<close>

record kern = mm +
  init_task :: u32
  task :: "nat \<Rightarrow> u32"
  tstruct :: "u32 \<Rightarrow> task_struct"
  current :: u32
  last_task_used_math :: u32
  jiffies :: u32
  last_pid :: u32
  gdt :: "nat \<Rightarrow> desc_struct"
  idt :: "nat \<Rightarrow> desc_struct"
  cell :: "u32 \<Rightarrow> u32"
  fpu :: "u32 list"
  outs :: "(u32 \<times> u8) list"

text \<open>An assignment through a pointer to a descriptor, and to a wait-queue variable.\<close>

definition upd_task :: "u32 \<Rightarrow> (task_struct \<Rightarrow> task_struct) \<Rightarrow> 'a kern_scheme \<Rightarrow> 'a kern_scheme" where
  "upd_task p f s = s\<lparr>tstruct := (tstruct s)(p := f (tstruct s p))\<rparr>"

definition set_cell :: "u32 \<Rightarrow> u32 \<Rightarrow> 'a kern_scheme \<Rightarrow> 'a kern_scheme" where
  "set_cell p v s = s\<lparr>cell := (cell s)(p := v)\<rparr>"

text \<open>\<open>outb\<close> and \<open>outb_p\<close>, which differ in a delay. What \<open>inb\<close> reads is a parameter of the operations
  that read: a function of the values written before.\<close>

definition port_out :: "u32 \<Rightarrow> u8 \<Rightarrow> 'a kern_scheme \<Rightarrow> 'a kern_scheme" where
  "port_out p v s = s\<lparr>outs := (p, v) # outs s\<rparr>"

lemma upd_task_simps [simp]:
  "tstruct (upd_task p f s) = (tstruct s)(p := f (tstruct s p))" "task (upd_task p f s) = task s"
  "current (upd_task p f s) = current s" "init_task (upd_task p f s) = init_task s"
  "jiffies (upd_task p f s) = jiffies s" "last_pid (upd_task p f s) = last_pid s"
  "cell (upd_task p f s) = cell s" "gdt (upd_task p f s) = gdt s" "idt (upd_task p f s) = idt s"
  "last_task_used_math (upd_task p f s) = last_task_used_math s" "fpu (upd_task p f s) = fpu s"
  "mem_map (upd_task p f s) = mem_map s" "phys (upd_task p f s) = phys s"
  "HIGH_MEMORY (upd_task p f s) = HIGH_MEMORY s" "klog (upd_task p f s) = klog s"
  "kern.more (upd_task p f s) = kern.more s" "outs (upd_task p f s) = outs s"
  by (simp_all add: upd_task_def)

lemma set_cell_simps [simp]:
  "cell (set_cell p v s) = (cell s)(p := v)" "tstruct (set_cell p v s) = tstruct s"
  "task (set_cell p v s) = task s" "current (set_cell p v s) = current s"
  "init_task (set_cell p v s) = init_task s" "jiffies (set_cell p v s) = jiffies s"
  "last_pid (set_cell p v s) = last_pid s" "gdt (set_cell p v s) = gdt s" "idt (set_cell p v s) = idt s"
  "outs (set_cell p v s) = outs s"
  by (simp_all add: set_cell_def)

lemma port_out_simps [simp]:
  "outs (port_out p v s) = (p, v) # outs s" "task (port_out p v s) = task s" "tstruct (port_out p v s) = tstruct s"
  "current (port_out p v s) = current s" "init_task (port_out p v s) = init_task s" "gdt (port_out p v s) = gdt s"
  "idt (port_out p v s) = idt s" "jiffies (port_out p v s) = jiffies s" "last_pid (port_out p v s) = last_pid s"
  by (simp_all add: port_out_def)

text \<open>
  A well-formed task table: task 0 is the static descriptor, the current task is in the
  table, and no descriptor has two entries.
\<close>

definition wf_tasks :: "'a kern_scheme \<Rightarrow> bool" where
  "wf_tasks s \<longleftrightarrow> task s 0 = init_task s \<and> init_task s \<noteq> 0 \<and> current s \<noteq> 0 \<and>
     (\<exists>i < 64. task s i = current s) \<and>
     (\<forall>i < 64. \<forall>j < 64. task s i = task s j \<and> task s i \<noteq> 0 \<longrightarrow> i = j)"

lemma NR_TASKS_eq [simp]: "NR_TASKS = 64"
  by (simp add: NR_TASKS_def)

lemma wf_tasksD:
  assumes "wf_tasks s"
  shows "task s 0 = init_task s" "init_task s \<noteq> 0" "current s \<noteq> 0" "\<exists>i < 64. task s i = current s"
    "\<And>i j. i < 64 \<Longrightarrow> j < 64 \<Longrightarrow> task s i \<noteq> 0 \<Longrightarrow> task s i = task s j \<longleftrightarrow> i = j"
  using assms by (auto simp: wf_tasks_def)

end
