(* ===== verification/Sched.thy ===== *)
theory Sched
  imports Tasks
begin

text \<open>
  The scheduler (kernel/sched.c): choosing the next task, sleeping on and waking a wait
  queue, the timer tick, alarms, and the set-up of the task table. A call of \<open>schedule\<close>
  ends with a task switch; what the other tasks and the interrupts do until the calling
  task runs again is the parameter \<open>others\<close>, a function of the state at the switch.
\<close>

section \<open>Operations\<close>

type_synonym 'a env = "'a kern_scheme \<Rightarrow> kerror + 'a kern_scheme"

definition BLOCKABLE :: u32 where
  "BLOCKABLE = NOT (sigbit SIGKILL OR sigbit SIGSTOP)"

text \<open>The body of the first loop of \<open>schedule\<close>, for the task at \<open>p\<close>, and the loop itself.\<close>

definition check_signals :: "u32 \<Rightarrow> 'a kern_scheme \<Rightarrow> 'a kern_scheme" where
  "check_signals p s =
     (let t = tstruct s p;
          t1 = (if alarm t \<noteq> 0 \<and> alarm t <s jiffies s
                then t\<lparr>signal := signal t OR sigbit SIGALRM, alarm := 0\<rparr> else t);
          t2 = (if signal t1 AND (BLOCKABLE AND NOT (blocked t1)) \<noteq> 0 \<and> state t1 = TASK_INTERRUPTIBLE
                then t1\<lparr>state := TASK_RUNNING\<rparr> else t1) in
      upd_task p (\<lambda>_. t2) s)"

fun wake_signalled :: "nat \<Rightarrow> 'a kern_scheme \<Rightarrow> 'a kern_scheme" where
  "wake_signalled 0 s = s"
| "wake_signalled (Suc n) s =
     wake_signalled n (if task s (Suc n) \<noteq> 0 then check_signals (task s (Suc n)) s else s)"

text \<open>The inner loop: the highest counter \<open>c\<close> so far and its task number, from \<open>n\<close> down to 1.\<close>

fun pick_task :: "nat \<Rightarrow> 'a kern_scheme \<Rightarrow> u32 \<Rightarrow> nat \<Rightarrow> u32 \<times> nat" where
  "pick_task 0 s c nxt = (c, nxt)"
| "pick_task (Suc n) s c nxt =
     (if task s (Suc n) \<noteq> 0 \<and> state (tstruct s (task s (Suc n))) = TASK_RUNNING \<and>
         c <s counter (tstruct s (task s (Suc n)))
      then pick_task n s (counter (tstruct s (task s (Suc n)))) (Suc n)
      else pick_task n s c nxt)"

text \<open>Every task gets half of its counter plus its priority.\<close>

fun recharge :: "nat \<Rightarrow> 'a kern_scheme \<Rightarrow> 'a kern_scheme" where
  "recharge 0 s = s"
| "recharge (Suc n) s =
     recharge n (if task s (Suc n) \<noteq> 0
       then upd_task (task s (Suc n)) (\<lambda>t. t\<lparr>counter := signed_drop_bit 1 (counter t) + priority t\<rparr>) s
       else s)"

text \<open>The loop \<open>while(1)\<close>; it has no result when it does not end.\<close>

partial_function (option) pick_loop :: "'a kern_scheme \<Rightarrow> (nat \<times> 'a kern_scheme) option" where
  "pick_loop s =
     (case pick_task (NR_TASKS - 1) s (-1) 0 of (c, nxt) \<Rightarrow>
        if c \<noteq> 0 then Some (nxt, s) else pick_loop (recharge (NR_TASKS - 1) s))"

definition switch_to :: "'a env \<Rightarrow> nat \<Rightarrow> 'a kern_scheme \<Rightarrow> kerror + 'a kern_scheme" where
  "switch_to others n s =
     (if task s n = current s then Inr s else others (s\<lparr>current := task s n\<rparr>))"

definition schedule :: "'a env \<Rightarrow> 'a kern_scheme \<Rightarrow> kerror + 'a kern_scheme" where
  "schedule others s =
     (case pick_loop (wake_signalled (NR_TASKS - 1) s) of
        None \<Rightarrow> Inl Hang
      | Some (nxt, s1) \<Rightarrow> switch_to others nxt s1)"

text \<open>What \<open>sleep_on\<close> and \<open>interruptible_sleep_on\<close> do when the task runs again.\<close>

definition sleep_done :: "u32 \<Rightarrow> u32 \<Rightarrow> 'a kern_scheme \<Rightarrow> 'a kern_scheme" where
  "sleep_done p tmp s =
     (let s1 = set_cell p tmp s in
      if tmp \<noteq> 0 then upd_task tmp (\<lambda>t. t\<lparr>state := TASK_RUNNING\<rparr>) s1 else s1)"

definition sleep_on :: "'a env \<Rightarrow> u32 \<Rightarrow> 'a kern_scheme \<Rightarrow> kerror + 'a kern_scheme" where
  "sleep_on others p s =
     (if p = 0 then Inr s
      else if current s = init_task s then Inl (Panic ''task[0] trying to sleep'')
      else
        let tmp = cell s p;
            s1 = set_cell p (current s) s;
            s2 = upd_task (current s1) (\<lambda>t. t\<lparr>state := TASK_UNINTERRUPTIBLE\<rparr>) s1 in
        kbind (schedule others s2) (\<lambda>s3. Inr (sleep_done p tmp s3)))"

definition wake_up :: "u32 \<Rightarrow> 'a kern_scheme \<Rightarrow> 'a kern_scheme" where
  "wake_up p s =
     (if p \<noteq> 0 \<and> cell s p \<noteq> 0
      then set_cell p 0 (upd_task (cell s p) (\<lambda>t. t\<lparr>state := TASK_RUNNING\<rparr>) s) else s)"

text \<open>The loop at \<open>rep_label\<close> of \<open>interruptible_sleep_on\<close>.\<close>

partial_function (option) rep_sleep ::
    "'a env \<Rightarrow> u32 \<Rightarrow> 'a kern_scheme \<Rightarrow> (kerror + 'a kern_scheme) option" where
  "rep_sleep others p s =
     (let r = schedule others (upd_task (current s) (\<lambda>t. t\<lparr>state := TASK_INTERRUPTIBLE\<rparr>) s) in
      if isl r then Some r
      else
        let s1 = projr r in
        if cell s1 p \<noteq> 0 \<and> cell s1 p \<noteq> current s1
        then rep_sleep others p (upd_task (cell s1 p) (\<lambda>t. t\<lparr>state := TASK_RUNNING\<rparr>) s1)
        else Some (Inr s1))"

definition interruptible_sleep_on :: "'a env \<Rightarrow> u32 \<Rightarrow> 'a kern_scheme \<Rightarrow> kerror + 'a kern_scheme" where
  "interruptible_sleep_on others p s =
     (if p = 0 then Inr s
      else if current s = init_task s then Inl (Panic ''task[0] trying to sleep'')
      else
        let tmp = cell s p in
        (case rep_sleep others p (set_cell p (current s) s) of
           None \<Rightarrow> Inl Hang
         | Some r \<Rightarrow> kbind r (\<lambda>s3. Inr (sleep_done p tmp s3))))"

definition sys_pause :: "'a env \<Rightarrow> 'a kern_scheme \<Rightarrow> kerror + u32 \<times> 'a kern_scheme" where
  "sys_pause others s =
     kbind (schedule others (upd_task (current s) (\<lambda>t. t\<lparr>state := TASK_INTERRUPTIBLE\<rparr>) s))
       (\<lambda>s1. Inr (0, s1))"

definition sys_alarm :: "u32 \<Rightarrow> 'a kern_scheme \<Rightarrow> u32 \<times> 'a kern_scheme" where
  "sys_alarm seconds s =
     (let old = alarm (tstruct s (current s));
          old = (if old \<noteq> 0 then c_div (old - jiffies s) HZ else old) in
      (old, upd_task (current s)
         (\<lambda>t. t\<lparr>alarm := if 0 <s seconds then jiffies s + HZ * seconds else 0\<rparr>) s))"

text \<open>kernel/sys.c\<close>

definition sys_sleep :: "'a env \<Rightarrow> u32 \<Rightarrow> 'a kern_scheme \<Rightarrow> kerror + u32 \<times> 'a kern_scheme" where
  "sys_sleep others seconds s =
     (let s1 = snd (sys_alarm seconds s) in
      kbind (schedule others (upd_task (current s1) (\<lambda>t. t\<lparr>state := TASK_INTERRUPTIBLE\<rparr>) s1)) (\<lambda>s2.
        Inr (0, upd_task (current s2) (\<lambda>t. t\<lparr>signal := signal t AND NOT (sigbit SIGALRM)\<rparr>) s2)))"

definition do_timer :: "'a env \<Rightarrow> u32 \<Rightarrow> 'a kern_scheme \<Rightarrow> kerror + 'a kern_scheme" where
  "do_timer others cpl s =
     (let me = current s;
          s1 = upd_task me (\<lambda>t. if cpl = 0 then t\<lparr>stime := stime t + 1\<rparr> else t\<lparr>utime := utime t + 1\<rparr>) s;
          s2 = upd_task me (\<lambda>t. t\<lparr>counter := counter t - 1\<rparr>) s1 in
      if 0 <s counter (tstruct s2 me) then Inr s2
      else
        let s3 = upd_task me (\<lambda>t. t\<lparr>counter := 0\<rparr>) s2 in
        if cpl = 0 then Inr s3 else schedule others s3)"

text \<open>The interrupt handler of kernel/system_call.s around it, up to \<open>ret_from_syscall\<close>.\<close>

definition timer_interrupt :: "'a env \<Rightarrow> u32 \<Rightarrow> 'a kern_scheme \<Rightarrow> kerror + 'a kern_scheme" where
  "timer_interrupt others cs s = do_timer others (cs AND 3) (port_out 0x20 0x20 (s\<lparr>jiffies := jiffies s + 1\<rparr>))"

text \<open>The loop of \<open>sched_init\<close> for the tasks from \<open>i\<close> on.\<close>

fun clear_tasks :: "nat \<Rightarrow> nat \<Rightarrow> 'a kern_scheme \<Rightarrow> 'a kern_scheme" where
  "clear_tasks 0 i s = s"
| "clear_tasks (Suc n) i s =
     clear_tasks n (Suc i) (s\<lparr>task := (task s)(i := 0),
       gdt := (gdt s)(2 * i + FIRST_TSS_ENTRY := \<lparr>desc_a = 0, desc_b = 0\<rparr>,
                      2 * i + FIRST_LDT_ENTRY := \<lparr>desc_a = 0, desc_b = 0\<rparr>)\<rparr>)"

definition sched_init :: "((u32 \<times> u8) list \<Rightarrow> u32 \<Rightarrow> u8) \<Rightarrow> u32 \<Rightarrow> u32 \<Rightarrow> 'a kern_scheme \<Rightarrow> 'a kern_scheme" where
  "sched_init inb timer_entry system_call_entry s =
     (let divisor = c_div 1193180 HZ;
          s1 = s\<lparr>gdt := (gdt s)(FIRST_TSS_ENTRY := set_tss_desc (init_task s + TSS_OFFSET),
                               FIRST_LDT_ENTRY := set_ldt_desc (init_task s + LDT_OFFSET))\<rparr>;
          s2 = clear_tasks (NR_TASKS - 1) 1 s1 in
      let s3 = port_out 0x40 (ucast (drop_bit 8 divisor)) (port_out 0x40 (ucast (divisor AND 0xFF)) (port_out 0x43 0x36 s2));
          s4 = s3\<lparr>idt := set_intr_gate 0x20 timer_entry (idt s3)\<rparr>;
          s5 = port_out 0x21 (inb (outs s4) 0x21 AND NOT 0x01) s4 in
      s5\<lparr>idt := set_system_gate 0x80 system_call_entry (idt s5)\<rparr>)"

section \<open>The loops over the task table\<close>

definition alarmed :: "u32 \<Rightarrow> task_struct \<Rightarrow> task_struct" where
  "alarmed j t = (if alarm t \<noteq> 0 \<and> alarm t <s j
     then t\<lparr>signal := signal t OR sigbit SIGALRM, alarm := 0\<rparr> else t)"

definition awoken :: "task_struct \<Rightarrow> task_struct" where
  "awoken t = (if signal t AND (BLOCKABLE AND NOT (blocked t)) \<noteq> 0 \<and> state t = TASK_INTERRUPTIBLE
     then t\<lparr>state := TASK_RUNNING\<rparr> else t)"

definition signalled :: "u32 \<Rightarrow> task_struct \<Rightarrow> task_struct" where
  "signalled j t = awoken (alarmed j t)"

lemma check_signals_eq: "check_signals p s = upd_task p (signalled (jiffies s)) s"
  unfolding check_signals_def signalled_def alarmed_def awoken_def Let_def upd_task_def by (rule refl)

lemma alarmed_awoken: "alarmed j (awoken (alarmed j t)) = awoken (alarmed j t)"
proof -
  have "alarm (awoken (alarmed j t)) = 0 \<or> \<not> alarm (awoken (alarmed j t)) <s j" by (simp add: alarmed_def awoken_def)
  then show ?thesis by (auto simp: alarmed_def [of j "awoken (alarmed j t)"])
qed

lemma awoken_idem: "awoken (awoken t) = awoken t"
  by (auto simp: awoken_def task_states)

lemma signalled_idem [simp]: "signalled j (signalled j t) = signalled j t"
  by (simp add: signalled_def alarmed_awoken awoken_idem)

text \<open>The tasks from 1 to \<open>n\<close>.\<close>

definition in_table :: "nat \<Rightarrow> 'a kern_scheme \<Rightarrow> u32 \<Rightarrow> bool" where
  "in_table n s p \<longleftrightarrow> p \<noteq> 0 \<and> (\<exists>i. 1 \<le> i \<and> i \<le> n \<and> task s i = p)"

lemma in_table_0 [simp]: "\<not> in_table 0 s p"
  by (simp add: in_table_def)

lemma in_table_Suc:
  "in_table (Suc n) s p \<longleftrightarrow> p \<noteq> 0 \<and> task s (Suc n) = p \<or> in_table n s p"
  by (auto simp: in_table_def le_Suc_eq)

lemma in_table_upd [simp]: "in_table n (upd_task q f s) = in_table n s"
  by (simp add: in_table_def fun_eq_iff)

lemma upd_task_eq: "upd_task p f s = s\<lparr>tstruct := (\<lambda>q. if q = p then f (tstruct s q) else tstruct s q)\<rparr>"
  by (auto simp: upd_task_def fun_eq_iff intro!: arg_cong [where f = "\<lambda>x. s\<lparr>tstruct := x\<rparr>"])

lemma wake_signalled_eq:
  "wake_signalled n s =
     s\<lparr>tstruct := (\<lambda>p. if in_table n s p then signalled (jiffies s) (tstruct s p) else tstruct s p)\<rparr>"
proof (induction n arbitrary: s)
  case 0
  then show ?case by simp
next
  case (Suc n)
  show ?case
  proof (cases "task s (Suc n) = 0")
    case True
    then show ?thesis by (simp add: Suc.IH in_table_Suc)
  next
    case False
    let ?p = "task s (Suc n)" and ?f = "signalled (jiffies s)"
    have h: "(\<lambda>q. if in_table n s q then ?f (((tstruct s)(?p := ?f (tstruct s ?p))) q)
          else ((tstruct s)(?p := ?f (tstruct s ?p))) q) =
        (\<lambda>q. if in_table (Suc n) s q then ?f (tstruct s q) else tstruct s q)"
      using False by (intro ext) (auto simp: in_table_Suc)
    have "wake_signalled (Suc n) s = (upd_task ?p ?f s)\<lparr>tstruct := (\<lambda>q. if in_table n s q
        then ?f (((tstruct s)(?p := ?f (tstruct s ?p))) q) else ((tstruct s)(?p := ?f (tstruct s ?p))) q)\<rparr>"
      using False by (simp add: Suc.IH check_signals_eq del: fun_upd_apply cong: if_cong)
    then show ?thesis unfolding h by (simp add: upd_task_def)
  qed
qed

definition distinct_tasks :: "'a kern_scheme \<Rightarrow> bool" where
  "distinct_tasks s \<longleftrightarrow> (\<forall>i < 64. \<forall>j < 64. task s i = task s j \<and> task s i \<noteq> 0 \<longrightarrow> i = j)"

definition recharged :: "task_struct \<Rightarrow> task_struct" where
  "recharged t = t\<lparr>counter := signed_drop_bit 1 (counter t) + priority t\<rparr>"

lemma recharge_eq:
  assumes "distinct_tasks s" "n < 64"
  shows "recharge n s = s\<lparr>tstruct := (\<lambda>p. if in_table n s p then recharged (tstruct s p) else tstruct s p)\<rparr>"
  using assms
proof (induction n arbitrary: s)
  case 0
  then show ?case by simp
next
  case (Suc n)
  let ?p = "task s (Suc n)"
  show ?case
  proof (cases "?p = 0")
    case True
    then show ?thesis using Suc by (simp add: in_table_Suc)
  next
    case False
    have no: "\<not> in_table n s ?p"
    proof
      assume "in_table n s ?p"
      then obtain i where "1 \<le> i" "i \<le> n" "task s i = ?p" by (auto simp: in_table_def)
      moreover from this have "i = Suc n"
        using Suc.prems(1) [unfolded distinct_tasks_def, rule_format, of i "Suc n"] Suc.prems(2) False by simp
      ultimately show False by simp
    qed
    have "distinct_tasks (upd_task ?p recharged s)" using Suc.prems(1) by (simp add: distinct_tasks_def)
    then have "recharge (Suc n) s = (upd_task ?p recharged s)\<lparr>tstruct := (\<lambda>p. if in_table n s p
        then recharged (tstruct (upd_task ?p recharged s) p) else tstruct (upd_task ?p recharged s) p)\<rparr>"
      using Suc.IH [of "upd_task ?p recharged s"] Suc.prems(2) False by (simp add: recharged_def [abs_def])
    then show ?thesis
      using no False by (auto simp: in_table_Suc upd_task_def fun_eq_iff
          intro!: arg_cong [where f = "\<lambda>x. s\<lparr>tstruct := x\<rparr>"])
  qed
qed

text \<open>A task that has no time slice and no priority stays as it is.\<close>

lemma same_counter: "counter t = c \<Longrightarrow> t\<lparr>counter := c\<rparr> = t"
  by (cases t) simp

lemma recharge_idle:
  assumes "counter (tstruct s p) = 0" "priority (tstruct s p) = 0"
  shows "tstruct (recharge n s) p = tstruct s p"
  using assms
proof (induction n arbitrary: s)
  case 0
  then show ?case by simp
next
  case (Suc n)
  let ?s = "upd_task (task s (Suc n)) (\<lambda>t. t\<lparr>counter := signed_drop_bit 1 (counter t) + priority t\<rparr>) s"
  have "tstruct ?s p = tstruct s p"
    by (cases "p = task s (Suc n)") (use Suc.prems in \<open>simp_all add: same_counter\<close>)
  then show ?case using Suc.IH [of ?s] Suc.IH [of s] Suc.prems by simp
qed

lemma recharge_task [simp]: "task (recharge n s) = task s" "current (recharge n s) = current s"
  "init_task (recharge n s) = init_task s"
  by (induction n arbitrary: s) auto

lemma recharge_state [simp]:
  "state (tstruct (recharge n s) p) = state (tstruct s p)"
  "priority (tstruct (recharge n s) p) = priority (tstruct s p)"
  by (induction n arbitrary: s) auto

section \<open>Choosing a task\<close>

definition runnable :: "'a kern_scheme \<Rightarrow> nat set" where
  "runnable s = {i. 1 \<le> i \<and> i < 64 \<and> task s i \<noteq> 0 \<and> state (tstruct s (task s i)) = TASK_RUNNING}"

abbreviation slice :: "'a kern_scheme \<Rightarrow> nat \<Rightarrow> int" where
  "slice s i \<equiv> sint (counter (tstruct s (task s i)))"

lemma pick_task_spec:
  assumes "pick_task n s c nxt = (c', nxt')" "n < 64"
  shows "(\<forall>i \<in> runnable s. i \<le> n \<longrightarrow> slice s i \<le> sint c') \<and> sint c \<le> sint c' \<and>
    (c' = c \<and> nxt' = nxt \<or> nxt' \<in> runnable s \<and> nxt' \<le> n \<and> counter (tstruct s (task s nxt')) = c' \<and> sint c < sint c')"
  using assms
proof (induction n arbitrary: c nxt)
  case 0
  then show ?case by (auto simp: runnable_def)
next
  case (Suc n)
  let ?t = "tstruct s (task s (Suc n))"
  let ?take = "task s (Suc n) \<noteq> 0 \<and> state ?t = TASK_RUNNING \<and> c <s counter ?t"
  have last: "i \<in> runnable s \<and> i \<le> Suc n \<longleftrightarrow> i \<in> runnable s \<and> (i \<le> n \<or> i = Suc n)" for i by auto
  show ?case
  proof (cases ?take)
    case True
    then have "pick_task n s (counter ?t) (Suc n) = (c', nxt')" using Suc.prems(1) by simp
    moreover have "Suc n \<in> runnable s" using True Suc.prems(2) by (simp add: runnable_def)
    ultimately show ?thesis
      using Suc.IH [of "counter ?t" "Suc n"] True Suc.prems(2) by (auto simp: word_sless_alt le_Suc_eq)
  next
    case False
    then have "pick_task n s c nxt = (c', nxt')" using Suc.prems(1) by auto
    moreover have "Suc n \<in> runnable s \<Longrightarrow> slice s (Suc n) \<le> sint c"
      using False by (auto simp: runnable_def word_sless_alt)
    ultimately show ?thesis
      using Suc.IH [of c nxt] Suc.prems(2) by (auto simp: le_Suc_eq)
  qed
qed

lemma pick_task_empty: "runnable s = {} \<Longrightarrow> n < 64 \<Longrightarrow> pick_task n s c nxt = (c, nxt)"
  using pick_task_spec [of n s c nxt] by (cases "pick_task n s c nxt") auto

text \<open>Time slices as \<open>fork\<close> and the scheduler keep them: between 0 and twice a positive priority.\<close>

definition sched_ok :: "'a kern_scheme \<Rightarrow> bool" where
  "sched_ok s \<longleftrightarrow> wf_tasks s \<and> (\<forall>i. 1 \<le> i \<and> i < 64 \<and> task s i \<noteq> 0 \<longrightarrow>
     0 < sint (priority (tstruct s (task s i))) \<and> sint (priority (tstruct s (task s i))) \<le> 536870912 \<and>
     0 \<le> slice s i \<and> slice s i \<le> 2 * sint (priority (tstruct s (task s i))))"

lemma sched_okD:
  assumes "sched_ok s" "1 \<le> i" "i < 64" "task s i \<noteq> 0"
  shows "0 < sint (priority (tstruct s (task s i)))" "sint (priority (tstruct s (task s i))) \<le> 536870912"
    "0 \<le> slice s i" "slice s i \<le> 2 * sint (priority (tstruct s (task s i)))"
  using assms by (auto simp: sched_ok_def)

lemma wf_distinct: "wf_tasks s \<Longrightarrow> distinct_tasks s"
  unfolding wf_tasks_def distinct_tasks_def by blast

lemma sched_ok_cong:
  assumes "sched_ok s" "task s' = task s" "current s' = current s" "init_task s' = init_task s"
    and "\<And>i. 1 \<le> i \<Longrightarrow> i < 64 \<Longrightarrow> task s i \<noteq> 0 \<Longrightarrow>
      priority (tstruct s' (task s i)) = priority (tstruct s (task s i)) \<and>
      0 \<le> slice s' i \<and> slice s' i \<le> 2 * sint (priority (tstruct s (task s i)))"
  shows "sched_ok s'"
  using assms unfolding sched_ok_def wf_tasks_def by auto

lemma sched_ok_recharge:
  assumes "sched_ok s"
  shows "sched_ok (recharge 63 s)"
    and "\<And>i. 1 \<le> i \<Longrightarrow> i < 64 \<Longrightarrow> task s i \<noteq> 0 \<Longrightarrow>
      slice (recharge 63 s) i = slice s i div 2 + sint (priority (tstruct s (task s i)))"
proof -
  have di: "distinct_tasks s" using assms by (simp add: sched_ok_def wf_distinct)
  show *: "slice (recharge 63 s) i = slice s i div 2 + sint (priority (tstruct s (task s i)))"
    if i: "1 \<le> i" "i < 64" "task s i \<noteq> 0" for i
  proof -
    note ok = sched_okD [OF assms i]
    have "in_table 63 s (task s i)" using i by (auto simp: in_table_def)
    then have "counter (tstruct (recharge 63 s) (task s i)) =
        signed_drop_bit 1 (counter (tstruct s (task s i))) + priority (tstruct s (task s i))"
      using recharge_eq [OF di, of 63] by (simp add: recharged_def)
    moreover have "0 \<le> slice s i div 2" "slice s i div 2 \<le> 536870912" using ok by linarith+
    ultimately show ?thesis
      using ok sint_add_small [of "signed_drop_bit 1 (counter (tstruct s (task s i)))" "priority (tstruct s (task s i))"]
      unfolding sint_half by simp
  qed
  show "sched_ok (recharge 63 s)"
  proof (rule sched_ok_cong [OF assms])
    fix i assume i: "1 \<le> i" "i < 64" "task s i \<noteq> 0"
    note ok = sched_okD [OF assms i]
    have "0 \<le> slice s i div 2" "slice s i div 2 \<le> sint (priority (tstruct s (task s i)))" using ok by linarith+
    then show "priority (tstruct (recharge 63 s) (task s i)) = priority (tstruct s (task s i)) \<and>
      0 \<le> slice (recharge 63 s) i \<and> slice (recharge 63 s) i \<le> 2 * sint (priority (tstruct s (task s i)))"
      using ok by (simp add: * [OF i, unfolded recharge_task])
  qed simp_all
qed

lemma runnable_recharge [simp]: "runnable (recharge n s) = runnable s"
  by (simp add: runnable_def)

lemma pick_loop_spec:
  assumes "sched_ok s"
  shows "\<exists>nxt s1. pick_loop s = Some (nxt, s1) \<and> sched_ok s1 \<and> runnable s1 = runnable s \<and>
    (if runnable s = {} then nxt = 0 \<and> s1 = s
     else nxt \<in> runnable s \<and> 0 < slice s1 nxt \<and> (\<forall>i \<in> runnable s. slice s1 i \<le> slice s1 nxt)) \<and>
    (s1 = s \<or> s1 = recharge 63 s \<and> (\<forall>i \<in> runnable s. slice s i = 0))"
proof -
  obtain c nxt where pt: "pick_task 63 s (-1) 0 = (c, nxt)" by fastforce
  then have sp: "\<forall>i \<in> runnable s. i \<le> 63 \<longrightarrow> slice s i \<le> sint c" "-1 \<le> sint c"
    "c = -1 \<and> nxt = 0 \<or> nxt \<in> runnable s \<and> nxt \<le> 63 \<and> counter (tstruct s (task s nxt)) = c \<and> -1 < sint c"
    using pick_task_spec [OF pt] by auto
  have le: "i \<in> runnable s \<Longrightarrow> i \<le> 63" for i by (simp add: runnable_def)
  have nn: "0 \<le> slice s i" if "i \<in> runnable s" for i
    using sched_okD(3) [OF assms, of i] that by (simp add: runnable_def)
  show ?thesis
  proof (cases "runnable s = {}")
    case True
    then have "c = -1" "nxt = 0" using sp(3) by auto
    then have "pick_loop s = Some (0, s)" using pt by (subst pick_loop.simps) simp
    with True assms show ?thesis by auto
  next
    case False
    then obtain i where i: "i \<in> runnable s" by blast
    have c0: "0 \<le> sint c" using nn [OF i] sp(1) le [OF i] i by fastforce
    then have nx: "nxt \<in> runnable s" "counter (tstruct s (task s nxt)) = c" using sp(3) by auto
    show ?thesis
    proof (cases "c = 0")
      case False
      then have "0 < sint c" using c0 sint_0_iff [of c] by linarith
      moreover have "pick_loop s = Some (nxt, s)" using pt False by (subst pick_loop.simps) simp
      ultimately show ?thesis using assms nx sp(1) le \<open>runnable s \<noteq> {}\<close> by auto
    next
      case True
      let ?r = "recharge 63 s"
      note rc = sched_ok_recharge [OF assms]
      have zero: "slice s i = 0" if "i \<in> runnable s" for i
        using nn [OF that] sp(1) le [OF that] that True by fastforce
      have pos: "slice ?r i = sint (priority (tstruct s (task s i)))" "0 < slice ?r i" if "i \<in> runnable s" for i
        using rc(2) [of i] zero [OF that] sched_okD(1) [OF assms, of i] that by (simp_all add: runnable_def)
      obtain c' nxt' where pt': "pick_task 63 ?r (-1) 0 = (c', nxt')" by fastforce
      then have sp': "\<forall>i \<in> runnable s. i \<le> 63 \<longrightarrow> slice ?r i \<le> sint c'"
        "c' = -1 \<and> nxt' = 0 \<or> nxt' \<in> runnable s \<and> nxt' \<le> 63 \<and> counter (tstruct ?r (task s nxt')) = c' \<and> -1 < sint c'"
        using pick_task_spec [OF pt'] by auto
      have "0 < sint c'" using pos(2) [OF i] sp'(1) le [OF i] i by fastforce
      then have nx': "nxt' \<in> runnable s" "counter (tstruct ?r (task s nxt')) = c'" "c' \<noteq> 0" using sp'(2) by auto
      have "pick_loop s = pick_loop ?r" using pt True by (subst pick_loop.simps) simp
      also have "\<dots> = Some (nxt', ?r)" using pt' nx'(3) by (subst pick_loop.simps) simp
      finally show ?thesis
        using rc(1) nx' sp'(1) le \<open>0 < sint c'\<close> \<open>runnable s \<noteq> {}\<close> zero by auto
    qed
  qed
qed

lemma sched_ok_wake_signalled: "sched_ok s \<Longrightarrow> sched_ok (wake_signalled n s)"
  by (rule sched_ok_cong) (auto simp: wake_signalled_eq signalled_def alarmed_def awoken_def sched_okD)

lemma wake_signalled_simps [simp]:
  "task (wake_signalled n s) = task s" "current (wake_signalled n s) = current s"
  "init_task (wake_signalled n s) = init_task s" "cell (wake_signalled n s) = cell s"
  "jiffies (wake_signalled n s) = jiffies s"
  by (simp_all add: wake_signalled_eq)

lemma recharge_cell [simp]: "cell (recharge n s) = cell s" "jiffies (recharge n s) = jiffies s"
  by (induction n arbitrary: s) auto

lemma schedule_switches:
  assumes "sched_ok s"
  obtains nxt s1 where "schedule others s = switch_to others nxt s1" "sched_ok s1"
    "runnable s1 = runnable (wake_signalled 63 s)"
    "if runnable s1 = {} then nxt = 0
     else nxt \<in> runnable s1 \<and> 0 < slice s1 nxt \<and> (\<forall>i \<in> runnable s1. slice s1 i \<le> slice s1 nxt)"
    "s1 = wake_signalled 63 s \<or> s1 = recharge 63 (wake_signalled 63 s)"
proof -
  from pick_loop_spec [OF sched_ok_wake_signalled [OF assms, of 63]]
  obtain nxt s1 where p: "pick_loop (wake_signalled 63 s) = Some (nxt, s1)" "sched_ok s1"
    "runnable s1 = runnable (wake_signalled 63 s)"
    "if runnable (wake_signalled 63 s) = {} then nxt = 0 \<and> s1 = wake_signalled 63 s
     else nxt \<in> runnable (wake_signalled 63 s) \<and> 0 < slice s1 nxt \<and>
       (\<forall>i \<in> runnable (wake_signalled 63 s). slice s1 i \<le> slice s1 nxt)"
    "s1 = wake_signalled 63 s \<or> s1 = recharge 63 (wake_signalled 63 s)" by blast
  then show thesis by (intro that [of nxt s1]) (simp_all add: schedule_def split: if_splits)
qed

section \<open>Properties\<close>

text \<open>A table with three tasks besides task 0, for closed examples: 1 and 2 can run, 3 sleeps.\<close>

definition blank_task :: task_struct where
  "blank_task = \<lparr>state = 0, counter = 15, priority = 15, signal = 0,
     sigactions = (\<lambda>_. \<lparr>sa_handler = 0, sa_mask = 0, sa_flags = 0, sa_restorer = 0\<rparr>), blocked = 0, exit_code = 0,
     start_code = 0, end_code = 0, end_data = 0, brk = 0, start_stack = 0, pid = 0, father = -1, pgrp = 0,
     session = 0, leader = 0, uid = 0, euid = 0, suid = 0, gid = 0, egid = 0, sgid = 0, alarm = 0, utime = 0,
     stime = 0, cutime = 0, cstime = 0, start_time = 0, used_math = 0, tty = -1,
     ldt = (\<lambda>_. \<lparr>desc_a = 0x9f, desc_b = 0xc0f200\<rparr>),
     tss = \<lparr>tss_back_link = 0, tss_esp0 = 0, tss_ss0 = 0, tss_esp1 = 0, tss_ss1 = 0, tss_esp2 = 0, tss_ss2 = 0,
       tss_cr3 = 0, tss_eip = 0, tss_eflags = 0, tss_eax = 0, tss_ecx = 0, tss_edx = 0, tss_ebx = 0, tss_esp = 0,
       tss_ebp = 0, tss_esi = 0, tss_edi = 0, tss_es = 0x17, tss_cs = 0x17, tss_ss = 0x17, tss_ds = 0x17,
       tss_fs = 0x17, tss_gs = 0x17, tss_ldt = 0x28, tss_bitmap = 0x80000000, tss_i387 = []\<rparr>\<rparr>"

definition three_tasks :: kern where
  "three_tasks = mm.extend all_free
     \<lparr>init_task = 0x20000,
      task = (\<lambda>_. 0)(0 := 0x20000, 1 := 0xfff000, 2 := 0xffe000, 3 := 0xffd000),
      tstruct = (\<lambda>_. blank_task)(0xfff000 := blank_task\<lparr>counter := 3, pid := 1, father := 0\<rparr>,
        0xffe000 := blank_task\<lparr>counter := 7, pid := 2, father := 1\<rparr>,
        0xffd000 := blank_task\<lparr>state := 1, alarm := 5, pid := 3, father := 1\<rparr>),
      current = 0xfff000, last_task_used_math = 0, jiffies = 9, last_pid = 3, gdt = (\<lambda>_. \<lparr>desc_a = 0, desc_b = 0\<rparr>),
      idt = (\<lambda>_. \<lparr>desc_a = 0, desc_b = 0\<rparr>), cell = (\<lambda>_. 0), fpu = [], outs = []\<rparr>"

lemma three_tasks_simps:
  "init_task three_tasks = 0x20000" "current three_tasks = 0xfff000" "jiffies three_tasks = 9"
  "task three_tasks = (\<lambda>_. 0)(0 := 0x20000, 1 := 0xfff000, 2 := 0xffe000, 3 := 0xffd000)"
  "tstruct three_tasks = (\<lambda>_. blank_task)(0xfff000 := blank_task\<lparr>counter := 3, pid := 1, father := 0\<rparr>,
     0xffe000 := blank_task\<lparr>counter := 7, pid := 2, father := 1\<rparr>,
     0xffd000 := blank_task\<lparr>state := 1, alarm := 5, pid := 3, father := 1\<rparr>)"
  "cell three_tasks = (\<lambda>_. 0)" "last_pid three_tasks = 3"
  by (simp_all add: three_tasks_def mm.defs)

lemma three_tasks_ok: "sched_ok three_tasks"
  unfolding sched_ok_def wf_tasks_def three_tasks_simps blank_task_def
  by (auto simp: fun_upd_apply split: if_splits)

lemma three_tasks_runnable: "1 \<in> runnable (wake_signalled 63 three_tasks)"
proof -
  have i: "in_table 63 three_tasks 0xfff000" by (auto simp: in_table_def three_tasks_simps intro!: exI [of _ 1])
  have "tstruct (wake_signalled 63 three_tasks) 0xfff000 = signalled 9 (blank_task\<lparr>counter := 3, pid := 1, father := 0\<rparr>)"
    using i by (simp only: wake_signalled_eq kern.simps if_True) (simp add: three_tasks_simps)
  moreover have "state (signalled 9 (blank_task\<lparr>counter := 3, pid := 1, father := 0\<rparr>)) = TASK_RUNNING"
    by (simp add: signalled_def alarmed_def awoken_def blank_task_def TASK_RUNNING_def)
  moreover have "task (wake_signalled 63 three_tasks) 1 = 0xfff000" by (simp add: wake_signalled_eq three_tasks_simps)
  ultimately show ?thesis by (simp add: runnable_def)
qed

text \<open>C15: the choice of the next task. With positive priorities the loop of \<open>schedule\<close> ends,
  after at most one recharge of the time slices, and the switch goes to a runnable task
  whose time slice is positive and not shorter than that of any runnable task; it goes to
  task 0 only when no other task can run. The bounds on the time slices are kept.\<close>

theorem schedule_picks_longest_slice:
  assumes "sched_ok s"
  shows "\<exists>nxt s1. schedule others s = switch_to others nxt s1 \<and> sched_ok s1 \<and>
    (s1 = wake_signalled 63 s \<or> s1 = recharge 63 (wake_signalled 63 s)) \<and>
    (if runnable s1 = {} then nxt = 0
     else nxt \<in> runnable s1 \<and> 0 < slice s1 nxt \<and> (\<forall>i \<in> runnable s1. slice s1 i \<le> slice s1 nxt))"
  using assms by (rule schedule_switches) blast

theorem schedule_picks_longest_slice_witness:
  "\<exists>nxt s1. schedule Inr three_tasks = switch_to Inr nxt s1 \<and> nxt \<in> runnable s1 \<and> 0 < slice s1 nxt"
proof -
  have "runnable (wake_signalled 63 three_tasks) \<noteq> {}" "runnable (recharge 63 (wake_signalled 63 three_tasks)) \<noteq> {}"
    using three_tasks_runnable unfolding runnable_recharge by blast+
  with schedule_picks_longest_slice [OF three_tasks_ok, of Inr] show ?thesis by (auto split: if_splits)
qed

text \<open>No signal is lost in a sleep. After the first loop of \<open>schedule\<close> every task whose
  alarm has expired has \<open>SIGALRM\<close> pending and no alarm, no task is left in an interruptible
  sleep with a signal it does not block, and the state of every other task is unchanged.\<close>

theorem wake_signalled_effect:
  assumes "1 \<le> i" and "i < 64" and "task s i \<noteq> 0"
  defines "t \<equiv> tstruct s (task s i)"
  defines "t' \<equiv> tstruct (wake_signalled 63 s) (task s i)"
  shows "(if alarm t \<noteq> 0 \<and> alarm t <s jiffies s
      then signal t' = signal t OR sigbit SIGALRM \<and> alarm t' = 0 else signal t' = signal t \<and> alarm t' = alarm t) \<and>
    (state t' = TASK_INTERRUPTIBLE \<longrightarrow> signal t' AND (BLOCKABLE AND NOT (blocked t')) = 0) \<and>
    (state t' \<noteq> state t \<longrightarrow> state t = TASK_INTERRUPTIBLE \<and> state t' = TASK_RUNNING)"
proof -
  have "in_table 63 s (task s i)" using assms(1-3) by (auto simp: in_table_def)
  then have t': "t' = awoken (alarmed (jiffies s) t)"
    by (simp add: t'_def t_def wake_signalled_eq signalled_def)
  show ?thesis unfolding t' by (auto simp: awoken_def alarmed_def task_states)
qed

theorem wake_signalled_effect_witness:
  "state (tstruct three_tasks 0xffd000) = TASK_INTERRUPTIBLE \<and>
   state (tstruct (wake_signalled 63 three_tasks) 0xffd000) = TASK_RUNNING \<and>
   signal (tstruct (wake_signalled 63 three_tasks) 0xffd000) = 0x2000"
proof -
  have "state (tstruct three_tasks 0xffd000) = 1" "alarm (tstruct three_tasks 0xffd000) = 5"
    "signal (tstruct three_tasks 0xffd000) = 0" "blocked (tstruct three_tasks 0xffd000) = 0"
    "task three_tasks 3 = 0xffd000" "jiffies three_tasks = 9"
    by (simp_all add: three_tasks_simps blank_task_def)
  note c = this and b = wake_signalled_eq [of 63 three_tasks]
  from wake_signalled_effect [of 3 three_tasks] c
  have "signal (tstruct (wake_signalled 63 three_tasks) 0xffd000) = 0x2000"
    and w: "state (tstruct (wake_signalled 63 three_tasks) 0xffd000) = TASK_INTERRUPTIBLE \<longrightarrow>
      0x2000 AND (BLOCKABLE AND NOT (blocked (tstruct (wake_signalled 63 three_tasks) 0xffd000))) = 0"
    and r: "state (tstruct (wake_signalled 63 three_tasks) 0xffd000) \<noteq> 1 \<longrightarrow>
      state (tstruct (wake_signalled 63 three_tasks) 0xffd000) = TASK_RUNNING"
    by (auto simp: sigbit_def SIGALRM_def)
  moreover have "blocked (tstruct (wake_signalled 63 three_tasks) 0xffd000) = 0"
    using c(4) by (auto simp: b signalled_def awoken_def alarmed_def)
  moreover have "0x2000 AND BLOCKABLE \<noteq> 0"
    by (simp add: BLOCKABLE_def sigbit_def SIGKILL_def SIGSTOP_def)
  ultimately show ?thesis using c(1) by (auto simp: TASK_INTERRUPTIBLE_def)
qed

text \<open>C17: the loop of \<open>schedule\<close> does not end when some task can run and every task that can
  run has no time slice left and priority 0: the recharge leaves all of them at 0.\<close>

theorem schedule_hangs_without_priority:
  assumes "runnable (wake_signalled 63 s) \<noteq> {}"
    and "\<forall>i \<in> runnable (wake_signalled 63 s).
      counter (tstruct s (task s i)) = 0 \<and> priority (tstruct s (task s i)) = 0"
  shows "schedule others s = Inl Hang"
proof -
  define stuck where "stuck s = (runnable s \<noteq> {} \<and> (\<forall>i \<in> runnable s.
      counter (tstruct s (task s i)) = 0 \<and> priority (tstruct s (task s i)) = 0))" for s :: "'a kern_scheme"
  have step: "\<not> stuck s" if IH: "\<And>x y. f x = Some y \<Longrightarrow> \<not> stuck x"
    and body: "(case pick_task (NR_TASKS - 1) s (-1) 0 of (c, nxt) \<Rightarrow>
      if c \<noteq> 0 then Some (nxt, s) else f (recharge (NR_TASKS - 1) s)) = Some r"
    for f :: "'a kern_scheme \<Rightarrow> (nat \<times> 'a kern_scheme) option" and s r
  proof
    assume st: "stuck s"
    obtain c nxt where pt: "pick_task 63 s (-1) 0 = (c, nxt)" by fastforce
    from st obtain i where i: "i \<in> runnable s" by (auto simp: stuck_def)
    have "c = 0" using pick_task_spec [OF pt] st i
      by (auto simp: stuck_def runnable_def sint_0_iff)
    then have "f (recharge 63 s) = Some r" using body pt by simp
    then have "\<not> stuck (recharge 63 s)" by (rule IH)
    moreover have "stuck (recharge 63 s)" using st by (simp add: stuck_def recharge_idle)
    ultimately show False by simp
  qed
  have never: "\<not> stuck s" if "pick_loop s = Some r" for s :: "'a kern_scheme" and r
    by (rule pick_loop.raw_induct [where P = "\<lambda>s r. \<not> stuck s", OF step that])
  have "stuck (wake_signalled 63 s)"
    using assms by (simp add: stuck_def wake_signalled_eq signalled_def awoken_def alarmed_def)
  then have "pick_loop (wake_signalled 63 s) = None" using never by (metis not_None_eq)
  then show ?thesis by (simp add: schedule_def)
qed

theorem schedule_hangs_without_priority_witness:
  "schedule Inr (three_tasks\<lparr>tstruct := (\<lambda>_. blank_task\<lparr>counter := 0, priority := 0\<rparr>)\<rparr>) = Inl Hang"
proof (rule schedule_hangs_without_priority)
  let ?s = "three_tasks\<lparr>tstruct := (\<lambda>_. blank_task\<lparr>counter := 0, priority := 0\<rparr>)\<rparr>"
  have "task ?s 1 \<noteq> 0" "state (tstruct (wake_signalled 63 ?s) p) = TASK_RUNNING" for p
    by (simp_all add: three_tasks_simps wake_signalled_eq signalled_def alarmed_def awoken_def blank_task_def task_states)
  then show "runnable (wake_signalled 63 ?s) \<noteq> {}"
    by (auto simp: runnable_def intro!: exI [of _ 1])
qed (simp add: blank_task_def)

section \<open>Sleeping and waking\<close>

lemma sched_ok_upd:
  assumes "sched_ok s" "\<And>t. counter (f t) = counter t \<and> priority (f t) = priority t"
  shows "sched_ok (upd_task p f s)"
  using assms unfolding sched_ok_def wf_tasks_def by auto

lemma sched_ok_set_cell: "sched_ok (set_cell q w s) = sched_ok s"
  by (simp add: sched_ok_def wf_tasks_def)

text \<open>C18: a task that sleeps on a queue gives the processor up. When \<open>sleep_on\<close> switches, the
  sleeping task is the head of the queue, in an uninterruptible sleep, and another task
  becomes current; when the task runs again, the queue has its old head back, and that task
  can run.\<close>

theorem sleep_on_gives_up_processor:
  assumes "sched_ok s" and "p \<noteq> 0" and "current s \<noteq> init_task s"
  shows "\<exists>nxt s1. sleep_on others p s =
      kbind (others (s1\<lparr>current := task s1 nxt\<rparr>)) (\<lambda>s2. Inr (sleep_done p (cell s p) s2)) \<and>
    task s1 nxt \<noteq> current s \<and> cell s1 p = current s \<and>
    state (tstruct s1 (current s)) = TASK_UNINTERRUPTIBLE \<and>
    (\<forall>s2. cell (sleep_done p (cell s p) s2) p = cell s p \<and>
      (cell s p \<noteq> 0 \<longrightarrow> state (tstruct (sleep_done p (cell s p) s2) (cell s p)) = TASK_RUNNING))"
proof -
  let ?me = "current s"
  define s0 where "s0 = upd_task ?me (\<lambda>t. t\<lparr>state := TASK_UNINTERRUPTIBLE\<rparr>) (set_cell p ?me s)"
  have ok0: "sched_ok s0" unfolding s0_def
    by (rule sched_ok_upd) (simp_all add: sched_ok_set_cell assms(1))
  have st0: "state (tstruct s0 ?me) = TASK_UNINTERRUPTIBLE" "cell s0 p = ?me" "task s0 = task s" "current s0 = ?me"
    by (simp_all add: s0_def)
  have wf: "wf_tasks s" using assms(1) by (simp add: sched_ok_def)
  obtain nxt s1 where n: "schedule others s0 = switch_to others nxt s1"
    "if runnable s1 = {} then nxt = 0
     else nxt \<in> runnable s1 \<and> 0 < slice s1 nxt \<and> (\<forall>i \<in> runnable s1. slice s1 i \<le> slice s1 nxt)"
    "s1 = wake_signalled 63 s0 \<or> s1 = recharge 63 (wake_signalled 63 s0)"
    by (rule schedule_switches [OF ok0])
  have sw: "state (tstruct (wake_signalled 63 s0) ?me) = TASK_UNINTERRUPTIBLE"
    using st0(1) by (simp add: wake_signalled_eq signalled_def awoken_def alarmed_def task_states)
  have st: "state (tstruct s1 ?me) = TASK_UNINTERRUPTIBLE" using n(3) sw by auto
  have eq: "task s1 = task s" "current s1 = ?me" "cell s1 p = ?me" using n(3) st0 by auto
  have ne: "task s1 nxt \<noteq> ?me"
  proof (cases "nxt = 0")
    case True
    then show ?thesis using wf_tasksD(1) [OF wf] assms(3) eq(1) by simp
  next
    case False
    then have "nxt \<in> runnable s1" using n(2) by (auto split: if_splits)
    then have "state (tstruct s1 (task s1 nxt)) = TASK_RUNNING" by (simp add: runnable_def)
    with st show ?thesis by (auto simp: task_states)
  qed
  have "sleep_on others p s = kbind (schedule others s0) (\<lambda>s2. Inr (sleep_done p (cell s p) s2))"
    using assms(2,3) by (simp add: sleep_on_def s0_def Let_def)
  then have "sleep_on others p s =
      kbind (others (s1\<lparr>current := task s1 nxt\<rparr>)) (\<lambda>s2. Inr (sleep_done p (cell s p) s2))"
    using ne eq(2) by (simp add: n(1) switch_to_def)
  moreover have "cell (sleep_done p (cell s p) s2) p = cell s p \<and>
      (cell s p \<noteq> 0 \<longrightarrow> state (tstruct (sleep_done p (cell s p) s2) (cell s p)) = TASK_RUNNING)" for s2
    by (simp add: sleep_done_def Let_def)
  ultimately show ?thesis using ne eq(3) st by blast
qed

theorem sleep_on_gives_up_processor_witness:
  "\<exists>nxt s1. sleep_on Inr 0x700 three_tasks =
      kbind (Inr (s1\<lparr>current := task s1 nxt\<rparr>)) (\<lambda>s2. Inr (sleep_done 0x700 0 s2)) \<and> task s1 nxt \<noteq> 0xfff000"
  using sleep_on_gives_up_processor [OF three_tasks_ok, of "0x700" Inr] by (auto simp: three_tasks_simps)

text \<open>
  The tasks that sleep on one queue hold it as a list: each has the task that came before it
  in the variable \<open>tmp\<close> on its kernel stack. \<open>run_sleepers\<close> lets them run again in the order of
  the list, the head first.
\<close>

fun run_sleepers :: "u32 \<Rightarrow> u32 list \<Rightarrow> 'a kern_scheme \<Rightarrow> 'a kern_scheme" where
  "run_sleepers p [] s = s"
| "run_sleepers p (x # q) s = run_sleepers p q (sleep_done p (if q = [] then 0 else hd q) s)"

lemma run_sleepers_state:
  assumes "0 \<notin> set q"
  shows "tstruct (run_sleepers p q s) x =
    (if x \<in> set (tl q) then (tstruct s x)\<lparr>state := TASK_RUNNING\<rparr> else tstruct s x)"
    and "cell (run_sleepers p q s) p = (if q = [] then cell s p else 0)"
  using assms
proof (induction p q s rule: run_sleepers.induct)
  case (2 p y q s)
  case 1
  show ?case
  proof (cases q)
    case Nil
    then show ?thesis by (simp add: sleep_done_def)
  next
    case (Cons z r)
    then show ?thesis using 2(1) 1 by (auto simp: sleep_done_def)
  qed
next
  case (2 p y q s)
  case 2
  then show ?case using "2.IH"(2) by (cases q) (auto simp: sleep_done_def)
qed auto



section \<open>The timer\<close>

text \<open>The current task after a tick: one more unit of time, and one less of its slice.\<close>

definition ticked :: "u32 \<Rightarrow> task_struct \<Rightarrow> task_struct" where
  "ticked cpl t = (if cpl = 0 then t\<lparr>stime := stime t + 1\<rparr> else t\<lparr>utime := utime t + 1\<rparr>)
     \<lparr>counter := if 1 < sint (counter t) then counter t - 1 else 0\<rparr>"

lemma ticked_slice:
  assumes "0 \<le> sint (counter t)"
  shows "sint (counter (ticked cpl t)) = max 0 (sint (counter t) - 1)"
  using assms by (auto simp: ticked_def sint_minus_1)

text \<open>The timer tick. It acknowledges the interrupt and charges the current task, in user or in system time, and takes
  one unit of its time slice, never below 0; the bounds on the slices are kept. It never
  preempts the kernel: it calls \<open>schedule\<close> only when the interrupted code ran in user mode
  and the slice is used up.\<close>

theorem timer_tick:
  fixes cs :: u32 and s :: "'a kern_scheme"
  assumes "sched_ok s" and "current s \<noteq> init_task s"
  defines "s' \<equiv> upd_task (current s) (ticked (cs AND 3)) (port_out 0x20 0x20 (s\<lparr>jiffies := jiffies s + 1\<rparr>))"
  shows "timer_interrupt others cs s =
      (if cs AND 3 = 0 \<or> 1 < sint (counter (tstruct s (current s))) then Inr s' else schedule others s') \<and>
    sched_ok s'"
proof -
  let ?me = "current s" and ?t = "tstruct s (current s)"
  have wf: "wf_tasks s" using assms(1) by (simp add: sched_ok_def)
  then obtain i where "i < 64" "task s i = ?me" using wf_tasksD(4) by blast
  moreover from this have "i \<noteq> 0" using wf_tasksD(1) [OF wf] assms(2) by (metis)
  ultimately have i: "1 \<le> i" "i < 64" "task s i = ?me" "task s i \<noteq> 0" using wf_tasksD(3) [OF wf] by simp_all
  have "sched_ok s'"
  proof (rule sched_ok_cong [OF assms(1)])
    fix j assume j: "1 \<le> j" "j < 64" "task s j \<noteq> 0"
    note ok = sched_okD [OF assms(1) j]
    then have "sint (counter (ticked c (tstruct s (task s j)))) = max 0 (slice s j - 1)" for c
      by (intro ticked_slice)
    with ok show "priority (tstruct s' (task s j)) = priority (tstruct s (task s j)) \<and>
      0 \<le> slice s' j \<and> slice s' j \<le> 2 * sint (priority (tstruct s (task s j)))"
      by (auto simp: s'_def ticked_def)
  qed (simp_all add: s'_def)
  moreover have "timer_interrupt others cs s =
      (if cs AND 3 = 0 \<or> 1 < sint (counter ?t) then Inr s' else schedule others s')"
  proof -
    have nn: "0 \<le> sint (counter ?t)" using sched_okD(3) [OF assms(1) i(1,2,4)] i(3) by simp
    show ?thesis
    proof (cases "1 < sint (counter ?t)")
      case True
      then have "0 <s counter ?t - 1" using nn by (simp add: word_sless_alt sint_minus_1)
      with True show ?thesis
        by (simp add: timer_interrupt_def do_timer_def Let_def s'_def ticked_def upd_task_def port_out_def)
    next
      case False
      then have "\<not> 0 <s counter ?t - 1" using nn by (simp add: word_sless_alt sint_minus_1)
      with False show ?thesis
        by (simp add: timer_interrupt_def do_timer_def Let_def s'_def ticked_def upd_task_def port_out_def)
    qed
  qed
  ultimately show ?thesis by simp
qed

theorem timer_tick_witness:
  "\<exists>s'. timer_interrupt Inr 0x0f three_tasks = Inr s' \<and> counter (tstruct s' 0xfff000) = 2 \<and>
     utime (tstruct s' 0xfff000) = 1 \<and> jiffies s' = 10"
  using timer_tick [OF three_tasks_ok, where others = Inr and cs = "0x0f"]
  by (simp add: three_tasks_simps ticked_def blank_task_def)

text \<open>An alarm reports its remaining time. When a task sets an alarm of \<open>n\<close> seconds and
  \<open>k\<close> ticks later cancels it, the second call returns the whole seconds that were left.\<close>

theorem alarm_remaining_time:
  fixes s :: "'a kern_scheme"
  assumes "0 < n" and "n \<le> 1000000" and "k \<le> 100 * n" and "jiffies s + HZ * of_nat n \<noteq> 0"
  defines "s1 \<equiv> snd (sys_alarm (of_nat n) s)"
  shows "fst (sys_alarm 0 (s1\<lparr>jiffies := jiffies s1 + of_nat k\<rparr>)) = of_nat ((100 * n - k) div 100)"
proof -
  have "sint (of_nat n :: u32) = int n"
    using assms(2) by (intro sint_of_nat_small) linarith
  then have pos: "0 <s (of_nat n :: u32)" using assms(1) by (simp add: word_sless_alt)
  let ?a = "alarm (tstruct s1 (current s1))"
  have a: "?a = jiffies s + HZ * of_nat n" and j: "jiffies s1 = jiffies s"
    using pos by (simp_all add: s1_def sys_alarm_def Let_def)
  have e: "?a - (jiffies s1 + of_nat k) = of_nat (100 * n - k)"
    using assms(3) by (simp add: a j HZ_def of_nat_diff)
  have "sint (of_nat (100 * n - k) :: u32) = int (100 * n - k)"
    using assms(2) by (intro sint_of_nat_small) linarith
  then have "c_div (of_nat (100 * n - k)) HZ = of_nat ((100 * n - k) div 100)"
    using sdiv_int [of "100 * n - k" 100] by (simp add: c_div_def HZ_def)
  then show ?thesis using a assms(4) e by (simp add: sys_alarm_def Let_def)
qed

theorem alarm_remaining_time_witness:
  "fst (sys_alarm 0 ((snd (sys_alarm 5 three_tasks))\<lparr>jiffies := 159\<rparr>)) = 3"
proof -
  have j: "jiffies (snd (sys_alarm 5 three_tasks)) = 9" by (simp add: sys_alarm_def Let_def three_tasks_simps)
  show ?thesis
    using alarm_remaining_time [of 5 150 three_tasks] by (simp add: j three_tasks_simps HZ_def)
qed

section \<open>The set-up of the task table\<close>

lemma clear_tasks_eq:
  "task (clear_tasks n i s) = (\<lambda>j. if i \<le> j \<and> j < i + n then 0 else task s j) \<and>
   gdt (clear_tasks n i s) = (\<lambda>j. if 2 * i + 4 \<le> j \<and> j < 2 * (i + n) + 4
      then \<lparr>desc_a = 0, desc_b = 0\<rparr> else gdt s j) \<and>
   idt (clear_tasks n i s) = idt s \<and> init_task (clear_tasks n i s) = init_task s \<and>
   current (clear_tasks n i s) = current s \<and> tstruct (clear_tasks n i s) = tstruct s"
proof (induction n arbitrary: i s)
  case 0
  then show ?case by (auto simp: fun_eq_iff)
next
  case (Suc n)
  show ?case
    by (auto simp: Suc.IH fun_eq_iff FIRST_TSS_ENTRY_def FIRST_LDT_ENTRY_def)
qed

text \<open>\<open>sched_init\<close> leaves a task table with task 0 alone in it: its TSS and LDT
  descriptors in the GDT point into its descriptor, the entries of the other 63 tasks are
  empty, the first four entries are untouched, the timer has a kernel interrupt gate at
  vector \<open>0x20\<close> and the system call a gate at \<open>0x80\<close> that user mode may use.\<close>

lemma sched_init_correct:
  fixes timer_entry system_call_entry :: u32 and inb :: "(u32 \<times> u8) list \<Rightarrow> u32 \<Rightarrow> u8" and s :: "'a kern_scheme"
  assumes "task s 0 = init_task s" and "init_task s \<noteq> 0" and "current s = init_task s"
  defines "s' \<equiv> sched_init inb timer_entry system_call_entry s"
  shows "wf_tasks s' \<and> (\<forall>i. 1 \<le> i \<and> i < 64 \<longrightarrow> task s' i = 0) \<and>
    gdt s' 4 = set_tss_desc (init_task s + TSS_OFFSET) \<and> gdt s' 5 = set_ldt_desc (init_task s + LDT_OFFSET) \<and>
    (\<forall>j. 6 \<le> j \<and> j < 132 \<longrightarrow> gdt s' j = \<lparr>desc_a = 0, desc_b = 0\<rparr>) \<and> (\<forall>j < 4. gdt s' j = gdt s j) \<and>
    gate_offset (idt s' 0x20) = timer_entry \<and> gate_type (idt s' 0x20) = 0xE \<and> gate_dpl (idt s' 0x20) = 0 \<and>
    gate_offset (idt s' 0x80) = system_call_entry \<and> gate_type (idt s' 0x80) = 0xF \<and> gate_dpl (idt s' 0x80) = 3"
proof -
  let ?s1 = "s\<lparr>gdt := (gdt s)(4 := set_tss_desc (init_task s + TSS_OFFSET), 5 := set_ldt_desc (init_task s + LDT_OFFSET))\<rparr>"
  note ct = clear_tasks_eq [of 63 1 ?s1]
  have eqs: "task s' = (\<lambda>j. if 1 \<le> j \<and> j < 64 then 0 else task s j)"
    "gdt s' = (\<lambda>j. if 6 \<le> j \<and> j < 132 then \<lparr>desc_a = 0, desc_b = 0\<rparr> else gdt ?s1 j)"
    "idt s' = set_system_gate 0x80 system_call_entry (set_intr_gate 0x20 timer_entry (idt s))"
    "init_task s' = init_task s" "current s' = current s"
    using ct by (simp_all add: s'_def sched_init_def FIRST_TSS_ENTRY_def FIRST_LDT_ENTRY_def Let_def cong: if_cong)
  have none: "task s' i = 0" if "1 \<le> i" "i < 64" for i using that eqs(1) by simp
  then have "i = 0" if "i < 64" "task s' i \<noteq> 0" for i using that by (cases i) auto
  moreover have "task s' 0 = init_task s'" using eqs(1,4) assms(1) by simp
  ultimately have "wf_tasks s'"
    using assms(2,3) eqs(4,5) unfolding wf_tasks_def by (metis zero_less_numeral)
  moreover have "idt s' 0x20 = set_gate 0xE 0 timer_entry" "idt s' 0x80 = set_gate 0xF 3 system_call_entry"
    by (simp_all add: eqs(3) set_system_gate_def set_intr_gate_def)
  moreover have "gdt s' 4 = set_tss_desc (init_task s + TSS_OFFSET)" "gdt s' 5 = set_ldt_desc (init_task s + LDT_OFFSET)"
    "\<forall>j. 6 \<le> j \<and> j < 132 \<longrightarrow> gdt s' j = \<lparr>desc_a = 0, desc_b = 0\<rparr>" "\<forall>j < 4. gdt s' j = gdt s j"
    by (simp_all add: eqs(2))
  ultimately show ?thesis using none by simp
qed

lemma sched_init_example:
  "task (sched_init inb 0x1234 0x5678 (three_tasks\<lparr>current := 0x20000\<rparr>)) 3 = 0 \<and>
   gate_offset (idt (sched_init inb 0x1234 0x5678 (three_tasks\<lparr>current := 0x20000\<rparr>)) 0x80) = 0x5678"
  using sched_init_correct [of "three_tasks\<lparr>current := 0x20000\<rparr>" inb "0x1234" "0x5678"]
  by (simp add: three_tasks_simps)

end
