(* ===== verification/Blk.thy ===== *)
theory Blk
  imports Sched "HOL-Library.Multiset"
begin

text \<open>
  The block request layer (kernel/blk_drv/blk.h, kernel/blk_drv/request_scan_algo.c,
  include/linux/fs.h): a table of 32 requests, and for each device the list of those that
  wait for it, linked through their indices in the table. The code has no drivers yet: the
  function \<open>drivers\<close> from the address of a request function to its effect is a parameter.
\<close>

section \<open>State\<close>

record buffer_head =
  b_data :: u32
  b_blocknr :: u32
  b_dev :: u16
  b_uptodate :: u8
  b_dirt :: u8
  b_count :: u8
  b_lock :: u8
  b_wait :: u32

text \<open>\<open>b_wait\<close> is the address of the wait-queue variable of the buffer. The links of a buffer to
  other buffers are not used by the code.\<close>

record request =
  dev :: u32
  cmd :: u32
  errors :: u32
  sector :: u32
  nr_sectors :: u32
  req_buffer :: u32
  waiting :: u32
  bh :: u32
  next_req :: "nat option"

record blk_dev_struct =
  request_fn :: u32
  current_request :: "nat option"

record blk_kern = kern +
  req_tbl :: "request list"
  wait_for_request :: u32
  blk_dev :: "nat \<Rightarrow> blk_dev_struct"
  bhs :: "u32 \<Rightarrow> buffer_head"

type_synonym 'a blk_env = "'a blk_kern_ext env"

definition NR_BLK_DEV :: nat where
  "NR_BLK_DEV = 7"

definition NR_REQUEST :: nat where
  "NR_REQUEST = 32"

definition READ :: u32 where
  "READ = 0"

definition WRITE :: u32 where
  "WRITE = 1"

definition READA :: u32 where
  "READA = 2"

definition WRITEA :: u32 where
  "WRITEA = 3"

definition MAJOR :: "u16 \<Rightarrow> u32" where
  "MAJOR a = drop_bit 8 (ucast a)"

text \<open>With the precedence of \<open>&&\<close> over \<open>||\<close> that the parentheses leave.\<close>

definition IN_ORDER :: "request \<Rightarrow> request \<Rightarrow> bool" where
  "IN_ORDER s1 s2 \<longleftrightarrow>
     cmd s1 <s cmd s2 \<or> (cmd s1 = cmd s2 \<and> dev s1 <s dev s2) \<or> (dev s1 = dev s2 \<and> sector s1 < sector s2)"

definition upd_bh :: "u32 \<Rightarrow> (buffer_head \<Rightarrow> buffer_head) \<Rightarrow> 'a blk_kern_scheme \<Rightarrow> 'a blk_kern_scheme" where
  "upd_bh p f s = s\<lparr>bhs := (bhs s)(p := f (bhs s p))\<rparr>"

definition upd_req :: "nat \<Rightarrow> (request \<Rightarrow> request) \<Rightarrow> 'a blk_kern_scheme \<Rightarrow> 'a blk_kern_scheme" where
  "upd_req i f s = s\<lparr>req_tbl := (req_tbl s)[i := f (req_tbl s ! i)]\<rparr>"

section \<open>Operations\<close>

text \<open>The loop of \<open>add_request\<close>: where the new request goes behind.\<close>

partial_function (option) find_place :: "request list \<Rightarrow> request \<Rightarrow> nat \<Rightarrow> nat option" where
  "find_place tbl req tmp =
     (case next_req (tbl ! tmp) of
        None \<Rightarrow> Some tmp
      | Some nxt \<Rightarrow>
          if (IN_ORDER (tbl ! tmp) req \<or> \<not> IN_ORDER (tbl ! tmp) (tbl ! nxt)) \<and> IN_ORDER req (tbl ! nxt)
          then Some tmp else find_place tbl req nxt)"

definition add_request :: "(u32 \<Rightarrow> 'a blk_env) \<Rightarrow> nat \<Rightarrow> nat \<Rightarrow> 'a blk_kern_scheme \<Rightarrow> kerror + 'a blk_kern_scheme" where
  "add_request drivers d i s =
     (let s1 = upd_req i (\<lambda>r. r\<lparr>next_req := None\<rparr>) s;
          s2 = (if bh (req_tbl s1 ! i) \<noteq> 0 then upd_bh (bh (req_tbl s1 ! i)) (\<lambda>b. b\<lparr>b_dirt := 0\<rparr>) s1 else s1) in
      case current_request (blk_dev s2 d) of
        None \<Rightarrow>
          let s3 = s2\<lparr>blk_dev := (blk_dev s2)(d := (blk_dev s2 d)\<lparr>current_request := Some i\<rparr>)\<rparr> in
          if request_fn (blk_dev s3 d) = 0 then Inl Null_deref else drivers (request_fn (blk_dev s3 d)) s3
      | Some first \<Rightarrow>
          (case find_place (req_tbl s2) (req_tbl s2 ! i) first of
             None \<Rightarrow> Inl Hang
           | Some tmp \<Rightarrow>
               let s3 = upd_req i (\<lambda>r. r\<lparr>next_req := next_req (req_tbl s2 ! tmp)\<rparr>) s2 in
               Inr (upd_req tmp (\<lambda>r. r\<lparr>next_req := Some i\<rparr>) s3)))"

partial_function (option) lock_loop ::
    "'a blk_env \<Rightarrow> u32 \<Rightarrow> 'a blk_kern_scheme \<Rightarrow> (kerror + 'a blk_kern_scheme) option" where
  "lock_loop others p s =
     (if b_lock (bhs s p) \<noteq> 0 then
        let r = sleep_on others (b_wait (bhs s p)) s in
        if isl r then Some r else lock_loop others p (projr r)
      else Some (Inr (upd_bh p (\<lambda>b. b\<lparr>b_lock := 1\<rparr>) s)))"

definition lock_buffer :: "'a blk_env \<Rightarrow> u32 \<Rightarrow> 'a blk_kern_scheme \<Rightarrow> kerror + 'a blk_kern_scheme" where
  "lock_buffer others p s = (case lock_loop others p s of None \<Rightarrow> Inl Hang | Some r \<Rightarrow> r)"

definition unlock_buffer :: "u32 \<Rightarrow> 'a blk_kern_scheme \<Rightarrow> 'a blk_kern_scheme" where
  "unlock_buffer p s =
     (let s1 = (if b_lock (bhs s p) = 0 then printk_call ''unlock_buffer: buffer not locked'' [] s else s);
          s2 = upd_bh p (\<lambda>b. b\<lparr>b_lock := 0\<rparr>) s1 in
      wake_up (b_wait (bhs s2 p)) s2)"

text \<open>The inner loop of \<open>make_request\<close>, from \<open>req = req_tbl + n\<close> on: the slot it stops at, if
  not before the table, and \<open>available\<close>.\<close>

fun scan_table :: "nat \<Rightarrow> request list \<Rightarrow> bool \<Rightarrow> nat option \<times> bool" where
  "scan_table 0 tbl available = (None, available)"
| "scan_table (Suc n) tbl available =
     (if dev (tbl ! n) <s 0 then (Some n, available) else scan_table n tbl True)"

text \<open>The outer loop: the slot, unless a read-ahead gives up.\<close>

partial_function (option) find_request ::
    "'a blk_env \<Rightarrow> u32 \<Rightarrow> bool \<Rightarrow> 'a blk_kern_scheme \<Rightarrow> (kerror + bool \<times> nat option \<times> 'a blk_kern_scheme) option" where
  "find_request others rw ahead s =
     (let n = (if rw = READ then NR_REQUEST else NR_REQUEST * 2 div 3);
          found = scan_table n (req_tbl s) False in
      if snd found then Some (Inr (True, fst found, s))
      else if fst found = None then
        if ahead then Some (Inr (False, None, s))
        else
          let r = sleep_on others (wait_for_request s) s in
          if isl r then Some (Inl (projl r)) else find_request others rw ahead (projr r)
      else find_request others rw ahead s)"

definition fill_request :: "u32 \<Rightarrow> u32 \<Rightarrow> buffer_head \<Rightarrow> request \<Rightarrow> request" where
  "fill_request rw p b r = r\<lparr>dev := ucast (b_dev b), cmd := rw, errors := 0, req_buffer := b_data b,
     sector := push_bit 1 (b_blocknr b), nr_sectors := 2, waiting := 0, bh := p, next_req := None\<rparr>"

definition make_request :: "'a blk_env \<Rightarrow> (u32 \<Rightarrow> 'a blk_env) \<Rightarrow> nat \<Rightarrow> u32 \<Rightarrow> u32 \<Rightarrow> 'a blk_kern_scheme \<Rightarrow>
    kerror + 'a blk_kern_scheme" where
  "make_request others drivers major rw p s =
     (let ahead = (rw = READA \<or> rw = WRITEA) in
      if ahead \<and> b_lock (bhs s p) \<noteq> 0 then Inr s
      else
        let rw = (if rw = READA then READ else if rw = WRITEA then WRITE else rw) in
        if \<not> (rw = READ \<or> rw = WRITE) then Inl (Panic ''Bad block dev command, must be R/W/RA/WA'')
        else kbind (lock_buffer others p s) (\<lambda>s1.
          if (rw = WRITE \<and> b_dirt (bhs s1 p) = 0) \<or> (rw = READ \<and> b_uptodate (bhs s1 p) \<noteq> 0) then Inr (unlock_buffer p s1)
          else
            case find_request others rw ahead s1 of
              None \<Rightarrow> Inl Hang
            | Some r \<Rightarrow> kbind r (\<lambda>(available, req, s2).
                if \<not> available then Inr (unlock_buffer p s2)
                else case req of
                    None \<Rightarrow> Inl Out_of_bounds
                  | Some i \<Rightarrow> add_request drivers major i (upd_req i (fill_request rw p (bhs s2 p)) s2))))"

definition ll_rw_block :: "'a blk_env \<Rightarrow> (u32 \<Rightarrow> 'a blk_env) \<Rightarrow> u32 \<Rightarrow> u32 \<Rightarrow> 'a blk_kern_scheme \<Rightarrow>
    kerror + 'a blk_kern_scheme" where
  "ll_rw_block others drivers rw p s =
     (let major = MAJOR (b_dev (bhs s p)) in
      if NR_BLK_DEV \<le> unat major \<or> request_fn (blk_dev s (unat major)) = 0
      then Inr (printk_call ''Trying to read nonexistent block_device'' [] s)
      else make_request others drivers (unat major) rw p s)"

definition blk_dev_init :: "'a blk_kern_scheme \<Rightarrow> 'a blk_kern_scheme" where
  "blk_dev_init s = fold (\<lambda>i. upd_req i (\<lambda>r. r\<lparr>dev := -1, next_req := None\<rparr>)) [0..<NR_REQUEST] s"

lemma upd_simps [simp]:
  "req_tbl (upd_bh p f s) = req_tbl s" "blk_dev (upd_bh p f s) = blk_dev s" "bhs (upd_bh p f s) = (bhs s)(p := f (bhs s p))"
  "req_tbl (upd_req i g s) = (req_tbl s)[i := g (req_tbl s ! i)]" "blk_dev (upd_req i g s) = blk_dev s" "bhs (upd_req i g s) = bhs s"
  by (simp_all add: upd_bh_def upd_req_def)

section \<open>The list of a device\<close>

text \<open>\<open>path tbl p is q\<close>: the links lead from \<open>p\<close> through the requests \<open>is\<close> to \<open>q\<close>.\<close>

fun path :: "request list \<Rightarrow> nat option \<Rightarrow> nat list \<Rightarrow> nat option \<Rightarrow> bool" where
  "path tbl p [] q \<longleftrightarrow> p = q"
| "path tbl p (i # is) q \<longleftrightarrow> p = Some i \<and> i < length tbl \<and> path tbl (next_req (tbl ! i)) is q"

lemma path_append [simp]: "path tbl p (is @ js) q \<longleftrightarrow> (\<exists>r. path tbl p is r \<and> path tbl r js q)"
  by (induction "is" arbitrary: p) auto

lemma path_upd [simp]: "i \<notin> set is \<Longrightarrow> path (tbl[i := r]) p is q = path tbl p is q"
  by (induction "is" arbitrary: p) auto

lemma path_less: "path tbl p is q \<Longrightarrow> i \<in> set is \<Longrightarrow> i < length tbl"
  by (induction "is" arbitrary: p) auto

text \<open>Insertion into the list as the code decides it, for the record \<open>r\<close> at index \<open>i\<close>.\<close>

fun insert_request :: "request list \<Rightarrow> request \<Rightarrow> nat \<Rightarrow> nat list \<Rightarrow> nat list" where
  "insert_request tbl r i [] = [i]"
| "insert_request tbl r i [x] = [x, i]"
| "insert_request tbl r i (x # y # ys) =
     (if (IN_ORDER (tbl ! x) r \<or> \<not> IN_ORDER (tbl ! x) (tbl ! y)) \<and> IN_ORDER r (tbl ! y)
      then x # i # y # ys else x # insert_request tbl r i (y # ys))"

lemma find_place_eq:
  "path tbl (Some x) (x # xs) None \<Longrightarrow>
     \<exists>is z js. x # xs = is @ z # js \<and> find_place tbl r x = Some z \<and> insert_request tbl r i (x # xs) = is @ z # i # js"
proof (induction xs arbitrary: x)
  case Nil
  then have "find_place tbl r x = Some x" by (subst find_place.simps) simp
  then show ?case by (intro exI [of _ "[]"] exI [of _ x]) simp
next
  case (Cons y ys)
  let ?c = "(IN_ORDER (tbl ! x) r \<or> \<not> IN_ORDER (tbl ! x) (tbl ! y)) \<and> IN_ORDER r (tbl ! y)"
  have n: "next_req (tbl ! x) = Some y" "path tbl (Some y) (y # ys) None" using Cons.prems by auto
  have f: "find_place tbl r x = (if ?c then Some x else find_place tbl r y)"
    by (subst find_place.simps) (simp add: n(1))
  show ?case
  proof (cases ?c)
    case True
    then show ?thesis using f by (intro exI [of _ "[]"] exI [of _ x] exI [of _ "y # ys"]) simp
  next
    case False
    obtain "is" z js where i: "y # ys = is @ z # js" "find_place tbl r y = Some z" "insert_request tbl r i (y # ys) = is @ z # i # js"
      using Cons.IH [OF n(2)] by blast
    have "insert_request tbl r i (x # y # ys) = (x # is) @ z # i # js" using False i(3) by auto
    moreover have "x # y # ys = (x # is) @ z # js" using i(1) by simp
    ultimately show ?thesis using f False i(2) by (metis (full_types))
  qed
qed

lemma IN_ORDER_next [simp]:
  "IN_ORDER (r\<lparr>next_req := n\<rparr>) r' = IN_ORDER r r'" "IN_ORDER r (r'\<lparr>next_req := n\<rparr>) = IN_ORDER r r'"
  by (simp_all add: IN_ORDER_def)

lemma insert_request_cong:
  "(\<And>x. x \<in> set xs \<Longrightarrow> tbl' ! x = tbl ! x) \<Longrightarrow> insert_request tbl' r i xs = insert_request tbl r i xs"
  by (induction tbl r i xs rule: insert_request.induct) auto

lemma insert_request_next: "insert_request tbl (r\<lparr>next_req := n\<rparr>) i xs = insert_request tbl r i xs"
  by (induction tbl r i xs rule: insert_request.induct) auto

text \<open>The list code implements the insertion.\<close>

lemma add_request_inserts:
  assumes "path (req_tbl s) (current_request (blk_dev s d)) xs None" "xs \<noteq> []" "distinct xs" "i \<notin> set xs" "i < length (req_tbl s)"
  shows "\<exists>s'. add_request drivers d i s = Inr s' \<and> blk_dev s' = blk_dev s \<and>
    path (req_tbl s') (current_request (blk_dev s' d)) (insert_request (req_tbl s) (req_tbl s ! i) i xs) None \<and>
    (\<forall>j n. (req_tbl s' ! j)\<lparr>next_req := n\<rparr> = (req_tbl s ! j)\<lparr>next_req := n\<rparr>) \<and>
    bhs s' = (let p = bh (req_tbl s ! i) in if p = 0 then bhs s else (bhs s)(p := (bhs s p)\<lparr>b_dirt := 0\<rparr>))"
proof -
  obtain x ys where xs: "xs = x # ys" using assms(2) by (cases xs) auto
  define tbl where "tbl = (req_tbl s)[i := (req_tbl s ! i)\<lparr>next_req := None\<rparr>]"
  define s1 where "s1 = upd_req i (\<lambda>r. r\<lparr>next_req := None\<rparr>) s"
  define s2 where "s2 = (if bh (req_tbl s1 ! i) \<noteq> 0 then upd_bh (bh (req_tbl s1 ! i)) (\<lambda>b. b\<lparr>b_dirt := 0\<rparr>) s1 else s1)"
  have s2: "req_tbl s2 = tbl" "blk_dev s2 = blk_dev s"
    "bhs s2 = (let p = bh (req_tbl s ! i) in if p = 0 then bhs s else (bhs s)(p := (bhs s p)\<lparr>b_dirt := 0\<rparr>))"
    using assms(5) by (simp_all add: s2_def s1_def tbl_def Let_def)
  have c: "current_request (blk_dev s d) = Some x" and p: "path tbl (Some x) (x # ys) None"
    using assms(1,4) by (simp_all add: xs tbl_def)
  obtain "is" z js where z: "x # ys = is @ z # js" "find_place tbl (tbl ! i) x = Some z"
    "insert_request tbl (tbl ! i) i (x # ys) = is @ z # i # js"
    using find_place_eq [OF p, of "tbl ! i" i] by blast
  have zi: "z \<noteq> i" "z \<in> set xs" "i \<notin> set is" "i \<notin> set js" "z \<notin> set is" "z \<notin> set js"
    using z(1) assms(3,4) by (auto simp: xs)
  define tbl1 where "tbl1 = tbl[i := (tbl ! i)\<lparr>next_req := next_req (tbl ! z)\<rparr>]"
  define s' where "s' = upd_req z (\<lambda>r. r\<lparr>next_req := Some i\<rparr>) (upd_req i (\<lambda>r. r\<lparr>next_req := next_req (tbl ! z)\<rparr>) s2)"
  have s': "req_tbl s' = tbl1[z := (tbl ! z)\<lparr>next_req := Some i\<rparr>]" "blk_dev s' = blk_dev s" "bhs s' = bhs s2"
    using zi(1) by (simp_all add: s'_def s2 tbl1_def)
  have "add_request drivers d i s = Inr s'"
    unfolding add_request_def Let_def s1_def [symmetric] s2_def [symmetric] by (simp add: s2 c z(2) s'_def)
  moreover have "path (req_tbl s') (current_request (blk_dev s' d)) (insert_request (req_tbl s) (req_tbl s ! i) i xs) None"
  proof -
    have "insert_request (req_tbl s) (req_tbl s ! i) i xs = insert_request tbl (tbl ! i) i xs"
    proof -
      have "tbl ! x = req_tbl s ! x" if "x \<in> set xs" for x
        using assms(4) that by (cases "x = i") (auto simp: tbl_def)
      then have "insert_request tbl (tbl ! i) i xs = insert_request (req_tbl s) (tbl ! i) i xs" by (rule insert_request_cong)
      then show ?thesis using assms(5) by (simp add: tbl_def insert_request_next)
    qed
    also have "\<dots> = is @ z # i # js" using z(3) xs by simp
    finally have e: "insert_request (req_tbl s) (req_tbl s ! i) i xs = is @ z # i # js" .
    have "path tbl (Some x) (is @ z # js) None" using p z(1) by simp
    then have "path tbl (Some x) is (Some z)" "z < length tbl" "path tbl (next_req (tbl ! z)) js None" by auto
    then show ?thesis
      using zi assms(5) unfolding e s'(1,2) c by (auto simp: tbl1_def tbl_def)
  qed
  moreover have "\<forall>j n. (req_tbl s' ! j)\<lparr>next_req := n\<rparr> = (req_tbl s ! j)\<lparr>next_req := n\<rparr>"
    using assms(5) path_less [OF assms(1) zi(2)] zi(1) by (auto simp: s'(1) tbl1_def tbl_def nth_list_update)
  ultimately show ?thesis using s' s2(3) by auto
qed

text \<open>The order of the heads: how often the sectors of the list go down.\<close>

fun descents :: "u32 list \<Rightarrow> nat" where
  "descents (x # y # ys) = (if x < y then 0 else 1) + descents (y # ys)"
| "descents xs = 0"

fun insert_sector :: "u32 \<Rightarrow> u32 list \<Rightarrow> u32 list" where
  "insert_sector r [] = [r]"
| "insert_sector r [x] = [x, r]"
| "insert_sector r (x # y # ys) = (if (x < r \<or> \<not> x < y) \<and> r < y then x # r # y # ys else x # insert_sector r (y # ys))"

lemma insert_sector_Cons: "\<exists>ys. insert_sector r (x # xs) = x # ys"
  by (cases xs) auto

lemma descents_insert:
  "r \<notin> set (x # xs) \<Longrightarrow>
     (descents (x # xs) = 0 \<longrightarrow> descents (insert_sector r (x # xs)) \<le> (if x < r then 0 else 1)) \<and>
     (descents (x # xs) \<le> 1 \<longrightarrow> descents (insert_sector r (x # xs)) \<le> 1)"
proof (induction xs arbitrary: x)
  case (Cons y ys)
  obtain zs where z: "insert_sector r (y # ys) = y # zs" using insert_sector_Cons by blast
  have "r \<notin> set (y # ys)" "r < y \<or> y < r" using Cons.prems by auto
  with Cons.IH [of y] z show ?case by (auto split: if_splits)
qed simp

lemma map_insert_request:
  assumes "\<And>j. j \<in> set xs \<Longrightarrow> cmd (tbl ! j) = cmd r \<and> dev (tbl ! j) = dev r"
    and "\<And>j. j = i \<or> j \<in> set xs \<Longrightarrow> sec j = sector (if j = i then r else tbl ! j)" and "i \<notin> set xs"
  shows "map sec (insert_request tbl r i xs) = insert_sector (sector r) (map sec xs)"
  using assms
proof (induction tbl r i xs rule: insert_request.induct)
  case (3 tbl r i x y ys)
  have o: "IN_ORDER (tbl ! x) r = (sec x < sector r)" "IN_ORDER (tbl ! x) (tbl ! y) = (sec x < sec y)"
    "IN_ORDER r (tbl ! y) = (sector r < sec y)"
    using "3.prems"(1) [of x] "3.prems"(1) [of y] "3.prems"(2) [of x] "3.prems"(2) [of y] "3.prems"(3) by (auto simp: IN_ORDER_def)
  show ?case
  proof (cases "(sec x < sector r \<or> \<not> sec x < sec y) \<and> sector r < sec y")
    case True
    then show ?thesis using o "3.prems"(2) [of i] by auto
  next
    case False
    then have n: "\<not> ((IN_ORDER (tbl ! x) r \<or> \<not> IN_ORDER (tbl ! x) (tbl ! y)) \<and> IN_ORDER r (tbl ! y))" by (simp add: o)
    have "map sec (insert_request tbl r i (y # ys)) = insert_sector (sector r) (map sec (y # ys))"
      by (rule "3.IH" [OF n]) (use "3.prems" in auto)
    then show ?thesis using False n by auto
  qed
qed auto

lemma mset_insert_request: "mset (insert_request tbl r i xs) = add_mset i (mset xs)"
  by (induction tbl r i xs rule: insert_request.induct) auto

lemma hd_insert_request: "xs \<noteq> [] \<Longrightarrow> hd (insert_request tbl r i xs) = hd xs"
  by (induction tbl r i xs rule: insert_request.induct) auto


text \<open>Two sweeps over the sectors 10, 40 and 5; the new request is for sector 20.\<close>

definition blank_request :: request where
  "blank_request = \<lparr>dev = -1, cmd = 0, errors = 0, sector = 0, nr_sectors = 0, req_buffer = 0, waiting = 0, bh = 0, next_req = None\<rparr>"

definition busy_disk :: blk_kern where
  "busy_disk = kern.extend three_tasks (blk_kern.fields
     (map (\<lambda>(sec, n). blank_request\<lparr>dev := 0x300, sector := sec, next_req := n\<rparr>) [(10, Some 1), (40, Some 2), (5, None), (20, None)] @
        replicate 28 blank_request) 0x800 (\<lambda>d. \<lparr>request_fn = 0x900, current_request = Some 0\<rparr>)
     (\<lambda>_. \<lparr>b_data = 0, b_blocknr = 0, b_dev = 0x300, b_uptodate = 0, b_dirt = 1, b_count = 1, b_lock = 0, b_wait = 0x808\<rparr>))"

lemma busy_disk_simps [simp]:
  "req_tbl busy_disk = map (\<lambda>(sec, n). blank_request\<lparr>dev := 0x300, sector := sec, next_req := n\<rparr>)
     [(10, Some 1), (40, Some 2), (5, None), (20, None)] @ replicate 28 blank_request"
  "blk_dev busy_disk = (\<lambda>d. \<lparr>request_fn = 0x900, current_request = Some 0\<rparr>)" "wait_for_request busy_disk = 0x800"
  "bhs busy_disk = (\<lambda>_. \<lparr>b_data = 0, b_blocknr = 0, b_dev = 0x300, b_uptodate = 0, b_dirt = 1, b_count = 1, b_lock = 0, b_wait = 0x808\<rparr>)"
  by (simp_all add: busy_disk_def kern.defs blk_kern.defs)


section \<open>Choosing a slot\<close>

lemma scan_busy: "(\<forall>j < n. \<not> dev (tbl ! j) <s 0) \<Longrightarrow> scan_table n tbl av = (None, av \<or> 0 < n)"
  by (induction n arbitrary: av) auto

lemma scan_free:
  "i < n \<Longrightarrow> dev (tbl ! i) <s 0 \<Longrightarrow> (\<forall>j. i < j \<and> j < n \<longrightarrow> \<not> dev (tbl ! j) <s 0) \<Longrightarrow>
     scan_table n tbl av = (Some i, av \<or> Suc i < n)"
proof (induction n arbitrary: av)
  case (Suc n)
  show ?case
  proof (cases "i = n")
    case False
    then have "\<not> dev (tbl ! n) <s 0" "i < n" using Suc.prems by auto
    then show ?thesis using Suc.IH [of True] Suc.prems by simp
  qed (use Suc.prems in simp)
qed simp

text \<open>When the scan stops at a free slot at once, the outer loop runs again in the same state.\<close>

lemma find_request_stuck:
  fixes s :: "'a blk_kern_scheme"
  assumes "scan_table (if rw = READ then NR_REQUEST else NR_REQUEST * 2 div 3) (req_tbl s) False = (Some i, False)"
  shows "find_request others rw ahead s = None"
proof -
  define stuck where "stuck rw x \<longleftrightarrow>
    scan_table (if rw = READ then NR_REQUEST else NR_REQUEST * 2 div 3) (req_tbl x) False = (Some i, False)"
    for rw and x :: "'a blk_kern_scheme"
  have st: "stuck rw x \<Longrightarrow> scan_table (if rw = READ then NR_REQUEST else NR_REQUEST * 2 div 3) (req_tbl x) False = (Some i, False)"
    for rw x by (simp only: stuck_def)
  have never: "\<not> stuck rw x" if "find_request others rw ahead x = Some r" for x :: "'a blk_kern_scheme" and r
    by (rule find_request.raw_induct [where P = "\<lambda>others rw ahead x r. \<not> stuck rw x", OF _ that])
       (auto simp: st Let_def)
  with assms show ?thesis by (cases "find_request others rw ahead s") (auto simp: stuck_def)
qed

lemma lock_free: "b_lock (bhs s p) = 0 \<Longrightarrow> lock_buffer others p s = Inr (upd_bh p (\<lambda>b. b\<lparr>b_lock := 1\<rparr>) s)"
  unfolding lock_buffer_def by (subst lock_loop.simps) simp

text \<open>C40: which slot a request gets, for an unlocked buffer that needs the transfer. The scan
  marks a slot as available when it is in use. So the call does not return when the highest
  slot open to the command (31 for a read, 20 for a write) is free, as all are after
  \<open>blk_dev_init\<close>; it writes before the table when none is free; otherwise it fills the
  highest free slot and gives it to \<open>add_request\<close>. It never sleeps for a slot.\<close>

theorem make_request_slot:
  fixes s :: "'a blk_kern_scheme" and rw p :: u32
  defines "rd \<equiv> rw = READ \<or> rw = READA"
  defines "n \<equiv> if rd then 32 else 21"
  defines "s1 \<equiv> upd_bh p (\<lambda>b. b\<lparr>b_lock := 1\<rparr>) s"
  assumes "rw \<in> {READ, WRITE, READA, WRITEA}" and "b_lock (bhs s p) = 0"
    and "if rd then b_uptodate (bhs s p) = 0 else b_dirt (bhs s p) \<noteq> 0"
  shows "(dev (req_tbl s ! (n - 1)) <s 0 \<longrightarrow> make_request others drivers major rw p s = Inl Hang) \<and>
    ((\<forall>j < n. \<not> dev (req_tbl s ! j) <s 0) \<longrightarrow> make_request others drivers major rw p s = Inl Out_of_bounds) \<and>
    (\<forall>i. Suc i < n \<and> dev (req_tbl s ! i) <s 0 \<and> (\<forall>j. i < j \<and> j < n \<longrightarrow> \<not> dev (req_tbl s ! j) <s 0) \<longrightarrow>
      make_request others drivers major rw p s = add_request drivers major i
        (upd_req i (fill_request (if rd then READ else WRITE) p (bhs s1 p)) s1))"
proof -
  define rw' where "rw' = (if rw = READA then READ else if rw = WRITEA then WRITE else rw)"
  define ahead where "ahead \<longleftrightarrow> rw = READA \<or> rw = WRITEA"
  have rws: "rw' = (if rd then READ else WRITE)" "READ \<noteq> WRITE" "n = (if rw' = READ then NR_REQUEST else NR_REQUEST * 2 div 3)"
    using assms(4) by (auto simp: rw'_def rd_def n_def READ_def WRITE_def READA_def WRITEA_def NR_REQUEST_def)
  have b: "\<not> ((rw' = WRITE \<and> b_dirt (bhs s1 p) = 0) \<or> (rw' = READ \<and> b_uptodate (bhs s1 p) \<noteq> 0))"
    using assms(6) rws(1,2) by (auto simp: s1_def split: if_splits)
  have v: "rw' = READ \<or> rw' = WRITE" by (simp add: rws(1))
  have m: "make_request others drivers major rw p s = (case find_request others rw' ahead s1 of
      None \<Rightarrow> Inl Hang
    | Some r \<Rightarrow> kbind r (\<lambda>(available, req, s2).
        if \<not> available then Inr (unlock_buffer p s2)
        else case req of None \<Rightarrow> Inl Out_of_bounds
          | Some i \<Rightarrow> add_request drivers major i (upd_req i (fill_request rw' p (bhs s2 p)) s2)))"
    using assms(5) b v unfolding make_request_def Let_def rw'_def [symmetric] ahead_def [symmetric]
    by (auto simp: lock_free s1_def [symmetric] rws(2))
  have f: "find_request others rw' ahead s1 = Some (Inr (True, r, s1))" if "scan_table n (req_tbl s) False = (r, True)" for r
    using that by (subst find_request.simps) (simp add: rws(3) [symmetric] s1_def Let_def)
  have t: "req_tbl s1 = req_tbl s" by (simp add: s1_def)
  have n: "0 < n" by (simp add: n_def)
  have "make_request others drivers major rw p s = Inl Hang" if "dev (req_tbl s ! (n - 1)) <s 0"
  proof -
    have "scan_table n (req_tbl s) False = (Some (n - 1), False)" using n that by (cases n) simp_all
    then show ?thesis using find_request_stuck [of rw' s1 "n - 1" others ahead] m by (simp add: rws(3) [symmetric] t)
  qed
  moreover have "make_request others drivers major rw p s = Inl Out_of_bounds" if "\<forall>j < n. \<not> dev (req_tbl s ! j) <s 0"
    using f [of None] scan_busy [OF that, of False] n by (simp add: m)
  moreover have "make_request others drivers major rw p s =
      add_request drivers major i (upd_req i (fill_request (if rd then READ else WRITE) p (bhs s1 p)) s1)"
    if "Suc i < n \<and> dev (req_tbl s ! i) <s 0 \<and> (\<forall>j. i < j \<and> j < n \<longrightarrow> \<not> dev (req_tbl s ! j) <s 0)" for i
    using f [of "Some i"] scan_free [of i n "req_tbl s" False] that by (simp add: m rws(1))
  ultimately show ?thesis by blast
qed

lemma blk_dev_init_tbl:
  assumes "length (req_tbl s) = 32"
  shows "\<forall>i < 32. dev (req_tbl (blk_dev_init s) ! i) = -1"
proof -
  have "n \<le> 32 \<Longrightarrow> length (req_tbl (fold (\<lambda>i. upd_req i (\<lambda>r. r\<lparr>dev := -1, next_req := None\<rparr>)) [0..<n] s)) = 32 \<and>
      (\<forall>i < n. dev (req_tbl (fold (\<lambda>i. upd_req i (\<lambda>r. r\<lparr>dev := -1, next_req := None\<rparr>)) [0..<n] s) ! i) = -1)" for n
    using assms by (induction n) (auto simp: nth_list_update less_Suc_eq)
  from this [of 32] show ?thesis by (simp add: blk_dev_init_def NR_REQUEST_def)
qed

theorem make_request_slot_witness:
  "make_request Inr (\<lambda>_. Inr) 3 READ 0x700 (blk_dev_init busy_disk) = Inl Hang"
proof -
  let ?s = "blk_dev_init busy_disk"
  have b: "bhs (fold (\<lambda>i. upd_req i (\<lambda>r. r\<lparr>dev := -1, next_req := None\<rparr>)) is s) = bhs s" for "is" and s :: blk_kern
    by (induction "is" arbitrary: s) simp_all
  have "dev (req_tbl ?s ! 31) <s 0" using blk_dev_init_tbl [of busy_disk] by (simp add: word_sless_alt)
  then show ?thesis
    using make_request_slot [of READ ?s "0x700" Inr "\<lambda>_. Inr" 3] b [of "[0..<NR_REQUEST]" busy_disk]
    by (simp add: blk_dev_init_def)
qed

end
