(* ===== verification/Kernel_Frame.thy ===== *)
theory Kernel_Frame
  imports Tasks
begin

text \<open>
  How the operations of the memory manager and those on tasks stay out of each other's way:
  the first change nothing outside the record \<open>mm\<close> (nor the bound of the memory), the second
  nothing inside it.
\<close>

named_theorems rest_kept \<open>operations of the memory manager that leave the rest of the kernel alone\<close>

section \<open>Memory operations\<close>

lemma more_get_free_page [rest_kept]: "get_free_page s = (p, s') \<Longrightarrow>
   mm.more s' = mm.more s \<and> HIGH_MEMORY s' = HIGH_MEMORY s"
  by (auto simp: get_free_page_def Let_def split: option.splits)

lemma more_printk [simp]: "mm.more (printk_call f l s) = mm.more s" "HIGH_MEMORY (printk_call f l s) = HIGH_MEMORY s"
  by (simp_all add: printk_call_def)

lemma more_free_page [rest_kept]: "free_page p s = Inr s' \<Longrightarrow>
   mm.more s' = mm.more s \<and> HIGH_MEMORY s' = HIGH_MEMORY s"
  by (auto simp: free_page_def split: if_splits)

lemma more_put_page [rest_kept]: "put_page p a s = Inr (r, s') \<Longrightarrow>
   mm.more s' = mm.more s \<and> HIGH_MEMORY s' = HIGH_MEMORY s"
  by (auto simp: put_page_def Let_def dest!: more_get_free_page split: if_splits prod.splits)

lemma more_un_wp_page [rest_kept]: "un_wp_page a s = Inr s' \<Longrightarrow>
   mm.more s' = mm.more s \<and> HIGH_MEMORY s' = HIGH_MEMORY s"
  by (auto simp: un_wp_page_def Let_def oom_def dest!: more_get_free_page split: if_splits prod.splits)

lemma more_write_verify [rest_kept]: "write_verify a s = Inr s' \<Longrightarrow>
   mm.more s' = mm.more s \<and> HIGH_MEMORY s' = HIGH_MEMORY s"
  by (auto simp: write_verify_def Let_def dest: more_un_wp_page split: if_splits)

lemma more_do_no_page [rest_kept]: "do_no_page ec a s = Inr s' \<Longrightarrow>
   mm.more s' = mm.more s \<and> HIGH_MEMORY s' = HIGH_MEMORY s"
  by (auto simp: do_no_page_def Let_def oom_def kbind_elim dest!: more_get_free_page more_put_page
      split: if_splits prod.splits)

lemma more_page_fault [rest_kept]: "page_fault ec a s = Inr s' \<Longrightarrow>
   mm.more s' = mm.more s \<and> HIGH_MEMORY s' = HIGH_MEMORY s"
  by (auto simp: page_fault_def do_wp_page_def dest: more_do_no_page more_un_wp_page split: if_splits)

lemma more_free_entries: "free_entries n p s = Inr s' \<Longrightarrow>
   mm.more s' = mm.more s \<and> HIGH_MEMORY s' = HIGH_MEMORY s"
proof (induction n arbitrary: p s)
  case (Suc n)
  then show ?case by (auto simp: kbind_elim dest!: more_free_page split: if_splits)
qed simp

lemma more_free_dirs: "free_dirs n p s = Inr s' \<Longrightarrow>
   mm.more s' = mm.more s \<and> HIGH_MEMORY s' = HIGH_MEMORY s"
proof (induction n arbitrary: p s)
  case (Suc n)
  then show ?case
    by (auto simp: kbind_elim dest!: more_free_page more_free_entries Suc.IH split: if_splits)
qed simp

lemma more_free_page_tables [rest_kept]: "free_page_tables f sz s = Inr (r, s') \<Longrightarrow>
   mm.more s' = mm.more s \<and> HIGH_MEMORY s' = HIGH_MEMORY s"
  by (auto simp: free_page_tables_def kbind_elim dest!: more_free_dirs split: if_splits)

lemma more_copy_entry: "copy_entry a b s = Inr s' \<Longrightarrow>
   mm.more s' = mm.more s \<and> HIGH_MEMORY s' = HIGH_MEMORY s"
  by (auto simp: copy_entry_def Let_def split: if_splits)

lemma more_copy_entries: "copy_entries n a b s = Inr s' \<Longrightarrow>
   mm.more s' = mm.more s \<and> HIGH_MEMORY s' = HIGH_MEMORY s"
proof (induction n arbitrary: a b s)
  case (Suc n)
  then show ?case by (auto simp: kbind_elim dest!: more_copy_entry Suc.IH)
qed simp

lemma more_copy_dirs: "copy_dirs nr n a b s = Inr (r, s') \<Longrightarrow>
   mm.more s' = mm.more s \<and> HIGH_MEMORY s' = HIGH_MEMORY s"
proof (induction n arbitrary: a b s)
  case (Suc n)
  then show ?case
    by (auto simp: kbind_elim Let_def dest!: more_get_free_page more_copy_entries Suc.IH split: if_splits prod.splits)
qed simp

lemma more_copy_page_tables [rest_kept]: "copy_page_tables f t sz s = Inr (r, s') \<Longrightarrow>
   mm.more s' = mm.more s \<and> HIGH_MEMORY s' = HIGH_MEMORY s"
  by (auto simp: copy_page_tables_def Let_def dest!: more_copy_dirs split: if_splits)

lemma kern_rest:
  fixes s s' :: "'a kern_scheme"
  assumes "mm.more s' = mm.more s"
  shows "init_task s' = init_task s" "task s' = task s" "tstruct s' = tstruct s" "current s' = current s"
    "last_task_used_math s' = last_task_used_math s" "jiffies s' = jiffies s" "last_pid s' = last_pid s"
    "gdt s' = gdt s" "idt s' = idt s" "cell s' = cell s" "fpu s' = fpu s" "kern.more s' = kern.more s"
    "outs s' = outs s"
  using assms by (cases s; cases s'; simp)+

section \<open>Operations on tasks\<close>

lemma mm_cong:
  fixes s :: "'a mm_scheme" and s' :: "'b mm_scheme"
  assumes "HIGH_MEMORY s' = HIGH_MEMORY s" "mem_map s' = mem_map s" "phys s' = phys s"
  shows "refs s' = refs s" "pool s' = pool s" "dirent s' = dirent s" "dir_present s' = dir_present s"
    "table s' = table s" "entry s' = entry s" "walk s' = walk s" "uses s' = uses s" "vm_inv own s' = vm_inv own s"
    "copyable nr d n s' = copyable nr d n s"
proof -
  show r: "refs s' = refs s" "pool s' = pool s" "dirent s' = dirent s"
    using assms by (simp_all add: refs_def pool_def dirent_def fun_eq_iff)
  then show d: "dir_present s' = dir_present s" "table s' = table s"
    by (simp_all add: dir_present_def table_def fun_eq_iff)
  with assms(3) show e: "entry s' = entry s" "walk s' = walk s"
    by (simp_all add: entry_def walk_def fun_eq_iff)
  then have m: "mappers s' = mappers s" "tables s' = tables s"
    using d by (simp_all add: mappers_def tables_def fun_eq_iff)
  then show "uses s' = uses s" by (simp add: uses_def fun_eq_iff)
  moreover have "wf_dir s' = wf_dir s" "alloc_inv s' = alloc_inv s"
    using r d assms by (simp_all add: wf_dir_def alloc_inv_def)
  ultimately show "vm_inv own s' = vm_inv own s" using r by (simp add: vm_inv_def counted_eq)
  have sh: "share s' d t n = share s d t n" for d t n
    by (rule ext, induction n arbitrary: t) (simp_all add: e)
  have "shares s' nr d n = shares s nr d n" for nr d n
    by (rule ext, induction n arbitrary: d) (simp_all add: sh)
  then show "copyable nr d n s' = copyable nr d n s" using r e by (simp add: copyable_def)
qed

lemma upd_task_mm [simp]:
  "refs (upd_task p f s) = refs s" "pool (upd_task p f s) = pool s" "walk (upd_task p f s) = walk s"
  "entry (upd_task p f s) = entry s" "dir_present (upd_task p f s) = dir_present s"
  "vm_inv own (upd_task p f s) = vm_inv own s" "copyable nr d n (upd_task p f s) = copyable nr d n s"
  by (rule mm_cong; simp)+

lemma kern_mm [simp]:
  fixes s :: "'a kern_scheme"
  shows "vm_inv own (s\<lparr>task := t\<rparr>) = vm_inv own s" "walk (s\<lparr>task := t\<rparr>) = walk s" "pool (s\<lparr>task := t\<rparr>) = pool s"
    "refs (s\<lparr>task := t\<rparr>) = refs s" "dir_present (s\<lparr>task := t\<rparr>) = dir_present s"
    "vm_inv own (s\<lparr>gdt := g\<rparr>) = vm_inv own s" "walk (s\<lparr>gdt := g\<rparr>) = walk s" "pool (s\<lparr>gdt := g\<rparr>) = pool s"
    "copyable nr d n (s\<lparr>task := t\<rparr>) = copyable nr d n s"
  by (rule mm_cong; simp)+

end
