(* ===== verification/Fork.thy ===== *)
theory Fork
  imports Sched Kernel_Frame
begin

text \<open>
  Process creation (kernel/fork.c, \<open>sys_fork\<close> of kernel/system_call.s): verifying a user
  area before the kernel writes to it, finding a process number and a slot, copying the
  address space and building the descriptor of the child.
\<close>

section \<open>Operations\<close>

text \<open>The loop of \<open>verify_area\<close>: one \<open>write_verify\<close> per page.\<close>

lemma sint_minus_page: "0 <s (sz :: u32) \<Longrightarrow> sint (sz - 4096) = sint sz - 4096"
  using sint_lt [of sz] by (simp add: word_sless_alt sint_word_ariths signed_take_bit_int_eq_self)

function verify_pages :: "u32 \<Rightarrow> u32 \<Rightarrow> 'a mm_scheme \<Rightarrow> kerror + 'a mm_scheme" where
  "verify_pages start sz s =
     (if 0 <s sz then kbind (write_verify start s) (\<lambda>s1. verify_pages (start + 4096) (sz - 4096) s1) else Inr s)"
  by auto
termination
  by (relation "measure (\<lambda>(start, sz, s). nat (sint sz))")
    (auto simp: sint_minus_page word_sless_alt)

declare verify_pages.simps [simp del]

definition verify_area :: "u32 \<Rightarrow> u32 \<Rightarrow> 'a kern_scheme \<Rightarrow> kerror + 'a kern_scheme" where
  "verify_area addr sz s =
     (let sz = sz + (addr AND 0xfff);
          start = (addr AND 0xfffff000) + get_base (ldt (tstruct s (current s)) 2) in
      verify_pages start sz s)"

text \<open>The selectors \<open>0x0f\<close> and \<open>0x17\<close> are entries 1 and 2 of the LDT of the current task.\<close>

definition copy_mem :: "nat \<Rightarrow> u32 \<Rightarrow> 'a kern_scheme \<Rightarrow> kerror + u32 \<times> 'a kern_scheme" where
  "copy_mem nr p s =
     (let me = tstruct s (current s);
          code_limit = get_limit (ldt me 1);
          data_limit = get_limit (ldt me 2);
          old_code_base = get_base (ldt me 1);
          old_data_base = get_base (ldt me 2) in
      if old_code_base \<noteq> old_data_base then Inl (Panic ''Codeseg not fully overlapped with dataseg'')
      else if data_limit < code_limit then Inl (Panic ''bad data limit'')
      else
        let new_base = of_nat nr * 0x4000000;
            s1 = upd_task p (\<lambda>t. t\<lparr>start_code := new_base,
              ldt := (ldt t)(1 := set_base new_base (ldt t 1), 2 := set_base new_base (ldt t 2))\<rparr>) s in
        kbind (copy_page_tables old_data_base new_base data_limit s1) (\<lambda>(r, s2).
          if r \<noteq> 0
          then kbind (free_page_tables new_base data_limit
                 (printk_call ''free_page_tables: from copy_mem'' [] s2)) (\<lambda>(_, s3). Inr (-1, s3))
          else Inr (0, s2)))"

text \<open>The registers of the parent, as they lie on its kernel stack when it calls \<open>fork\<close>.\<close>

record registers =
  reg_ebp :: u32
  reg_edi :: u32
  reg_esi :: u32
  reg_gs :: u32
  reg_ebx :: u32
  reg_ecx :: u32
  reg_edx :: u32
  reg_fs :: u32
  reg_es :: u32
  reg_ds :: u32
  reg_eip :: u32
  reg_cs :: u32
  reg_eflags :: u32
  reg_esp :: u32
  reg_ss :: u32

definition PAGE_SIZE :: u32 where
  "PAGE_SIZE = 4096"

text \<open>The TSS of the child, from that of the parent.\<close>

definition child_tss :: "nat \<Rightarrow> u32 \<Rightarrow> registers \<Rightarrow> tss_struct \<Rightarrow> tss_struct" where
  "child_tss nr p r t = t\<lparr>
     tss_back_link := 0, tss_eflags := reg_eflags r, tss_esp0 := PAGE_SIZE + p, tss_ss0 := 0x10,
     tss_eip := reg_eip r, tss_eax := 0, tss_ecx := reg_ecx r, tss_ebx := reg_ebx r, tss_edx := reg_edx r,
     tss_esp := reg_esp r, tss_ebp := reg_ebp r, tss_esi := reg_esi r, tss_edi := reg_edi r,
     tss_es := reg_es r AND 0xffff, tss_cs := reg_cs r AND 0xffff, tss_ds := reg_ds r AND 0xffff,
     tss_ss := reg_ss r AND 0xffff, tss_fs := reg_fs r AND 0xffff, tss_gs := reg_gs r AND 0xffff,
     tss_ldt := LDT_sel nr, tss_bitmap := 0x80000000\<rparr>"

definition child_task :: "nat \<Rightarrow> u32 \<Rightarrow> registers \<Rightarrow> u32 \<Rightarrow> u32 \<Rightarrow> task_struct \<Rightarrow> task_struct" where
  "child_task nr p r new_pid now me = me\<lparr>
     state := TASK_UNINTERRUPTIBLE, pid := new_pid, father := pid me, counter := priority me, signal := 0,
     alarm := 0, leader := 0, utime := 0, stime := 0, cutime := 0, cstime := 0, start_time := now,
     tss := child_tss nr p r (tss me)\<rparr>"

definition copy_process :: "nat \<Rightarrow> registers \<Rightarrow> 'a kern_scheme \<Rightarrow> kerror + u32 \<times> 'a kern_scheme" where
  "copy_process nr r s =
     (case get_free_page s of (p, s1) \<Rightarrow>
        if p = 0 then Inr (-1, s1)
        else
          let s2 = s1\<lparr>task := (task s1)(nr := p)\<rparr>;
              s3 = upd_task p (\<lambda>_. child_task nr p r (last_pid s2) (jiffies s2) (tstruct s2 (current s2))) s2;
              s4 = (if last_task_used_math s3 = current s3
                    then upd_task p (\<lambda>t. t\<lparr>tss := (tss t)\<lparr>tss_i387 := fpu s3\<rparr>\<rparr>) s3 else s3) in
          kbind (copy_mem nr p s4) (\<lambda>(res, s5).
            if res \<noteq> 0
            then kbind (free_page p (s5\<lparr>task := (task s5)(nr := 0)\<rparr>)) (\<lambda>s6. Inr (-1, s6))
            else
              let s6 = s5\<lparr>gdt := (gdt s5)(2 * nr + FIRST_TSS_ENTRY := set_tss_desc (p + TSS_OFFSET),
                                          2 * nr + FIRST_LDT_ENTRY := set_ldt_desc (p + LDT_OFFSET))\<rparr> in
              Inr (last_pid s6, upd_task p (\<lambda>t. t\<lparr>state := TASK_RUNNING\<rparr>) s6)))"

text \<open>The loop of \<open>find_empty_process\<close> over process numbers; \<open>tmp\<close> is the number it started from.\<close>

definition pid_in_use :: "u32 \<Rightarrow> 'a kern_scheme \<Rightarrow> bool" where
  "pid_in_use n s \<longleftrightarrow> (\<exists>i < NR_TASKS. task s i \<noteq> 0 \<and> pid (tstruct s (task s i)) = n)"

partial_function (option) find_pid :: "u32 \<Rightarrow> 'a kern_scheme \<Rightarrow> 'a kern_scheme option" where
  "find_pid tmp s =
     (if \<not> pid_in_use (last_pid s) s then Some s
      else
        let s1 = s\<lparr>last_pid := last_pid s + 1\<rparr> in
        if last_pid s1 = tmp then Some s1
        else find_pid tmp (if last_pid s1 <s 0 then s1\<lparr>last_pid := 1\<rparr> else s1))"

text \<open>Its second loop, from slot \<open>i\<close> on.\<close>

fun find_slot :: "nat \<Rightarrow> nat \<Rightarrow> 'a kern_scheme \<Rightarrow> nat option" where
  "find_slot 0 i s = None"
| "find_slot (Suc n) i s = (if task s i = 0 then Some i else find_slot n (Suc i) s)"

definition find_empty_process :: "'a kern_scheme \<Rightarrow> kerror + nat option \<times> 'a kern_scheme" where
  "find_empty_process s =
     (case find_pid (last_pid s) s of
        None \<Rightarrow> Inl Hang
      | Some s1 \<Rightarrow> Inr (find_slot (NR_TASKS - 1) 1 s1, s1))"

text \<open>\<open>sys_fork\<close>: the result of \<open>find_empty_process\<close> is -1 when there is no slot.\<close>

definition sys_fork :: "registers \<Rightarrow> 'a kern_scheme \<Rightarrow> kerror + u32 \<times> 'a kern_scheme" where
  "sys_fork r s =
     kbind (find_empty_process s) (\<lambda>(slot_nr, s1).
       case slot_nr of None \<Rightarrow> Inr (-1, s1) | Some nr \<Rightarrow> copy_process nr r s1)"

section \<open>Process numbers\<close>

definition next_pid :: "u32 \<Rightarrow> u32" where
  "next_pid n = (if n + 1 <s 0 then 1 else n + 1)"

lemma find_pid_step:
  "find_pid tmp s = (if \<not> pid_in_use (last_pid s) s then Some s
     else if last_pid s + 1 = tmp then Some (s\<lparr>last_pid := last_pid s + 1\<rparr>)
     else find_pid tmp (s\<lparr>last_pid := next_pid (last_pid s)\<rparr>))"
proof -
  have "s\<lparr>last_pid := next_pid (last_pid s)\<rparr> =
    (if last_pid s + 1 <s 0 then s\<lparr>last_pid := last_pid s + 1\<rparr>\<lparr>last_pid := 1\<rparr> else s\<lparr>last_pid := last_pid s + 1\<rparr>)"
    by (simp add: next_pid_def)
  then show ?thesis by (subst find_pid.simps) (simp add: Let_def)
qed

text \<open>The number the search reaches after \<open>k\<close> steps.\<close>

definition pid_after :: "nat \<Rightarrow> u32 \<Rightarrow> u32" where
  "pid_after k n = of_nat (if unat n + k < 2147483648 then unat n + k else unat n + k - 2147483647)"

lemma pid_after_0: "unat n < 2147483648 \<Longrightarrow> pid_after 0 n = n"
  by (simp add: pid_after_def)

lemma unat_pid_after:
  "unat n < 2147483648 \<Longrightarrow> k \<le> 64 \<Longrightarrow>
   unat (pid_after k n) = (if unat n + k < 2147483648 then unat n + k else unat n + k - 2147483647)"
proof -
  assume a: "unat n < 2147483648" "k \<le> 64"
  then have "(if unat n + k < 2147483648 then unat n + k else unat n + k - 2147483647) < 4294967296"
    by (simp split: nat_diff_split)
  then show ?thesis unfolding pid_after_def by (rule unat_of_nat_u32)
qed

lemma pid_after_nonneg: "unat n < 2147483648 \<Longrightarrow> k \<le> 64 \<Longrightarrow> unat (pid_after k n) < 2147483648"
  by (simp add: unat_pid_after split: nat_diff_split)

lemma next_pid_after:
  assumes "unat n < 2147483648" "k < 64"
  shows "next_pid (pid_after k n) = pid_after (Suc k) n"
proof -
  let ?m = "unat (pid_after k n)"
  have m: "?m < 2147483648" using assms by (simp add: pid_after_nonneg)
  then have s: "unat (pid_after k n + 1) = ?m + 1" by (simp add: unat_word_ariths)
  have "unat (next_pid (pid_after k n)) = unat (pid_after (Suc k) n)"
    using assms m s by (simp add: next_pid_def negative_word unat_pid_after split: nat_diff_split)
  then show ?thesis by (rule unsigned_word_eqI)
qed

lemma find_pid_steps:
  assumes "unat n < 2147483648" "k \<le> 64"
    and "\<And>j. j < k \<Longrightarrow> pid_in_use (pid_after j n) s"
    and "\<not> pid_in_use (pid_after k n) s"
  shows "m \<le> k \<Longrightarrow> last_pid s' = pid_after m n \<Longrightarrow> task s' = task s \<Longrightarrow> tstruct s' = tstruct s \<Longrightarrow>
    find_pid n s' = Some (s'\<lparr>last_pid := pid_after k n\<rparr>)"
proof (induction "k - m" arbitrary: m s')
  case 0
  then have "m = k" by simp
  with 0 assms(4) show ?case by (subst find_pid_step) (simp add: pid_in_use_def)
next
  case (Suc d)
  then have m: "m < k" by simp
  let ?s = "s'\<lparr>last_pid := next_pid (last_pid s')\<rparr>"
  have n1: "next_pid (pid_after m n) = pid_after (Suc m) n" using m assms(1,2) by (simp add: next_pid_after)
  have "unat (pid_after m n) < 2147483648" using m assms(1,2) by (simp add: pid_after_nonneg)
  then have "unat (pid_after m n + 1) = unat (pid_after m n) + 1" by (simp add: unat_word_ariths)
  then have "pid_after m n + 1 \<noteq> n"
    using m assms(1,2) by (auto simp: unat_pid_after split: if_splits)
  moreover have "pid_in_use (last_pid s') s'" using assms(3) [OF m] Suc.prems by (simp add: pid_in_use_def)
  ultimately have "find_pid n s' = find_pid n ?s"
    using Suc.prems by (subst find_pid_step) simp
  also have "\<dots> = Some (?s\<lparr>last_pid := pid_after k n\<rparr>)"
    using Suc.hyps(2) m Suc.prems n1 by (intro Suc.hyps(1) [of "Suc m"]) simp_all
  finally show ?case by simp
qed

lemma free_pid_exists:
  assumes "unat n < 2147483648"
  shows "\<exists>k \<le> 64. \<not> pid_in_use (pid_after k n) s"
proof (rule ccontr)
  assume neg: "\<not> ?thesis"
  have "pid_after k n \<in> (\<lambda>i. pid (tstruct s (task s i))) ` {..<64}" if "k \<le> 64" for k
  proof -
    have "pid_in_use (pid_after k n) s" using neg that by blast
    then obtain i where "i < 64" "pid (tstruct s (task s i)) = pid_after k n" by (auto simp: pid_in_use_def)
    then show ?thesis by (metis imageI lessThan_iff)
  qed
  then have "(\<lambda>k. pid_after k n) ` {..64} \<subseteq> (\<lambda>i. pid (tstruct s (task s i))) ` {..<64}"
    by auto
  then have "card ((\<lambda>k. pid_after k n) ` {..64}) \<le> card ((\<lambda>i. pid (tstruct s (task s i))) ` {..<64 :: nat})"
    by (intro card_mono) simp_all
  also have "\<dots> \<le> 64" using card_image_le [of "{..<64 :: nat}"] by simp
  finally have "card ((\<lambda>k. pid_after k n) ` {..64}) \<le> 64" .
  moreover have "inj_on (\<lambda>k. pid_after k n) {..64}"
  proof (rule inj_onI)
    fix i j assume "i \<in> {..64}" "j \<in> {..64}" "pid_after i n = pid_after j n"
    then have "i \<le> 64" "j \<le> 64" "unat (pid_after i n) = unat (pid_after j n)" by auto
    then show "i = j" using assms by (auto simp: unat_pid_after split: if_splits)
  qed
  ultimately show False by (simp add: card_image)
qed

lemma find_slot_Some:
  "find_slot n i s = Some j \<Longrightarrow> i \<le> j \<and> j < i + n \<and> task s j = 0 \<and> (\<forall>k. i \<le> k \<and> k < j \<longrightarrow> task s k \<noteq> 0)"
proof (induction n arbitrary: i)
  case (Suc n)
  show ?case
  proof (cases "task s i = 0")
    case True
    with Suc.prems show ?thesis by auto
  next
    case False
    then have "Suc i \<le> j \<and> j < Suc i + n \<and> task s j = 0 \<and> (\<forall>k. Suc i \<le> k \<and> k < j \<longrightarrow> task s k \<noteq> 0)"
      using Suc.IH [of "Suc i"] Suc.prems by simp
    moreover have "i \<le> k \<longleftrightarrow> k = i \<or> Suc i \<le> k" for k by auto
    ultimately show ?thesis using False by auto
  qed
qed simp

lemma find_slot_None: "find_slot n i s = None \<Longrightarrow> i \<le> j \<Longrightarrow> j < i + n \<Longrightarrow> task s j \<noteq> 0"
proof (induction n arbitrary: i)
  case (Suc n)
  then show ?case by (cases "j = i") (auto split: if_splits)
qed simp

text \<open>C23: the choice of a process number and a slot. \<open>find_empty_process\<close> always returns; the
  number it leaves in \<open>last_pid\<close> is not negative and belongs to no task, and the slot is the
  lowest free one from 1 on, if there is one. It changes nothing else.\<close>

theorem find_empty_process_fresh:
  assumes "\<not> last_pid s <s 0"
  shows "\<exists>r n. find_empty_process s = Inr (r, s\<lparr>last_pid := n\<rparr>) \<and> \<not> n <s 0 \<and> \<not> pid_in_use n s \<and>
    (case r of None \<Rightarrow> \<forall>i. 1 \<le> i \<and> i < 64 \<longrightarrow> task s i \<noteq> 0
     | Some i \<Rightarrow> 1 \<le> i \<and> i < 64 \<and> task s i = 0 \<and> (\<forall>j. 1 \<le> j \<and> j < i \<longrightarrow> task s j \<noteq> 0))"
proof -
  let ?n = "last_pid s"
  have n: "unat ?n < 2147483648" using assms by (simp add: negative_word not_le)
  define k where "k = (LEAST k. k \<le> 64 \<and> \<not> pid_in_use (pid_after k ?n) s)"
  have k: "k \<le> 64 \<and> \<not> pid_in_use (pid_after k ?n) s"
  proof -
    have "\<exists>k. k \<le> 64 \<and> \<not> pid_in_use (pid_after k ?n) s" by (rule free_pid_exists [OF n])
    then show ?thesis unfolding k_def by (rule LeastI_ex)
  qed
  have used: "pid_in_use (pid_after j ?n) s" if "j < k" for j
    using not_less_Least [of j "\<lambda>k. k \<le> 64 \<and> \<not> pid_in_use (pid_after k ?n) s"] that k
    unfolding k_def by auto
  have "find_pid ?n s = Some (s\<lparr>last_pid := pid_after k ?n\<rparr>)"
    by (rule find_pid_steps [OF n _ used, of k 0]) (use k n in \<open>simp_all add: pid_after_0\<close>)
  then have "find_empty_process s = Inr (find_slot 63 1 (s\<lparr>last_pid := pid_after k ?n\<rparr>), s\<lparr>last_pid := pid_after k ?n\<rparr>)"
    by (simp add: find_empty_process_def)
  moreover have "find_slot m i (s\<lparr>last_pid := pid_after k ?n\<rparr>) = find_slot m i s" for m i
    by (induction m arbitrary: i) auto
  moreover have "case find_slot 63 1 s of None \<Rightarrow> \<forall>i. 1 \<le> i \<and> i < 64 \<longrightarrow> task s i \<noteq> 0
     | Some i \<Rightarrow> 1 \<le> i \<and> i < 64 \<and> task s i = 0 \<and> (\<forall>j. 1 \<le> j \<and> j < i \<longrightarrow> task s j \<noteq> 0)"
    using find_slot_Some [of 63 1 s] find_slot_None [of 63 1 s] by (auto split: option.splits)
  moreover have "\<not> pid_after k ?n <s 0" using pid_after_nonneg [OF n] k by (simp add: negative_word not_le)
  ultimately show ?thesis using k by (intro exI [of _ "find_slot 63 1 s"] exI [of _ "pid_after k ?n"]) simp
qed

theorem find_empty_process_fresh_witness:
  "\<exists>n. find_empty_process three_tasks = Inr (Some 4, three_tasks\<lparr>last_pid := n\<rparr>) \<and> \<not> pid_in_use n three_tasks"
proof -
  have l: "\<not> last_pid three_tasks <s 0" by (simp add: three_tasks_simps word_sless_alt)
  obtain r n where r: "find_empty_process three_tasks = Inr (r, three_tasks\<lparr>last_pid := n\<rparr>)" "\<not> pid_in_use n three_tasks"
    and c: "case r of None \<Rightarrow> \<forall>i. 1 \<le> i \<and> i < 64 \<longrightarrow> task three_tasks i \<noteq> 0
     | Some i \<Rightarrow> 1 \<le> i \<and> i < 64 \<and> task three_tasks i = 0 \<and> (\<forall>j. 1 \<le> j \<and> j < i \<longrightarrow> task three_tasks j \<noteq> 0)"
    using find_empty_process_fresh [OF l] by blast
  have "task three_tasks 4 = 0" by (simp add: three_tasks_simps)
  then obtain i where i: "r = Some i" "1 \<le> i" "task three_tasks i = 0" "\<forall>j. 1 \<le> j \<and> j < i \<longrightarrow> task three_tasks j \<noteq> 0"
    using c by (cases r) auto
  have "i \<noteq> 1" "i \<noteq> 2" "i \<noteq> 3" using i(3) by (auto simp: three_tasks_simps)
  moreover have "\<not> 4 < i" using i(4) \<open>task three_tasks 4 = 0\<close> by (auto dest: spec [of _ 4])
  ultimately have "i = 4" using i(2) by linarith
  with r i(1) show ?thesis by blast
qed

section \<open>Creating a process\<close>

text \<open>
  The state of the kernel between two system calls: the process table is well formed, the
  reference counts are exact, and each task but task 0 owns the frame its descriptor lies in.
\<close>

definition kernel_ok :: "(u32 \<Rightarrow> nat) \<Rightarrow> 'a kern_scheme \<Rightarrow> bool" where
  "kernel_ok own s \<longleftrightarrow> wf_tasks s \<and> vm_inv own s \<and> \<not> managed (init_task s) \<and>
     (\<forall>i. 1 \<le> i \<and> i < 64 \<and> task s i \<noteq> 0 \<longrightarrow> pool s (task s i) \<and> own (task s i) = 1)"

lemma kernel_okD:
  assumes "kernel_ok own s"
  shows "wf_tasks s" "vm_inv own s" "\<not> managed (init_task s)"
    "\<And>i. 1 \<le> i \<Longrightarrow> i < 64 \<Longrightarrow> task s i \<noteq> 0 \<Longrightarrow> pool s (task s i) \<and> own (task s i) = 1"
  using assms by (auto simp: kernel_ok_def)

text \<open>The address space of slot \<open>nr\<close>: 64 MB, 16 directory entries.\<close>

abbreviation new_base :: "nat \<Rightarrow> u32" where
  "new_base nr \<equiv> of_nat nr * 0x4000000"

lemma new_base_facts:
  assumes "nr < 64"
  shows "unat (new_base nr) = nr * 67108864" "dir_index (new_base nr) = 16 * nr" "new_base nr AND 0x3fffff = 0"
proof -
  show u: "unat (new_base nr) = nr * 67108864"
    using assms by (simp add: unat_word_ariths unat_of_nat_u32)
  then show "dir_index (new_base nr) = 16 * nr" by (simp add: dir_index_def)
  have e: "(0x3fffff :: u32) = mask 22" by (simp add: mask_eq_exp_minus_1)
  have "unat (new_base nr AND 0x3fffff) = nr * 67108864 mod 4194304"
    unfolding e by (simp add: take_bit_eq_mask [symmetric] unsigned_take_bit_eq take_bit_eq_mod [where 'a = nat] u)
  also have "\<dots> = 4194304 * (16 * nr) mod 4194304" by simp
  also have "\<dots> = 0" by (rule mod_mult_self1_is_0)
  finally show "new_base nr AND 0x3fffff = 0" by (simp add: word_unat_eq_iff)
qed

text \<open>What the address space of the current task must satisfy for a copy to slot \<open>nr\<close>.\<close>

definition forkable :: "nat \<Rightarrow> 'a kern_scheme \<Rightarrow> bool" where
  "forkable nr s \<longleftrightarrow>
     (let me = tstruct s (current s); base = get_base (ldt me 2); n = dir_count (get_limit (ldt me 2)) in
      get_base (ldt me 1) = base \<and> get_limit (ldt me 1) \<le> get_limit (ldt me 2) \<and> base AND 0x3fffff = 0 \<and>
      dir_index base + n \<le> 1024 \<and> n \<le> 16 \<and>
      (dir_index base + n \<le> 16 * nr \<or> 16 * nr + n \<le> dir_index base) \<and>
      (\<forall>d. 16 * nr \<le> d \<and> d < 16 * nr + n \<longrightarrow> \<not> dir_present s d) \<and>
      copyable (if base = 0 then 0xA0 else 1024) (dir_index base) n s)"

lemma copyable_alloc:
  assumes "vm_inv own s" "copyable nr d n s" "get_free_page s = (p, s')" "p \<noteq> 0" "d + n \<le> 1024" "nr \<le> 1024"
  shows "copyable nr d n s'"
proof -
  note al = vm_invD(1) [OF assms(1)] assms(3,4)
  note g = get_free_page_nonzero [OF assms(3,4)]
  have e: "entry s' d' t = entry s d' t" if "d' < 1024" "t < 1024" for d' t
    using that by (simp add: entry_alloc [OF al])
  have sh: "shares s' nr d n f = shares s nr d n f" for f
    using assms(5,6) e by (intro shares_cong) auto
  show ?thesis
    unfolding copyable_def
  proof (intro allI impI)
    fix d' t x
    assume a: "d \<le> d' \<and> d' < d + n \<and> t < nr \<and> entry s' d' t = Some x"
    then have x: "entry s d' t = Some x" using e assms(5,6) by auto
    note c = copyableD [OF assms(2) conjunct1 [OF a] _ _ x]
    have "page_of x \<noteq> p" if "managed (page_of x)" using c(2) a that g(2) by auto
    then show "page_of x < 0x1000000 \<and> (managed (page_of x) \<longrightarrow> 0 < refs s' (page_of x) \<and>
        refs s' (page_of x) + shares s' nr d n (page_of x) < 256)"
      using c a sh by (auto simp: g(3))
  qed
qed

lemma copy_mem_outcome:
  fixes s :: "'a kern_scheme" and p :: u32
  assumes "vm_inv own s" "forkable nr s" "1 \<le> nr" "nr < 64"
  defines "base \<equiv> get_base (ldt (tstruct s (current s)) 2)"
    and "n \<equiv> dir_count (get_limit (ldt (tstruct s (current s)) 2))"
    and "t \<equiv> upd_task p (\<lambda>t. t\<lparr>start_code := new_base nr,
      ldt := (ldt t)(1 := set_base (new_base nr) (ldt t 1), 2 := set_base (new_base nr) (ldt t 2))\<rparr>) s"
  shows "\<exists>r s'. copy_mem nr p s = Inr (r, s') \<and> vm_inv own s' \<and> mm.more s' = mm.more t \<and> HIGH_MEMORY s' = HIGH_MEMORY s \<and>
    (r = 0 \<and> (\<forall>y. dir_index y < n \<longrightarrow> walk s' (new_base nr + y) =
        (if base = 0 \<and> 0xA0 \<le> tbl_index y then None else map_option copied (walk s (base + y)))) \<or>
     r = -1 \<and> (\<forall>d. 16 * nr \<le> d \<and> d < 16 * nr + n \<longrightarrow> \<not> dir_present s' d))"
proof -
  note nb = new_base_facts [OF assms(4)]
  have f: "get_base (ldt (tstruct s (current s)) 1) = base"
    "get_limit (ldt (tstruct s (current s)) 1) \<le> get_limit (ldt (tstruct s (current s)) 2)" "base AND 0x3fffff = 0"
    "dir_index base + n \<le> 1024" "n \<le> 16" "dir_index base + n \<le> 16 * nr \<or> 16 * nr + n \<le> dir_index base"
    "\<forall>d. 16 * nr \<le> d \<and> d < 16 * nr + n \<longrightarrow> \<not> dir_present s d"
    "copyable (if base = 0 then 0xA0 else 1024) (dir_index base) n s"
    using assms(2) unfolding forkable_def Let_def base_def n_def by blast+
  define lim where "lim = get_limit (ldt (tstruct s (current s)) 2)"
  have n: "n = dir_count lim" by (simp add: n_def lim_def)
  have t: "vm_inv own t" "dir_present t = dir_present s" "copyable k d m t = copyable k d m s" "walk t = walk s"
    "HIGH_MEMORY t = HIGH_MEMORY s" for k d m
    using assms(1) by (simp_all add: t_def)
  have r: "4 \<le> 16 * nr" "16 * nr + n \<le> 1024" using assms(3,4) f(5) by linarith+
  have cm: "copy_mem nr p s = kbind (copy_page_tables base (new_base nr) lim t) (\<lambda>(r, s2).
      if r \<noteq> 0 then kbind (free_page_tables (new_base nr) lim
             (printk_call ''free_page_tables: from copy_mem'' [] s2)) (\<lambda>(_, s3). Inr (-1, s3))
      else Inr (0, s2))"
    using f(1) f(2) [folded not_less] unfolding copy_mem_def Let_def t_def base_def lim_def by simp
  obtain s2 r m where c: "copy_page_tables base (new_base nr) lim t = Inr (r, s2)" "vm_inv own s2"
    and o: "r = 0 \<and> m = n \<or> r = -1 \<and> m < n"
    and w: "\<forall>y. dir_index y < m \<longrightarrow> walk s2 (new_base nr + y) =
        (if base = 0 \<longrightarrow> tbl_index y < 0xA0 then map_option copied (walk t (base + y)) else None)"
    using copy_page_tables_spec [OF t(1) f(3) nb(3), of lim, folded n, unfolded nb(2) t(2,3),
        OF r(1) f(4) r(2) f(6,7,8)] by blast
  have m2: "mm.more s2 = mm.more t" "HIGH_MEMORY s2 = HIGH_MEMORY s" using more_copy_page_tables [OF c(1)] t(5) by simp_all
  show ?thesis
  proof (cases "r = 0")
    case True
    then have "copy_mem nr p s = Inr (0, s2)" using cm c(1) by simp
    then show ?thesis using c(2) m2 w o True t(4) by (intro exI [of _ 0] exI [of _ s2]) auto
  next
    case False
    let ?s = "printk_call ''free_page_tables: from copy_mem'' [] s2"
    have i: "vm_inv own ?s" using c(2) by (simp add: printk_call_def)
    obtain s3 where s3: "free_page_tables (new_base nr) lim ?s = Inr (0, s3)" "vm_inv own s3"
      "\<forall>d < 1024. 16 * nr \<le> d \<and> d < 16 * nr + n \<longrightarrow> \<not> dir_present s3 d"
      using free_page_tables_spec [OF i nb(3), of lim, folded n, unfolded nb(2), OF r] by blast
    have "mm.more s3 = mm.more t" "HIGH_MEMORY s3 = HIGH_MEMORY s" using more_free_page_tables [OF s3(1)] m2 by simp_all
    moreover have "copy_mem nr p s = Inr (-1, s3)" using cm c(1) False s3(1) by simp
    moreover have "\<forall>d. 16 * nr \<le> d \<and> d < 16 * nr + n \<longrightarrow> \<not> dir_present s3 d" using s3(3) r(2) by auto
    ultimately show ?thesis using s3(2) by blast
  qed
qed

text \<open>A fresh frame is the descriptor of no task.\<close>

lemma fresh_not_task:
  assumes "kernel_ok own s" "get_free_page s = (p, s')" "p \<noteq> 0" "i < 64"
  shows "task s i \<noteq> p"
proof
  assume i: "task s i = p"
  note k = kernel_okD [OF assms(1)] and g = get_free_page_nonzero [OF assms(2,3)]
  show False
  proof (cases "i = 0")
    case True
    then show False using i g(1) k(3) wf_tasksD(1) [OF k(1)] by simp
  next
    case False
    then have "own p = 1" using k(4) [of i] assms(3,4) i by simp
    then show False using vm_inv_take(2) [OF k(2) assms(2,3)] by simp
  qed
qed

lemma wf_tasks_new:
  assumes "wf_tasks s" "1 \<le> nr" "nr < 64" "task s nr = 0" "p \<noteq> 0" "\<And>i. i < 64 \<Longrightarrow> task s i \<noteq> p"
    and "task s' = (task s)(nr := p)" "current s' = current s" "init_task s' = init_task s"
  shows "wf_tasks s'"
proof -
  note w = wf_tasksD [OF assms(1)]
  obtain c where c: "c < 64" "task s c = current s" using w(4) by blast
  then have "c \<noteq> nr" using w(3) assms(4) by auto
  then have "\<exists>i < 64. task s' i = current s'" using c assms(7,8) by auto
  moreover have "i = j" if "i < 64" "j < 64" "task s' i = task s' j" "task s' i \<noteq> 0" for i j
    using that w(5) [of i j] assms(6) [of i] assms(6) [of j] by (auto simp: assms(7) split: if_splits)
  moreover have "task s' 0 = init_task s'" "init_task s' \<noteq> 0" "current s' \<noteq> 0"
    using w(1-3) assms(2) by (simp_all add: assms(7-9))
  ultimately show ?thesis unfolding wf_tasks_def by blast
qed

lemma same_tss: "tss t = c \<Longrightarrow> t\<lparr>tss := c\<rparr> = t"
  by (cases t) simp

lemma same_i387: "tss_i387 t = c \<Longrightarrow> t\<lparr>tss_i387 := c\<rparr> = t"
  by (cases t) simp

text \<open>The descriptor of the child when its page tables are copied, and once they are.\<close>

definition placed_child :: "nat \<Rightarrow> u32 \<Rightarrow> registers \<Rightarrow> 'a kern_scheme \<Rightarrow> task_struct" where
  "placed_child nr p r s = (let me = tstruct s (current s) in
     (child_task nr p r (last_pid s) (jiffies s) me)\<lparr>tss := (child_tss nr p r (tss me))
       \<lparr>tss_i387 := if last_task_used_math s = current s then fpu s else tss_i387 (tss me)\<rparr>\<rparr>)"

definition moved_child :: "nat \<Rightarrow> u32 \<Rightarrow> registers \<Rightarrow> 'a kern_scheme \<Rightarrow> task_struct" where
  "moved_child nr p r s = (let t = placed_child nr p r s in
     t\<lparr>start_code := new_base nr, ldt := (ldt t)(1 := set_base (new_base nr) (ldt t 1), 2 := set_base (new_base nr) (ldt t 2))\<rparr>)"

definition place_child :: "nat \<Rightarrow> u32 \<Rightarrow> registers \<Rightarrow> 'a kern_scheme \<Rightarrow> 'a kern_scheme" where
  "place_child nr p r s = upd_task p (\<lambda>_. placed_child nr p r s) (s\<lparr>task := (task s)(nr := p)\<rparr>)"

definition start_child :: "nat \<Rightarrow> u32 \<Rightarrow> 'a kern_scheme \<Rightarrow> 'a kern_scheme" where
  "start_child nr p s = upd_task p (\<lambda>t. t\<lparr>state := TASK_RUNNING\<rparr>)
     (s\<lparr>gdt := (gdt s)(2 * nr + FIRST_TSS_ENTRY := set_tss_desc (p + TSS_OFFSET),
                       2 * nr + FIRST_LDT_ENTRY := set_ldt_desc (p + LDT_OFFSET))\<rparr>)"

lemma copy_process_steps:
  assumes "get_free_page s = (p, s1)" "p \<noteq> 0"
  shows "copy_process nr r s = kbind (copy_mem nr p (place_child nr p r s1)) (\<lambda>(res, s5).
    if res \<noteq> 0 then kbind (free_page p (s5\<lparr>task := (task s5)(nr := 0)\<rparr>)) (\<lambda>s6. Inr (-1, s6))
    else Inr (last_pid s5, start_child nr p s5))"
proof -
  let ?me = "tstruct s1 (current s1)"
  have "tss (child_task nr p r (last_pid s1) (jiffies s1) ?me) = child_tss nr p r (tss ?me)"
    "tss_i387 (child_tss nr p r (tss ?me)) = tss_i387 (tss ?me)" by (simp_all add: child_task_def child_tss_def)
  then have "place_child nr p r s1 =
      (let s2 = s1\<lparr>task := (task s1)(nr := p)\<rparr>;
           s3 = upd_task p (\<lambda>_. child_task nr p r (last_pid s2) (jiffies s2) (tstruct s2 (current s2))) s2 in
       if last_task_used_math s3 = current s3
       then upd_task p (\<lambda>t. t\<lparr>tss := (tss t)\<lparr>tss_i387 := fpu s3\<rparr>\<rparr>) s3 else s3)"
    by (auto simp: place_child_def placed_child_def Let_def upd_task_def same_i387 same_tss)
  then show ?thesis using assms(2) unfolding copy_process_def assms(1) prod.case start_child_def Let_def by (simp cong: if_cong)
qed

text \<open>The state \<open>s5\<close> in which the memory of the child is set up.\<close>

definition forked :: "nat \<Rightarrow> u32 \<Rightarrow> registers \<Rightarrow> 'a kern_scheme \<Rightarrow> 'a kern_scheme \<Rightarrow> bool" where
  "forked nr p r s s5 \<longleftrightarrow> tstruct s5 = (tstruct s)(p := moved_child nr p r s) \<and> task s5 = (task s)(nr := p) \<and>
     current s5 = current s \<and> init_task s5 = init_task s \<and> gdt s5 = gdt s \<and> last_pid s5 = last_pid s \<and>
     HIGH_MEMORY s5 = HIGH_MEMORY s"

lemma copy_process_memory:
  fixes s :: "'a kern_scheme"
  assumes "kernel_ok own s" "forkable nr s" "1 \<le> nr" "nr < 64" and g: "get_free_page s = (p, s1)" "p \<noteq> 0"
  defines "me \<equiv> tstruct s (current s)"
  obtains res s5 where "copy_mem nr p (place_child nr p r s1) = Inr (res, s5)" "vm_inv (own(p := 1)) s5" "forked nr p r s s5"
    "res = 0 \<and> (\<forall>y. dir_index y < dir_count (get_limit (ldt me 2)) \<longrightarrow> walk s5 (new_base nr + y) =
        (if get_base (ldt me 2) = 0 \<and> 0xA0 \<le> tbl_index y then None
         else map_option copied (walk s (get_base (ldt me 2) + y)))) \<or> res = -1"
proof -
  note k = kernel_okD [OF assms(1)] and w = wf_tasksD [OF kernel_okD(1) [OF assms(1)]]
  note gp = get_free_page_nonzero [OF g] and tk = vm_inv_take [OF k(2) g] and al = vm_invD(1) [OF k(2)] g
  note r1 = kern_rest [OF more_get_free_page [OF g(1), THEN conjunct1]]
  have nc: "current s \<noteq> p" using w(4) fresh_not_task [OF assms(1) g] by blast
  let ?s = "place_child nr p r s1"
  have pc: "placed_child nr p r s1 = placed_child nr p r s" unfolding placed_child_def r1 ..
  have "HIGH_MEMORY ?s = HIGH_MEMORY s1" "mem_map ?s = mem_map s1" "phys ?s = phys s1" by (simp_all add: place_child_def)
  note m = mm_cong [OF this]
  have me: "tstruct ?s (current ?s) = me" using nc by (simp add: place_child_def r1 me_def)
  have "forkable nr ?s"
    using assms(2) copyable_alloc [OF k(2) _ g] dir_present_alloc [OF al] assms(4)
    unfolding forkable_def me me_def [symmetric] Let_def m by auto
  moreover have "vm_inv (own(p := 1)) ?s" using tk(1) by (simp add: m)
  moreover have "walk ?s x = walk s x" for x by (simp add: m walk_def entry_alloc [OF al])
  ultimately obtain res s5 where c: "copy_mem nr p ?s = Inr (res, s5)" "vm_inv (own(p := 1)) s5"
      "mm.more s5 = mm.more (upd_task p (\<lambda>t. t\<lparr>start_code := new_base nr,
        ldt := (ldt t)(1 := set_base (new_base nr) (ldt t 1), 2 := set_base (new_base nr) (ldt t 2))\<rparr>) ?s)"
      "HIGH_MEMORY s5 = HIGH_MEMORY ?s"
      "res = 0 \<and> (\<forall>y. dir_index y < dir_count (get_limit (ldt me 2)) \<longrightarrow> walk s5 (new_base nr + y) =
        (if get_base (ldt me 2) = 0 \<and> 0xA0 \<le> tbl_index y then None
         else map_option copied (walk s (get_base (ldt me 2) + y)))) \<or> res = -1"
    using copy_mem_outcome [of "own(p := 1)" ?s nr p, unfolded me] assms(3,4) by fastforce
  have "forked nr p r s s5"
    unfolding forked_def using kern_rest [OF c(3)] c(4) gp(5)
    by (simp add: place_child_def moved_child_def Let_def r1 pc)
  then show thesis using that c by blast
qed

lemma fork_undone:
  fixes s :: "'a kern_scheme"
  assumes "kernel_ok own s" and g: "get_free_page s = (p, s1)" "p \<noteq> 0"
    and "task s nr = 0" "vm_inv (own(p := 1)) s5" "forked nr p r s s5"
  obtains s6 where "free_page p (s5\<lparr>task := (task s5)(nr := 0)\<rparr>) = Inr s6" "kernel_ok own s6" "task s6 = task s"
    "\<forall>i < 64. tstruct s6 (task s i) = tstruct s (task s i)"
proof -
  note k = kernel_okD [OF assms(1)] and f = assms(6) [unfolded forked_def]
  let ?s = "s5\<lparr>task := (task s5)(nr := 0)\<rparr>"
  have ps: "pool ?s q = pool s q" for q using f by (simp add: pool_def)
  then have "pool ?s p" using get_free_page_pool(1) [OF vm_invD(2) [OF k(2)] g] by simp
  moreover have "vm_inv (own(p := 1)) ?s" using assms(5) by simp
  ultimately obtain s6 where s6: "free_page p ?s = Inr s6" "vm_inv own s6"
    using vm_inv_release [of "own(p := 1)" ?s p] vm_inv_take(2) [OF k(2) g] by (auto simp: fun_upd_idem)
  note m6 = more_free_page [OF s6(1)] and r6 = kern_rest [OF more_free_page [OF s6(1), THEN conjunct1]]
  have ts: "task s6 = task s" "current s6 = current s" "init_task s6 = init_task s"
    using assms(4) f by (simp_all add: r6 fun_upd_idem)
  have "wf_tasks s6" using k(1) unfolding wf_tasks_def ts .
  moreover have "pool s6 q = pool s q" for q using m6 ps [of q] by (simp add: pool_def)
  ultimately have "kernel_ok own s6" using k(3,4) s6(2) ts by (simp add: kernel_ok_def)
  moreover have "tstruct s6 (task s i) = tstruct s (task s i)" if "i < 64" for i
    using fresh_not_task [OF assms(1) g that] f by (simp add: r6)
  ultimately show thesis using that s6(1) ts(1) by blast
qed

lemma fork_done:
  fixes s :: "'a kern_scheme"
  assumes "kernel_ok own s" "1 \<le> nr" "nr < 64" "task s nr = 0" and g: "get_free_page s = (p, s1)" "p \<noteq> 0"
    and "vm_inv (own(p := 1)) s5" "forked nr p r s s5"
  shows "kernel_ok (own(p := 1)) (start_child nr p s5)"
proof -
  note k = kernel_okD [OF assms(1)] and f = assms(8) [unfolded forked_def]
  let ?s = "start_child nr p s5"
  have ts: "task ?s = (task s)(nr := p)" "current ?s = current s" "init_task ?s = init_task s"
    using f by (simp_all add: start_child_def)
  have np: "task s i \<noteq> p" if "i < 64" for i by (rule fresh_not_task [OF assms(1) g that])
  have "wf_tasks ?s" by (rule wf_tasks_new [OF k(1) assms(2-4) g(2) np ts])
  moreover have "vm_inv (own(p := 1)) ?s" using assms(7) by (simp add: start_child_def)
  moreover have "pool ?s q = pool s q" for q using f by (simp add: start_child_def pool_def)
  moreover have "pool s (task ?s i) \<and> (own(p := 1)) (task ?s i) = 1" if "1 \<le> i" "i < 64" "task ?s i \<noteq> 0" for i
    using k(4) [of i] np [of i] get_free_page_pool(1) [OF vm_invD(2) [OF k(2)] g] that by (auto simp: ts split: if_splits)
  ultimately show ?thesis using k(3) ts(3) by (simp add: kernel_ok_def)
qed

lemma started_child:
  defines "t \<equiv> \<lambda>s. tstruct s (current s)"
  shows "(moved_child nr p r s)\<lparr>state := TASK_RUNNING\<rparr> = (child_task nr p r (last_pid s) (jiffies s) (t s))
    \<lparr>state := TASK_RUNNING, start_code := new_base nr,
     tss := (child_tss nr p r (tss (t s)))\<lparr>tss_i387 := if last_task_used_math s = current s then fpu s else tss_i387 (tss (t s))\<rparr>,
     ldt := (ldt (t s))(1 := set_base (new_base nr) (ldt (t s) 1), 2 := set_base (new_base nr) (ldt (t s) 2))\<rparr>"
  unfolding moved_child_def placed_child_def child_task_def Let_def t_def
  by (cases "tstruct s (current s)") simp

lemma copy_process_spec:
  fixes s :: "'a kern_scheme"
  assumes "kernel_ok own s" "forkable nr s" "1 \<le> nr" "nr < 64" "task s nr = 0"
  defines "me \<equiv> tstruct s (current s)"
  shows "(\<exists>s'. copy_process nr r s = Inr (-1, s') \<and> kernel_ok own s' \<and> task s' = task s \<and>
      (\<forall>i < 64. tstruct s' (task s i) = tstruct s (task s i) \<or> task s i = 0)) \<or>
    (\<exists>p s' i387. copy_process nr r s = Inr (last_pid s, s') \<and> refs s p = 0 \<and> kernel_ok (own(p := 1)) s' \<and>
      task s' = (task s)(nr := p) \<and>
      tstruct s' = (tstruct s)(p := (child_task nr p r (last_pid s) (jiffies s) me)
        \<lparr>state := TASK_RUNNING, start_code := new_base nr, tss := (child_tss nr p r (tss me))\<lparr>tss_i387 := i387\<rparr>,
         ldt := (ldt me)(1 := set_base (new_base nr) (ldt me 1), 2 := set_base (new_base nr) (ldt me 2))\<rparr>) \<and>
      gdt s' = (gdt s)(2 * nr + FIRST_TSS_ENTRY := set_tss_desc (p + TSS_OFFSET),
                       2 * nr + FIRST_LDT_ENTRY := set_ldt_desc (p + LDT_OFFSET)) \<and>
      (\<forall>y. dir_index y < dir_count (get_limit (ldt me 2)) \<longrightarrow> walk s' (new_base nr + y) =
        (if get_base (ldt me 2) = 0 \<and> 0xA0 \<le> tbl_index y then None
         else map_option copied (walk s (get_base (ldt me 2) + y)))))"
proof -
  obtain p s1 where g: "get_free_page s = (p, s1)" by fastforce
  consider "p = 0" | "p \<noteq> 0" by blast
  then show ?thesis
  proof cases
    case 1
    then have "copy_process nr r s = Inr (-1, s)" using g get_free_page_0 by (force simp: copy_process_def)
    then show ?thesis using assms(1) by blast
  next
    case 2
    note steps = copy_process_steps [OF g 2, of nr r]
    obtain res s5 where c: "copy_mem nr p (place_child nr p r s1) = Inr (res, s5)" "vm_inv (own(p := 1)) s5" "forked nr p r s s5"
        "res = 0 \<and> (\<forall>y. dir_index y < dir_count (get_limit (ldt me 2)) \<longrightarrow> walk s5 (new_base nr + y) =
        (if get_base (ldt me 2) = 0 \<and> 0xA0 \<le> tbl_index y then None
         else map_option copied (walk s (get_base (ldt me 2) + y)))) \<or> res = -1"
      using copy_process_memory [OF assms(1-4) g 2] unfolding me_def by blast
    show ?thesis
    proof (cases "res = 0")
      case False
      obtain s6 where s6: "free_page p (s5\<lparr>task := (task s5)(nr := 0)\<rparr>) = Inr s6" "kernel_ok own s6" "task s6 = task s"
          "\<forall>i < 64. tstruct s6 (task s i) = tstruct s (task s i)"
        by (rule fork_undone [OF assms(1) g 2 assms(5) c(2,3)])
      then have "copy_process nr r s = Inr (-1, s6)" using steps c(1) False by simp
      then show ?thesis using s6(2-4) by blast
    next
      case True
      let ?s = "start_child nr p s5"
      note f = c(3) [unfolded forked_def]
      have res: "copy_process nr r s = Inr (last_pid s, ?s)" using steps c(1) f True by simp
      have w: "\<forall>y. dir_index y < dir_count (get_limit (ldt me 2)) \<longrightarrow> walk ?s (new_base nr + y) =
        (if get_base (ldt me 2) = 0 \<and> 0xA0 \<le> tbl_index y then None
         else map_option copied (walk s (get_base (ldt me 2) + y)))" using c(4) True by (simp add: start_child_def)
      have "tstruct ?s = (tstruct s)(p := (moved_child nr p r s)\<lparr>state := TASK_RUNNING\<rparr>)" "gdt ?s = (gdt s)(2 * nr + FIRST_TSS_ENTRY := set_tss_desc (p + TSS_OFFSET),
                       2 * nr + FIRST_LDT_ENTRY := set_ldt_desc (p + LDT_OFFSET))" "task ?s = (task s)(nr := p)"
        using f by (simp_all add: start_child_def)
      note this(1) [unfolded started_child, folded me_def] this(2,3)
      then show ?thesis
        using res w get_free_page_nonzero(2) [OF g 2] fork_done [OF assms(1,3-5) g 2 c(2,3)]
        by (intro disjI2 exI conjI) assumption+
    qed
  qed
qed


text \<open>Task 0 alone, on the memory \<open>m\<close>: the first fork of the system.\<close>

definition boot_kern :: "mm \<Rightarrow> kern" where
  "boot_kern m = mm.extend m
     \<lparr>init_task = 0x20000, task = (\<lambda>_. 0)(0 := 0x20000), tstruct = (\<lambda>_. blank_task), current = 0x20000,
      last_task_used_math = 0, jiffies = 9, last_pid = 1, gdt = (\<lambda>_. \<lparr>desc_a = 0, desc_b = 0\<rparr>),
      idt = (\<lambda>_. \<lparr>desc_a = 0, desc_b = 0\<rparr>), cell = (\<lambda>_. 0), fpu = [], outs = []\<rparr>"

lemma boot_kern_mm: "HIGH_MEMORY (boot_kern m) = HIGH_MEMORY m" "mem_map (boot_kern m) = mem_map m" "phys (boot_kern m) = phys m"
  by (simp_all add: boot_kern_def mm.defs)

lemma boot_kern_simps:
  "init_task (boot_kern m) = 0x20000" "task (boot_kern m) = (\<lambda>_. 0)(0 := 0x20000)" "tstruct (boot_kern m) = (\<lambda>_. blank_task)"
  "current (boot_kern m) = 0x20000" "last_pid (boot_kern m) = 1"
  by (simp_all add: boot_kern_def mm.defs)

lemma boot_kern_ok:
  assumes "mem_init 0x100000 0x300000 head_state = Inr m"
  shows "kernel_ok (\<lambda>_. 0) (boot_kern m)" "forkable 1 (boot_kern m)"
proof -
  note c = mm_cong [OF boot_kern_mm]
  have "wf_tasks (boot_kern m)" by (simp add: wf_tasks_def boot_kern_simps)
  then show "kernel_ok (\<lambda>_. 0) (boot_kern m)"
    using vm_inv_boot [OF head_state_tables assms]
    by (simp add: kernel_ok_def c boot_kern_simps managed_def LOW_MEM_def)
  have z: "phys m = (\<lambda>_. 0)(0 := 0x1007, 4 := 0x2007, 8 := 0x3007, 12 := 0x4007)"
    using mem_init_boot(2) [OF assms] by (simp add: head_state_def)
  have d: "dirent m d = (if d < 4 then of_nat (4096 * (d + 1)) OR 7 else 0)" if "d < 1024" for d
    using head_state_tables that by (simp add: head_tables_def dirent_def z head_state_def)
  have p: "dir_present m d \<longleftrightarrow> d < 4" if "d < 1024" for d using that by (simp add: dir_present_def d)
  have "entry m 0 t = None" if "t < 1024" for t
  proof -
    have "table m 0 = 0x1000" by (simp add: table_def d)
    moreover have "unat (slot 0x1000 t) = 4096 + 4 * t" using that by (simp add: unat_slot)
    then have "phys m (slot 0x1000 t) = 0" by (auto simp: z)
    ultimately show ?thesis by (simp add: entry_def)
  qed
  moreover have "ldt blank_task k = \<lparr>desc_a = 0x9f, desc_b = 0xc0f200\<rparr>" for k by (simp add: blank_task_def)
  moreover have "get_base \<lparr>desc_a = 0x9f, desc_b = 0xc0f200\<rparr> = 0" by (simp add: get_base_def)
  moreover have "get_limit \<lparr>desc_a = 0x9f, desc_b = 0xc0f200\<rparr> = 0xa0000" by (simp add: get_limit_def Let_def)
  moreover have "dir_count 0xa0000 = 1" by (simp add: dir_count_def)
  moreover have "dir_index 0 = 0" by (simp add: dir_index_def)
  ultimately show "forkable 1 (boot_kern m)"
    unfolding forkable_def Let_def boot_kern_simps c by (auto simp: p copyable_def)
qed


end
