(* ===== verification/User_Mem.thy ===== *)
theory User_Mem
  imports Fork
begin

text \<open>
  How the kernel reaches the memory of the current task: the functions of
  include/asm/segment.h go through the segment register \<open>fs\<close>, which holds the selector
  \<open>0x17\<close> of the task's data segment (kernel/system_call.s), and from there through the page
  tables. boot/head.s leaves the bit WP of \<open>cr0\<close> clear, so a write of the kernel to a
  present page never faults; an access to a missing page runs the page-fault handler. The
  words of physical memory are little-endian.
\<close>

section \<open>Operations\<close>

definition get_byte :: "u32 \<Rightarrow> nat \<Rightarrow> u8" where
  "get_byte w k = ucast (drop_bit (8 * k) w)"

definition put_byte :: "u32 \<Rightarrow> nat \<Rightarrow> u8 \<Rightarrow> u32" where
  "put_byte w k v = (w AND NOT (push_bit (8 * k) (mask 8))) OR push_bit (8 * k) (ucast v)"

text \<open>The word and the byte in it that hold the linear address \<open>x\<close> under the entry \<open>e\<close>.\<close>

definition word_of :: "u32 \<Rightarrow> u32 \<Rightarrow> u32" where
  "word_of e x = slot (page_of e) (unat x mod 4096 div 4)"

definition byte_of :: "u32 \<Rightarrow> nat" where
  "byte_of x = unat x mod 4"

definition load_byte :: "u32 \<Rightarrow> 'a mm_scheme \<Rightarrow> u8" where
  "load_byte x s = (case walk s x of None \<Rightarrow> 0 | Some e \<Rightarrow> get_byte (phys s (word_of e x)) (byte_of x))"

definition store_byte :: "u32 \<Rightarrow> u8 \<Rightarrow> 'a mm_scheme \<Rightarrow> 'a mm_scheme" where
  "store_byte x v s =
     (case walk s x of None \<Rightarrow> s
      | Some e \<Rightarrow> store (word_of e x) (put_byte (phys s (word_of e x)) (byte_of x) v) s)"

definition touch :: "u32 \<Rightarrow> u32 \<Rightarrow> 'a mm_scheme \<Rightarrow> kerror + 'a mm_scheme" where
  "touch ec x s = (if walk s x = None then page_fault ec x s else Inr s)"

text \<open>The linear address of \<open>n\<close> bytes at offset \<open>addr\<close> of \<open>fs\<close>, if they lie within the segment.\<close>

definition fs_linear :: "u32 \<Rightarrow> nat \<Rightarrow> 'a kern_scheme \<Rightarrow> kerror + u32" where
  "fs_linear addr n s =
     (let d = ldt (tstruct s (current s)) 2 in
      if unat addr + n \<le> unat (get_limit d - 1) + 1 then Inr (get_base d + addr)
      else Inl (Halt ''general protection''))"

definition get_fs_byte :: "u32 \<Rightarrow> 'a kern_scheme \<Rightarrow> kerror + u8 \<times> 'a kern_scheme" where
  "get_fs_byte addr s =
     kbind (fs_linear addr 1 s) (\<lambda>x. kbind (touch 0 x s) (\<lambda>s1. Inr (load_byte x s1, s1)))"

definition put_fs_byte :: "u8 \<Rightarrow> u32 \<Rightarrow> 'a kern_scheme \<Rightarrow> kerror + 'a kern_scheme" where
  "put_fs_byte v addr s =
     kbind (fs_linear addr 1 s) (\<lambda>x. kbind (touch 2 x s) (\<lambda>s1. Inr (store_byte x v s1)))"

text \<open>A sequence of bytes at consecutive offsets, as a wider access or a loop writes and reads them.\<close>

fun put_fs_bytes :: "u8 list \<Rightarrow> u32 \<Rightarrow> 'a kern_scheme \<Rightarrow> kerror + 'a kern_scheme" where
  "put_fs_bytes [] addr s = Inr s"
| "put_fs_bytes (b # bs) addr s = kbind (put_fs_byte b addr s) (put_fs_bytes bs (addr + 1))"

fun get_fs_bytes :: "nat \<Rightarrow> u32 \<Rightarrow> 'a kern_scheme \<Rightarrow> kerror + u8 list \<times> 'a kern_scheme" where
  "get_fs_bytes 0 addr s = Inr ([], s)"
| "get_fs_bytes (Suc n) addr s =
     kbind (get_fs_byte addr s) (\<lambda>(b, s1). kbind (get_fs_bytes n (addr + 1) s1) (\<lambda>(bs, s2). Inr (b # bs, s2)))"

definition long_bytes :: "u32 \<Rightarrow> u8 list" where
  "long_bytes w = [get_byte w 0, get_byte w 1, get_byte w 2, get_byte w 3]"

definition bytes_long :: "u8 list \<Rightarrow> u32" where
  "bytes_long bs = (\<Sum>k < 4. push_bit (8 * k) (ucast (bs ! k)))"

definition put_fs_long :: "u32 \<Rightarrow> u32 \<Rightarrow> 'a kern_scheme \<Rightarrow> kerror + 'a kern_scheme" where
  "put_fs_long v addr s = kbind (fs_linear addr 4 s) (\<lambda>_. put_fs_bytes (long_bytes v) addr s)"

definition get_fs_long :: "u32 \<Rightarrow> 'a kern_scheme \<Rightarrow> kerror + u32 \<times> 'a kern_scheme" where
  "get_fs_long addr s =
     kbind (fs_linear addr 4 s) (\<lambda>_. kbind (get_fs_bytes 4 addr s) (\<lambda>(bs, s1). Inr (bytes_long bs, s1)))"

definition get_fs_word :: "u32 \<Rightarrow> 'a kern_scheme \<Rightarrow> kerror + u16 \<times> 'a kern_scheme" where
  "get_fs_word addr s =
     kbind (fs_linear addr 2 s) (\<lambda>_. kbind (get_fs_bytes 2 addr s) (\<lambda>(bs, s1).
       Inr (\<Sum>k < 2. push_bit (8 * k) (ucast (bs ! k)), s1)))"

definition put_fs_word :: "u16 \<Rightarrow> u32 \<Rightarrow> 'a kern_scheme \<Rightarrow> kerror + 'a kern_scheme" where
  "put_fs_word v addr s =
     kbind (fs_linear addr 2 s) (\<lambda>_. put_fs_bytes [get_byte (ucast v) 0, get_byte (ucast v) 1] addr s)"

section \<open>Bytes of a word\<close>

lemma get_put_byte:
  assumes "j < 4" "k < 4"
  shows "get_byte (put_byte w k v) j = (if j = k then v else get_byte w j)"
proof (rule bit_word_eqI)
  fix n :: nat assume "n < LENGTH(8)"
  then have n: "n < 8" by simp
  have "8 * k \<le> 8 * j + n \<and> 8 * j + n - 8 * k < 8 \<longleftrightarrow> j = k" using n by auto
  moreover have "8 * j + n < 32" using n assms(1) by simp
  moreover have "bit v (8 * j + n - 8 * k) \<Longrightarrow> 8 * j + n - 8 * k < 8"
    using bit_imp_le_length [of v] by simp
  ultimately show "bit (get_byte (put_byte w k v) j) n = bit (if j = k then v else get_byte w j) n"
    using n by (auto simp: get_byte_def put_byte_def bit_simps)
qed

lemma byte_of_less [simp]: "byte_of x < 4"
  by (simp add: byte_of_def)

lemma page_of_word_of [simp]: "page_of (word_of e x) = page_of e"
proof -
  have "unat x mod 4096 div 4 < 1024" by (simp add: less_mult_imp_div_less)
  then show ?thesis by (simp add: word_of_def)
qed

lemma word_of_eq:
  assumes "page_of x = page_of y" "word_of e x = word_of e' y" "byte_of x = byte_of y"
  shows "x = y"
proof -
  have l: "unat z mod 4096 div 4 < 1024" for z :: u32 by (simp add: less_mult_imp_div_less)
  have "unat x mod 4096 div 4 = unat y mod 4096 div 4"
    using assms(2) l by (simp add: word_of_def)
  moreover have "unat z mod 4096 mod 4 = unat z mod 4" for z :: u32
    by (simp add: mod_mod_cancel)
  moreover have "unat x mod 4 = unat y mod 4" using assms(3) by (simp only: byte_of_def)
  ultimately have "unat x mod 4096 div 4 * 4 + unat x mod 4096 mod 4 = unat y mod 4096 div 4 * 4 + unat y mod 4096 mod 4"
    by (simp only:)
  then have o: "unat x mod 4096 = unat y mod 4096" by (simp only: div_mult_mod_eq)
  have "unat x div 4096 * 4096 = unat y div 4096 * 4096"
    using assms(1) by (metis unat_page_of)
  then have "unat x div 4096 * 4096 + unat x mod 4096 = unat y div 4096 * 4096 + unat y mod 4096"
    using o by (simp only:)
  then have "unat x = unat y" by (simp only: div_mult_mod_eq)
  then show ?thesis by (rule unsigned_word_eqI)
qed

section \<open>The memory of a task\<close>

text \<open>
  \<open>user_page s x\<close>: the page of \<open>x\<close> is missing, or lies in a frame of the pool that holds no
  page table. \<open>private_page s x\<close>: the frame has a single reference, this page's. The memory a task
  sees at \<open>x\<close> is \<open>load_byte x s\<close>: a missing page reads as zero, as its first access finds it.
\<close>

definition user_page :: "'a mm_scheme \<Rightarrow> u32 \<Rightarrow> bool" where
  "user_page s x \<longleftrightarrow> 4 \<le> dir_index x \<and>
     (case walk s x of None \<Rightarrow> True | Some e \<Rightarrow> pool s (page_of e) \<and> tables s (page_of e) = {})"

definition private_page :: "'a mm_scheme \<Rightarrow> u32 \<Rightarrow> bool" where
  "private_page s x \<longleftrightarrow> 4 \<le> dir_index x \<and>
     (case walk s x of None \<Rightarrow> True | Some e \<Rightarrow> pool s (page_of e) \<and> refs s (page_of e) = 1)"

lemma private_uses:
  assumes "vm_inv own s" "private_page s x" "walk s x = Some e"
  shows "uses s (page_of e) = 1" "tables s (page_of e) = {}" "own (page_of e) = 0"
proof -
  have p: "pool s (page_of e)" "refs s (page_of e) = 1" "4 \<le> dir_index x" using assms by (simp_all add: private_page_def)
  have "(dir_index x, tbl_index x) \<in> mappers s (page_of e)" using assms(3) p(3) by (simp add: mappers_def walk_def)
  then have "0 < card (mappers s (page_of e))" by (auto simp: card_gt_0_iff)
  moreover have "card (mappers s (page_of e)) + card (tables s (page_of e)) + own (page_of e) = 1"
    using vm_invD(3) [OF assms(1) p(1)] p(2) by (simp add: uses_def)
  ultimately have c: "card (mappers s (page_of e)) = 1" "card (tables s (page_of e)) = 0" "own (page_of e) = 0"
    by linarith+
  then show "uses s (page_of e) = 1" "own (page_of e) = 0" by (simp_all add: uses_def)
  show "tables s (page_of e) = {}" using c(2) by (simp only: card_0_eq [OF finite_tables])
qed

lemma private_user_page: "vm_inv own s \<Longrightarrow> private_page s x \<Longrightarrow> user_page s x"
  using private_uses(2) [of own s x] by (auto simp: private_page_def user_page_def split: option.splits)

lemma do_no_page_frames:
  fixes s :: "'a mm_scheme"
  assumes "vm_inv own s" "do_no_page ec x s = Inr s'"
  obtains p where "\<forall>y. walk s' y = (if page_of y = page_of x then Some (p OR 7) else walk s y)"
    "pool s p" "refs s p = 0" "refs s' p = 1" "tables s' p = {}" "\<forall>a. page_of a = p \<longrightarrow> phys s' a = 0"
    "\<forall>f. refs s f \<noteq> 0 \<longrightarrow> refs s' f = refs s f \<and> tables s' f = tables s f"
    "\<forall>f a. managed f \<and> refs s f \<noteq> 0 \<and> tables s f = {} \<and> page_of a = f \<longrightarrow> phys s' a = phys s a"
    "HIGH_MEMORY s' = HIGH_MEMORY s"
proof -
  note inv = vm_invD [OF assms(1)]
  obtain p s1 where g: "get_free_page s = (p, s1)" "p \<noteq> 0" and pp: "put_page p (page_of x) s1 = Inr (p, s')"
    by (rule do_no_page_success [OF inv(1,2) assms(2)])
  note gp = get_free_page_nonzero [OF g] and al = inv(1) g
  have w1: "wf_dir s1" by (rule wf_dir_alloc [OF al])
  note ps = put_page_success [OF pp g(2) w1]
  have tb: "tables s1 f = tables s f" for f
    by (auto simp: tables_def dir_present_alloc [OF al] table_alloc [OF al])
  have "tables s p = {}" using table_not_alloc [OF al] by (auto simp: tables_def)
  then have np: "tables s1 p = {}" by (simp add: tb)
  have r: "refs s' f = refs s1 f \<and> tables s' f = tables s1 f" if "refs s1 f \<noteq> 0" for f
    using ps that by (auto simp: same_dirs_def new_dir_def tables_def)
  have "walk s' y = (if page_of y = page_of (page_of x) then Some (p OR 7) else walk s1 y)" for y
    by (rule walk_eq_entry) (use ps in blast)
  moreover have "walk s1 y = walk s y" for y by (simp add: walk_def entry_alloc [OF al])
  ultimately have wk: "\<forall>y. walk s' y = (if page_of y = page_of x then Some (p OR 7) else walk s y)" by simp
  have r1: "refs s' p = 1" "tables s' p = {}" using r [of p] np by (simp_all add: gp(3))
  have z: "\<forall>a. page_of a = p \<longrightarrow> phys s' a = 0"
  proof (intro allI impI)
    fix a assume a: "page_of a = p"
    have "phys s' a = phys s1 a"
      by (rule put_page_frame_content [OF pp w1 gp(1)]) (use np a in \<open>auto simp: gp(3) tables_def\<close>)
    with a show "phys s' a = 0" by (simp add: gp(4) clear_page_def)
  qed
  have o1: "refs s' f = refs s f \<and> tables s' f = tables s f" if "refs s f \<noteq> 0" for f
    using r [of f] that gp(2) tb by (auto simp: gp(3))
  have o2: "phys s' a = phys s a" if f: "managed f" "refs s f \<noteq> 0" "tables s f = {}" "page_of a = f" for f a
  proof -
    have n: "f \<noteq> p" using f(2) gp(2) by auto
    have "phys s' a = phys s1 a"
      by (rule put_page_frame_content [OF pp w1 f(1)]) (use n f tb [of f] in \<open>auto simp: gp(3) tables_def\<close>)
    with n f(4) show ?thesis by (simp add: gp(4) clear_page_def)
  qed
  show thesis
    by (rule that [OF wk get_free_page_pool(1) [OF inv(2) g] gp(2) r1 z]) (use o1 o2 ps gp(5) in auto)
qed

lemma vm_inv_mapped:
  assumes "vm_inv own s" "4 \<le> dir_index y" "walk s y = Some e" "pool s (page_of e)"
  shows "refs s (page_of e) \<noteq> 0" "managed (page_of e)"
  using vm_inv_used [OF assms(1,2) dir_index_less tbl_index_less assms(3) [unfolded walk_def]] assms(4)
  by (simp_all add: pool_def)

lemma load_zero: "get_byte 0 k = 0"
  by (simp add: get_byte_def)

text \<open>A fault on a missing page leaves the memory every task sees as it was.\<close>

lemma touch_spec:
  fixes s :: "'a mm_scheme"
  assumes "vm_inv own s" "4 \<le> dir_index x" "ec AND 1 = 0" "touch ec x s = Inr s'"
  shows "vm_inv own s' \<and> mm.more s' = mm.more s \<and> HIGH_MEMORY s' = HIGH_MEMORY s \<and> walk s' x \<noteq> None \<and>
    (\<forall>y. user_page s y \<longrightarrow> user_page s' y \<and> load_byte y s' = load_byte y s) \<and>
    (\<forall>y. private_page s y \<longrightarrow> private_page s' y)"
proof (cases "walk s x = None")
  case False
  with assms(1,4) show ?thesis by (simp add: touch_def)
next
  case True
  with assms(3,4) have d: "do_no_page ec x s = Inr s'" by (simp add: touch_def page_fault_def)
  obtain p where w: "\<forall>y. walk s' y = (if page_of y = page_of x then Some (p OR 7) else walk s y)"
    and p: "pool s p" "refs s p = 0" "refs s' p = 1" "tables s' p = {}" "\<forall>a. page_of a = p \<longrightarrow> phys s' a = 0"
    and o: "\<forall>f. refs s f \<noteq> 0 \<longrightarrow> refs s' f = refs s f \<and> tables s' f = tables s f"
    "\<forall>f a. managed f \<and> refs s f \<noteq> 0 \<and> tables s f = {} \<and> page_of a = f \<longrightarrow> phys s' a = phys s a"
    and h: "HIGH_MEMORY s' = HIGH_MEMORY s"
    by (rule do_no_page_frames [OF assms(1) d])
  have pl: "pool s' = pool s" using h by (simp add: pool_def fun_eq_iff)
  have pa: "page_of (p OR 7) = p" using p(1) by (simp add: pool_def)
  have nx: "walk s y = None" if "page_of y = page_of x" for y
    using True that same_page_iff [of y x] by (simp add: walk_def)
  have "user_page s' y \<and> load_byte y s' = load_byte y s" if u: "user_page s y" for y
  proof (cases "page_of y = page_of x")
    case True
    have "phys s' (word_of (p OR 7) y) = 0" using p(5) pa by simp
    then show ?thesis using u True nx [OF True] w p pl pa by (simp add: user_page_def load_byte_def load_zero)
  next
    case False
    then have wy: "walk s' y = walk s y" using w by simp
    show ?thesis
    proof (cases "walk s y")
      case None
      then show ?thesis using u wy by (simp add: user_page_def load_byte_def)
    next
      case (Some e)
      then have e: "pool s (page_of e)" "tables s (page_of e) = {}" "4 \<le> dir_index y" using u by (simp_all add: user_page_def)
      note m = vm_inv_mapped [OF assms(1) e(3) Some e(1)]
      have "phys s' (word_of e y) = phys s (word_of e y)" using o(2) m e(2) by simp
      then show ?thesis using u wy Some o(1) m(1) pl by (simp add: user_page_def load_byte_def)
    qed
  qed
  moreover have "private_page s' y" if u: "private_page s y" for y
  proof (cases "page_of y = page_of x")
    case True
    then show ?thesis using u w p pl pa by (simp add: private_page_def)
  next
    case False
    then have "walk s' y = walk s y" using w by simp
    then show ?thesis using u o(1) pl by (auto simp: private_page_def split: option.splits)
  qed
  moreover have "walk s' x \<noteq> None" using w by simp
  ultimately show ?thesis
    using vm_inv_do_no_page [OF assms(1,2) True d] more_do_no_page [OF d] h by blast
qed

text \<open>A byte of a private page is in no table.\<close>

lemma store_byte_tables:
  fixes s :: "'a mm_scheme" and v :: u8
  assumes "vm_inv own s" "private_page s x" "walk s x = Some e"
  defines "s' \<equiv> store_byte x v s"
  shows "phys s' = (phys s)(word_of e x := put_byte (phys s (word_of e x)) (byte_of x) v)"
    and "d < 1024 \<Longrightarrow> dirent s' d = dirent s d" and "d < 1024 \<Longrightarrow> t < 1024 \<Longrightarrow> entry s' d t = entry s d t"
    and "walk s' y = walk s y"
proof -
  let ?a = "word_of e x"
  note u = private_uses [OF assms(1-3)]
  have "page_of e \<noteq> 0" using assms(2,3) by (auto simp: private_page_def pool_def)
  then have nz: "page_of (slot 0 d) \<noteq> page_of ?a" if "d < 1024" for d using that by simp
  show ps: "phys s' = (phys s)(?a := put_byte (phys s ?a) (byte_of x) v)" by (simp add: s'_def store_byte_def assms(3))
  show d: "dirent s' d = dirent s d" if "d < 1024" for d using nz [OF that] by (metis dirent_def ps fun_upd_other)
  show en: "entry s' d t = entry s d t" if "d < 1024" "t < 1024" for d t
  proof (cases "dir_present s d")
    case True
    then have "page_of (slot (table s d) t) \<noteq> page_of ?a" using u(2) that by (auto simp: tables_def)
    then have "slot (table s d) t \<noteq> ?a" by metis
    then show ?thesis using same_dirent [OF d [OF that(1)]] by (simp add: entry_def ps)
  next
    case False
    then show ?thesis using same_dirent [OF d [OF that(1)]] by (simp add: entry_def)
  qed
  show "walk s' y = walk s y" by (simp add: walk_def en)
qed

lemma store_byte_load:
  fixes s :: "'a mm_scheme" and v :: u8
  assumes "vm_inv own s" "private_page s x" "walk s x = Some e" "user_page s y"
  shows "load_byte y (store_byte x v s) = (if y = x then v else load_byte y s)"
proof (cases "walk s y")
  case None
  then have "y \<noteq> x" using assms(3) by auto
  with None show ?thesis using store_byte_tables(4) [OF assms(1-3)] by (simp add: load_byte_def)
next
  case (Some f)
  note ps = store_byte_tables(1) [OF assms(1-3)] and wk = store_byte_tables(4) [OF assms(1-3)]
  show ?thesis
  proof (cases "word_of f y = word_of e x")
    case False
    then have "y \<noteq> x" using assms(3) Some by auto
    with False show ?thesis by (simp add: load_byte_def wk Some ps)
  next
    case True
    then have pf: "page_of f = page_of e" using page_of_word_of by metis
    have "4 \<le> dir_index x" using assms(2,3) by (simp add: private_page_def)
    then have "1 < uses s (page_of f)" if "page_of y \<noteq> page_of x"
      using two_mappers [of y x s f e] assms(3,4) Some pf that by (auto simp: user_page_def)
    then have "page_of y = page_of x" using private_uses(1) [OF assms(1-3)] pf by force
    then have "y = x \<longleftrightarrow> byte_of y = byte_of x" using word_of_eq [OF _ True] by blast
    then show ?thesis by (simp add: load_byte_def wk Some assms(3) True ps get_put_byte)
  qed
qed

text \<open>A store into a private page changes the memory at one address.\<close>

lemma store_byte_spec:
  fixes s :: "'a mm_scheme" and v :: u8
  assumes "vm_inv own s" "private_page s x" "walk s x \<noteq> None"
  defines "s' \<equiv> store_byte x v s"
  shows "vm_inv own s' \<and> mm.more s' = mm.more s \<and> HIGH_MEMORY s' = HIGH_MEMORY s \<and> mem_map s' = mem_map s \<and>
    (\<forall>y. 4 \<le> dir_index y \<longrightarrow> walk s' y = walk s y) \<and>
    (\<forall>y. user_page s y \<longrightarrow> user_page s' y \<and> load_byte y s' = (if y = x then v else load_byte y s)) \<and>
    (\<forall>y. private_page s y \<longrightarrow> private_page s' y)"
proof -
  obtain e where e: "walk s x = Some e" using assms(3) by blast
  note inv = vm_invD [OF assms(1)] and st = store_byte_tables [OF assms(1,2) e, where v = v, folded s'_def]
  note dd = same_dirent [OF st(2)]
  have same: "mm.more s' = mm.more s" "HIGH_MEMORY s' = HIGH_MEMORY s" "mem_map s' = mem_map s"
    by (simp_all add: s'_def store_byte_def e)
  then have r: "refs s' = refs s" "pool s' = pool s" by (simp_all add: refs_def pool_def fun_eq_iff)
  have us: "uses s' = uses s" by (rule uses_cong) (simp_all add: dd st(3))
  have tb: "tables s' f = tables s f" for f by (auto simp: tables_def dd)
  have "wf_dir s'" by (rule wf_dir_cong [OF inv(1) st(2)]) (use wf_dirD(2) [OF inv(1)] r in auto)
  moreover have "alloc_inv s'" using inv(2) same by (simp add: alloc_inv_def)
  ultimately have "vm_inv own s'" using inv(3) r us by (intro vm_invI) simp_all
  moreover have "user_page s' y = user_page s y" "private_page s' y = private_page s y" for y
    by (cases "walk s y"; simp add: user_page_def private_page_def st(4) tb r)+
  ultimately show ?thesis
    using same st(4) store_byte_load [OF assms(1,2) e, where v = v, folded s'_def] by simp
qed

text \<open>
  The state of user memory between two system calls: a frame lies below 1 MB or in the pool,
  and a page that can be written is not shared.
\<close>

definition user_ok :: "(u32 \<Rightarrow> nat) \<Rightarrow> 'a mm_scheme \<Rightarrow> bool" where
  "user_ok own s \<longleftrightarrow> vm_inv own s \<and> (\<forall>y e. 4 \<le> dir_index y \<and> walk s y = Some e \<longrightarrow>
     (page_of e < LOW_MEM \<or> pool s (page_of e)) \<and>
     (e AND 2 \<noteq> 0 \<longrightarrow> pool s (page_of e) \<and> refs s (page_of e) = 1))"

lemma user_okD:
  assumes "user_ok own s"
  shows "vm_inv own s"
    "\<And>y e. 4 \<le> dir_index y \<Longrightarrow> walk s y = Some e \<Longrightarrow> page_of e < LOW_MEM \<or> pool s (page_of e)"
    "\<And>y e. 4 \<le> dir_index y \<Longrightarrow> walk s y = Some e \<Longrightarrow> valid_frame (page_of e)"
    "\<And>y e. 4 \<le> dir_index y \<Longrightarrow> walk s y = Some e \<Longrightarrow> e AND 2 \<noteq> 0 \<Longrightarrow> private_page s y"
proof -
  show v: "vm_inv own s" and l: "\<And>y e. 4 \<le> dir_index y \<Longrightarrow> walk s y = Some e \<Longrightarrow> page_of e < LOW_MEM \<or> pool s (page_of e)"
    and "\<And>y e. 4 \<le> dir_index y \<Longrightarrow> walk s y = Some e \<Longrightarrow> e AND 2 \<noteq> 0 \<Longrightarrow> private_page s y"
    using assms by (auto simp: user_ok_def private_page_def)
  show "valid_frame (page_of e)" if "4 \<le> dir_index y" "walk s y = Some e" for y e
    using l [OF that] vm_invD(2) [OF v]
    by (auto simp: valid_frame_def alloc_inv_def pool_def managed_def LOW_MEM_def word_less_nat_alt word_le_nat_alt)
qed

lemma user_ok_cong:
  assumes "user_ok own s" "vm_inv own s'" "\<And>y. 4 \<le> dir_index y \<Longrightarrow> walk s' y = walk s y" "refs s' = refs s" "pool s' = pool s"
  shows "user_ok own s'"
  unfolding user_ok_def assms(4,5)
proof (intro conjI allI impI assms(2))
  fix y e assume "4 \<le> dir_index y \<and> walk s' y = Some e"
  then have "4 \<le> dir_index y \<and> walk s y = Some e" using assms(3) [of y] by auto
  then show "page_of e < LOW_MEM \<or> pool s (page_of e)" "e AND 2 \<noteq> 0 \<Longrightarrow> pool s (page_of e)"
    "e AND 2 \<noteq> 0 \<Longrightarrow> refs s (page_of e) = 1"
    using assms(1) unfolding user_ok_def by blast+
qed

lemma user_mem_cong:
  fixes s :: "'a mm_scheme" and s' :: "'b mm_scheme"
  assumes "HIGH_MEMORY s' = HIGH_MEMORY s" "mem_map s' = mem_map s" "phys s' = phys s"
  shows "user_ok own s' = user_ok own s" "load_byte y s' = load_byte y s" "user_page s' y = user_page s y"
    "private_page s' y = private_page s y" "walk s' = walk s"
proof -
  note c = mm_cong [OF assms]
  then have "tables s' = tables s" by (simp add: tables_def fun_eq_iff)
  then show "user_page s' y = user_page s y" using c by (simp add: user_page_def cong: option.case_cong)
qed (use assms mm_cong [OF assms] in \<open>simp_all add: user_ok_def load_byte_def private_page_def cong: option.case_cong\<close>)

lemma present_bits:
  assumes "e AND 1 \<noteq> (0 :: u32)" shows "e AND 3 = 1 \<longleftrightarrow> e AND 2 = 0"
proof -
  have one: "e AND 1 = 1" using assms by (simp add: and_one_eq mod2_eq_if split: if_splits)
  have "(3 :: u32) = 1 OR 2" by simp
  then have s: "e AND 3 = 1 OR (e AND 2)" by (simp only: bit.conj_disj_distrib one)
  have "e AND push_bit 1 1 = (if bit e 1 then push_bit 1 1 else 0)"
    by (rule bit_word_eqI) (auto simp: bit_simps)
  then have "e AND 2 = 0 \<or> e AND 2 = 2" by (simp split: if_splits)
  then show ?thesis using s by auto
qed

lemma write_verify_eq:
  "write_verify x s = (case walk s x of None \<Rightarrow> Inr s
     | Some e \<Rightarrow> if e AND 2 = 0 then un_wp_page (slot (table s (dir_index x)) (tbl_index x)) s else Inr s)"
proof (cases "dir_present s (dir_index x)")
  case False
  then show ?thesis by (simp add: write_verify_def page_arith walk_def entry_def dir_present_def dirent_def)
next
  case True
  let ?e = "phys s (slot (table s (dir_index x)) (tbl_index x))"
  have w: "write_verify x s = (if ?e AND 3 = 1 then un_wp_page (slot (table s (dir_index x)) (tbl_index x)) s else Inr s)"
    using True by (simp add: write_verify_def page_arith dir_present_def table_def dirent_def Let_def)
  show ?thesis
  proof (cases "?e AND 1 = 0")
    case True
    have "?e AND 3 \<noteq> 1"
    proof
      assume "?e AND 3 = 1"
      then have "(?e AND 3) AND 1 = 1 AND 1" by (rule arg_cong)
      then have "?e AND 1 = 1" by (simp add: and.assoc)
      with True show False by simp
    qed
    then show ?thesis using w True by (simp add: walk_def entry_def)
  next
    case False
    then have "walk s x = Some ?e" using True by (simp add: walk_def entry_def)
    with w present_bits [OF False] show ?thesis by simp
  qed
qed

lemma un_wp_page_content:
  fixes s :: "'a mm_scheme"
  assumes "wf_dir s" "d0 < 1024" "t0 < 1024" "entry s d0 t0 = Some e" "valid_frame (page_of e)"
    and "managed (page_of e) \<longrightarrow> refs s (page_of e) \<noteq> 0" and res: "un_wp_page (slot (table s d0) t0) s = Inr s'"
    and f: "page_of a = f" "tables s f = {}" "managed f" "refs s f \<noteq> 0"
  shows "phys s' a = phys s a"
proof -
  have "dir_present s d0" using assms(4) by (auto simp: entry_def split: if_splits)
  then have "table s d0 \<noteq> f" using f(2) assms(2) by (auto simp: tables_def)
  then have n: "a \<noteq> slot (table s d0) t0" using f(1) assms(3) by auto
  show ?thesis
    using assms(1-6)
  proof (cases rule: un_wp_page_outcome)
    case sole
    with res n show ?thesis by auto
  next
    case (copied p s1 s2)
    note g = get_free_page_nonzero [OF copied(1,2)]
    have "p \<noteq> f" using g(2) f(4) by auto
    moreover have "phys s2 = phys s1" by (subst copied(7)) simp
    ultimately show ?thesis using res n copied(5) f(1) by (auto simp: g(4) clear_page_def)
  next
    case full
    with res show ?thesis by (simp add: oom_def)
  qed
qed

text \<open>The protected page of \<open>x\<close>, with the entry \<open>e\<close>, has become writable with the entry \<open>e'\<close>.\<close>

definition unprotected :: "(u32 \<Rightarrow> nat) \<Rightarrow> u32 \<Rightarrow> u32 \<Rightarrow> u32 \<Rightarrow> 'a mm_scheme \<Rightarrow> 'a mm_scheme \<Rightarrow> bool" where
  "unprotected own x e e' s s' \<longleftrightarrow> vm_inv own s' \<and> walk s x = Some e \<and>
     (\<forall>y. walk s' y = (if page_of y = page_of x then Some e' else walk s y)) \<and> tables s' = tables s \<and> pool s' = pool s \<and>
     pool s (page_of e') \<and> refs s' (page_of e') = 1 \<and> (\<forall>f. managed f \<and> refs s f = 1 \<longrightarrow> refs s' f = 1) \<and>
     (managed (page_of e) \<and> refs s (page_of e) = 1 \<longrightarrow> e' = e OR 2) \<and>
     (\<forall>a. managed (page_of a) \<and> refs s (page_of a) \<noteq> 0 \<and> tables s (page_of a) = {} \<longrightarrow> phys s' a = phys s a)"

lemma un_wp_unprotected:
  fixes s :: "'a mm_scheme"
  assumes "user_ok own s" "4 \<le> dir_index x" "walk s x = Some e"
    and res: "un_wp_page (slot (table s (dir_index x)) (tbl_index x)) s = Inr s'"
  obtains e' where "unprotected own x e e' s s'"
proof -
  note ok = user_okD [OF assms(1)] and w = assms(3) [unfolded walk_def] and more = more_un_wp_page [OF res]
  note inv = vm_invD [OF ok(1)] and v = ok(3) [OF assms(2,3)]
  note used = vm_inv_refs_managed [OF ok(1) assms(2) dir_index_less tbl_index_less w]
  note inv' = vm_inv_un_wp_page [OF ok(1) assms(2) dir_index_less tbl_index_less w v res]
  from inv(1) dir_index_less tbl_index_less w v used res obtain e' where e': "e' AND 2 = 2"
      "\<And>d. d < 1024 \<Longrightarrow> dir_present s' d = dir_present s d \<and> table s' d = table s d"
      "\<And>d t. d < 1024 \<Longrightarrow> t < 1024 \<Longrightarrow> entry s' d t = (if d = dir_index x \<and> t = tbl_index x then Some e' else entry s d t)"
      "managed (page_of e')" "refs s' (page_of e') = 1"
    and cs: "e' = e OR 2 \<and> refs s' = refs s \<or>
       e' = page_of e' OR 7 \<and> page_of e' \<noteq> page_of e \<and> refs s (page_of e') = 0 \<and> (managed (page_of e) \<longrightarrow> 1 < refs s (page_of e)) \<and>
       refs s' = (\<lambda>f. if f = page_of e' then 1 else if f = page_of e \<and> managed f then refs s f - 1 else refs s f) \<and>
       (\<forall>a. page_of a = page_of e' \<longrightarrow> phys s' a = 0)"
    by (rule un_wp_page_success) blast
  have pl: "pool s' = pool s" using more by (simp add: pool_def fun_eq_iff)
  have "pool s (page_of e')"
  proof (cases "refs s (page_of e') = 0")
    case True
    then have "mem_map s (MAP_NR (page_of e')) = 0" using e'(4) by (simp add: refs_def unat_eq_0)
    then have "page_of e' < HIGH_MEMORY s" using inv(2) managed_eq_frame [OF e'(4)] by (metis alloc_inv_def not_le)
    then show ?thesis using e'(4) by (simp add: pool_def)
  next
    case False
    then have "page_of e' = page_of e" using cs by (auto simp: or_2_flags)
    then show ?thesis using ok(2) [OF assms(2,3)] e'(4) by (auto simp: managed_def)
  qed
  moreover have "tables s' = tables s" using e'(2) by (intro ext set_eqI) (auto simp: tables_def)
  moreover have "walk s' y = (if page_of y = page_of x then Some e' else walk s y)" for y
    by (rule walk_eq_entry) (use e'(3) in blast)
  moreover have "refs s' f = 1" if "refs s f = 1" "managed f" for f using cs that by auto
  moreover have "e' = e OR 2" if "managed (page_of e)" "refs s (page_of e) = 1" using cs that by auto
  moreover have "phys s' a = phys s a" if "tables s (page_of a) = {}" "managed (page_of a)" "refs s (page_of a) \<noteq> 0" for a
    by (rule un_wp_page_content [OF inv(1) dir_index_less tbl_index_less w v used res refl that])
  ultimately have "unprotected own x e e' s s'"
    unfolding unprotected_def using inv' assms(3) pl e'(5) by blast
  then show thesis by (rule that)
qed

lemma unprotected_page:
  assumes "unprotected own x e e' s s'" "vm_inv own0 s" "user_page s y" "page_of y \<noteq> page_of x"
  shows "user_page s' y \<and> load_byte y s' = load_byte y s"
proof (cases "walk s y")
  case None
  then show ?thesis using assms by (simp add: unprotected_def user_page_def load_byte_def)
next
  case (Some f)
  then have f: "pool s (page_of f)" "tables s (page_of f) = {}" "4 \<le> dir_index y" using assms(3) by (simp_all add: user_page_def)
  have "refs s (page_of f) \<noteq> 0" "managed (page_of f)" using vm_inv_mapped [OF assms(2) f(3) Some f(1)] f(1) by (simp_all add: pool_def)
  then have "phys s' (word_of f y) = phys s (word_of f y)" using assms(1) f(2) by (simp add: unprotected_def)
  then show ?thesis using assms Some f by (simp add: unprotected_def user_page_def load_byte_def)
qed

lemma unprotected_private:
  assumes "unprotected own x e e' s s'" "vm_inv own0 s" "private_page s y"
  shows "private_page s' y \<and> load_byte y s' = load_byte y s"
proof (cases "page_of y = page_of x")
  case True
  note u = assms(1) [unfolded unprotected_def]
  have "dir_index y = dir_index x \<and> tbl_index y = tbl_index x" using True same_page_iff by blast
  then have wy: "walk s y = Some e" using u by (simp add: walk_def)
  then have f: "pool s (page_of e)" "refs s (page_of e) = 1" "4 \<le> dir_index y" using assms(3) by (simp_all add: private_page_def)
  then have e': "e' = e OR 2" using u by (auto simp: pool_def)
  have "phys s' (word_of e y) = phys s (word_of e y)"
    using u f private_uses(2) [OF assms(2,3) wy] by (simp add: pool_def)
  moreover have "word_of e' y = word_of e y" by (simp add: word_of_def e' or_2_flags)
  ultimately show ?thesis using u f wy True by (simp add: private_page_def load_byte_def)
next
  case False
  then have "private_page s' y"
    using assms(1,3) by (auto simp: unprotected_def private_page_def pool_def split: option.splits)
  with unprotected_page [OF assms(1,2) private_user_page [OF assms(2,3)] False] show ?thesis by simp
qed

lemma unprotected_ok:
  assumes "unprotected own x e e' s s'" "user_ok own s"
  shows "user_ok own s'"
  unfolding user_ok_def
proof (intro conjI allI impI)
  note u = assms(1) [unfolded unprotected_def] and ok = user_okD [OF assms(2)]
  show "vm_inv own s'" using u by blast
  fix y f assume y: "4 \<le> dir_index y \<and> walk s' y = Some f"
  have "(page_of f < LOW_MEM \<or> pool s' (page_of f)) \<and> (f AND 2 \<noteq> 0 \<longrightarrow> pool s' (page_of f) \<and> refs s' (page_of f) = 1)"
  proof (cases "page_of y = page_of x")
    case True
    then show ?thesis using y u by auto
  next
    case False
    then have "walk s y = Some f" using y u by simp
    then show ?thesis using y ok(2,4) u by (auto simp: private_page_def pool_def)
  qed
  then show "page_of f < LOW_MEM \<or> pool s' (page_of f)" "f AND 2 \<noteq> 0 \<Longrightarrow> pool s' (page_of f)"
    "f AND 2 \<noteq> 0 \<Longrightarrow> refs s' (page_of f) = 1" by auto
qed

text \<open>One page of \<open>verify_area\<close>: afterwards the page is private, if it is there at all.\<close>

lemma write_verify_spec:
  fixes s :: "'a mm_scheme"
  assumes "user_ok own s" "4 \<le> dir_index x" "write_verify x s = Inr s'"
  shows "user_ok own s' \<and> mm.more s' = mm.more s \<and> HIGH_MEMORY s' = HIGH_MEMORY s \<and> private_page s' x \<and>
    (\<forall>y. user_page s y \<and> page_of y \<noteq> page_of x \<longrightarrow> user_page s' y \<and> load_byte y s' = load_byte y s) \<and>
    (\<forall>y. private_page s y \<longrightarrow> private_page s' y \<and> load_byte y s' = load_byte y s)"
proof (cases "\<exists>e. walk s x = Some e \<and> e AND 2 = 0")
  case False
  then have "s' = s" using assms(3) by (auto simp: write_verify_eq split: option.splits)
  moreover have "private_page s x"
    using False user_okD(4) [OF assms(1,2)] assms(2) by (cases "walk s x") (auto simp: private_page_def)
  ultimately show ?thesis using assms(1) by simp
next
  case True
  then obtain e where e: "walk s x = Some e" "e AND 2 = 0" by blast
  then obtain e' where u: "unprotected own x e e' s s'"
    using un_wp_unprotected [OF assms(1,2) e(1)] assms(3) by (auto simp: write_verify_eq)
  then have "private_page s' x" using assms(2) by (simp add: unprotected_def private_page_def)
  then show ?thesis
    using more_write_verify [OF assms(3)] unprotected_ok [OF u assms(1)] unprotected_page [OF u user_okD(1) [OF assms(1)]]
      unprotected_private [OF u user_okD(1) [OF assms(1)]] by blast
qed

section \<open>Reading and writing\<close>

text \<open>A page of user space that a task can write to without a fault.\<close>

definition writable_page :: "'a mm_scheme \<Rightarrow> u32 \<Rightarrow> bool" where
  "writable_page s x \<longleftrightarrow> 4 \<le> dir_index x \<and> (\<exists>e. walk s x = Some e \<and> e AND 2 \<noteq> 0)"

text \<open>\<open>writes own s f s'\<close>: the step from \<open>s\<close> to \<open>s'\<close> gives user memory the contents \<open>f\<close>, and
  changes nothing else a task or the kernel can see.\<close>

definition writes :: "(u32 \<Rightarrow> nat) \<Rightarrow> 'a mm_scheme \<Rightarrow> (u32 \<Rightarrow> u8) \<Rightarrow> 'a mm_scheme \<Rightarrow> bool" where
  "writes own s f s' \<longleftrightarrow> user_ok own s' \<and> mm.more s' = mm.more s \<and> HIGH_MEMORY s' = HIGH_MEMORY s \<and>
     (\<forall>y. user_page s y \<longrightarrow> user_page s' y \<and> load_byte y s' = f y) \<and>
     (\<forall>y. private_page s y \<longrightarrow> private_page s' y) \<and> (\<forall>y. writable_page s y \<longrightarrow> writable_page s' y)"

lemma writesD:
  assumes "writes own s f s'"
  shows "user_ok own s'" "mm.more s' = mm.more s" "HIGH_MEMORY s' = HIGH_MEMORY s"
    "\<And>y. user_page s y \<Longrightarrow> user_page s' y" "\<And>y. user_page s y \<Longrightarrow> load_byte y s' = f y"
    "\<And>y. private_page s y \<Longrightarrow> private_page s' y" "\<And>y. writable_page s y \<Longrightarrow> writable_page s' y"
  using assms by (auto simp: writes_def)

lemma writes_refl: "user_ok own s \<Longrightarrow> writes own s (\<lambda>y. load_byte y s) s"
  by (simp add: writes_def)

lemma writes_trans:
  assumes "writes own s f s1" "writes own s1 g s'" "\<And>y. user_page s y \<Longrightarrow> g y = h y"
  shows "writes own s h s'"
  using assms unfolding writes_def by simp

lemma touch_writes:
  assumes "user_ok own s" "4 \<le> dir_index x" "ec AND 1 = 0" "touch ec x s = Inr s'"
  shows "writes own s (\<lambda>y. load_byte y s) s' \<and> walk s' x \<noteq> None"
proof -
  note ok = user_okD [OF assms(1)]
  note t = touch_spec [OF ok(1) assms(2-4)]
  have "user_ok own s'"
  proof (cases "walk s x = None")
    case False
    then show ?thesis using assms(1,4) by (auto simp: touch_def)
  next
    case True
    then have d: "do_no_page ec x s = Inr s'" using assms(3,4) by (simp add: touch_def page_fault_def)
    obtain p where w: "\<forall>y. walk s' y = (if page_of y = page_of x then Some (p OR 7) else walk s y)"
      and p: "pool s p" "refs s p = 0" "refs s' p = 1"
      and o: "\<forall>f. refs s f \<noteq> 0 \<longrightarrow> refs s' f = refs s f \<and> tables s' f = tables s f"
      by (rule do_no_page_frames [OF ok(1) d])
    have pl: "pool s' = pool s" using t by (simp add: pool_def fun_eq_iff)
    have pa: "page_of (p OR 7) = p" using p(1) by (simp add: pool_def)
    show ?thesis
      unfolding user_ok_def
    proof (intro conjI allI impI)
      show "vm_inv own s'" using t by blast
      fix y f assume y: "4 \<le> dir_index y \<and> walk s' y = Some f"
      have "(page_of f < LOW_MEM \<or> pool s' (page_of f)) \<and> (f AND 2 \<noteq> 0 \<longrightarrow> pool s' (page_of f) \<and> refs s' (page_of f) = 1)"
      proof (cases "page_of y = page_of x")
        case True
        then show ?thesis using y w p pl pa by auto
      next
        case False
        then have "walk s y = Some f" using y w by simp
        then show ?thesis using y ok(2,4) pl o by (auto simp: private_page_def)
      qed
      then show "page_of f < LOW_MEM \<or> pool s' (page_of f)" "f AND 2 \<noteq> 0 \<Longrightarrow> pool s' (page_of f)"
        "f AND 2 \<noteq> 0 \<Longrightarrow> refs s' (page_of f) = 1" by auto
    qed
  qed
  moreover have "writable_page s' y" if y: "writable_page s y" for y
  proof (cases "walk s x = None")
    case False
    then show ?thesis using y assms(4) by (auto simp: touch_def)
  next
    case True
    then have d: "do_no_page ec x s = Inr s'" using assms(3,4) by (simp add: touch_def page_fault_def)
    obtain p where w: "\<forall>y. walk s' y = (if page_of y = page_of x then Some (p OR 7) else walk s y)"
      by (rule do_no_page_frames [OF ok(1) d])
    have "page_of y \<noteq> page_of x"
    proof
      assume "page_of y = page_of x"
      then have "dir_index y = dir_index x \<and> tbl_index y = tbl_index x" using same_page_iff by blast
      then have "walk s y = walk s x" by (simp add: walk_def)
      then show False using True y by (simp add: writable_page_def)
    qed
    then show ?thesis using y w by (simp add: writable_page_def)
  qed
  ultimately show ?thesis using t by (simp add: writes_def)
qed

lemma store_byte_writes:
  assumes "user_ok own s" "private_page s x" "walk s x \<noteq> None"
  shows "writes own s ((\<lambda>y. load_byte y s)(x := v)) (store_byte x v s)"
proof -
  note ok = user_okD [OF assms(1)]
  note b = store_byte_spec [OF ok(1) assms(2,3), of v]
  have r: "refs (store_byte x v s) = refs s" "pool (store_byte x v s) = pool s"
    using b by (simp_all add: refs_def pool_def fun_eq_iff)
  have "user_ok own (store_byte x v s)" by (rule user_ok_cong [OF assms(1) _ _ r]) (use b in auto)
  moreover have "writable_page (store_byte x v s) y" if "writable_page s y" for y
    using that b by (simp add: writable_page_def)
  ultimately show ?thesis using b by (simp add: writes_def)
qed

fun write_bytes :: "u32 \<Rightarrow> u8 list \<Rightarrow> (u32 \<Rightarrow> u8) \<Rightarrow> (u32 \<Rightarrow> u8)" where
  "write_bytes x [] m = m"
| "write_bytes x (b # bs) m = write_bytes (x + 1) bs (m(x := b))"

lemma write_bytes_cong: "m y = m' y \<Longrightarrow> write_bytes x bs m y = write_bytes x bs m' y"
proof (induction bs arbitrary: x m m')
  case (Cons b bs)
  then have "(m(x := b)) y = (m'(x := b)) y" by simp
  then have "write_bytes (x + 1) bs (m(x := b)) y = write_bytes (x + 1) bs (m'(x := b)) y" by (rule Cons.IH)
  then show ?case by simp
qed simp

lemma write_bytes_append:
  "write_bytes x (bs @ cs) m = write_bytes (x + of_nat (length bs)) cs (write_bytes x bs m)"
  by (induction bs arbitrary: x m) (simp_all add: algebra_simps)

lemma write_bytes_other: "(\<And>k. k < length bs \<Longrightarrow> y \<noteq> x + of_nat k) \<Longrightarrow> write_bytes x bs m y = m y"
proof (induction bs arbitrary: x m)
  case (Cons b bs)
  have "y \<noteq> x + 1 + of_nat k" if "k < length bs" for k
    using Cons.prems [of "Suc k"] that by (simp add: algebra_simps)
  then have "write_bytes (x + 1) bs (m(x := b)) y = (m(x := b)) y" by (rule Cons.IH)
  also have "\<dots> = m y" using Cons.prems [of 0] by simp
  finally show ?case by simp
qed simp

lemma write_bytes_at:
  "k < length bs \<Longrightarrow> length bs < 4294967296 \<Longrightarrow> write_bytes x bs m (x + of_nat k) = bs ! k"
proof (induction bs arbitrary: x m k)
  case (Cons b bs)
  show ?case
  proof (cases k)
    case 0
    have "x \<noteq> x + 1 + of_nat j" if "j < length bs" for j
    proof
      assume "x = x + 1 + of_nat j"
      then have "of_nat (Suc j) = (0 :: u32)" by (simp add: algebra_simps)
      then have "unat (of_nat (Suc j) :: u32) = 0" by (simp only: unsigned_0)
      then show False using that Cons.prems(2) unat_of_nat_u32 [of "Suc j"] by (simp del: of_nat_Suc)
    qed
    then have "write_bytes (x + 1) bs (m(x := b)) x = b" by (simp add: write_bytes_other)
    with 0 show ?thesis by simp
  next
    case (Suc j)
    then have "write_bytes (x + 1) bs (m(x := b)) (x + 1 + of_nat j) = bs ! j"
      using Cons.prems by (intro Cons.IH) simp_all
    with Suc show ?thesis by (simp add: algebra_simps)
  qed
qed simp

abbreviation data_base :: "'a kern_scheme \<Rightarrow> u32" where
  "data_base s \<equiv> get_base (ldt (tstruct s (current s)) 2)"

lemma put_fs_byte_writes:
  fixes s :: "'a kern_scheme"
  assumes "user_ok own s" "private_page s (data_base s + a)" "put_fs_byte v a s = Inr s'"
  shows "writes own s ((\<lambda>y. load_byte y s)(data_base s + a := v)) s'"
proof -
  let ?x = "data_base s + a"
  have d: "4 \<le> dir_index ?x" using assms(2) by (simp add: private_page_def)
  obtain s1 where s1: "touch 2 ?x s = Inr s1" "s' = store_byte ?x v s1"
    using assms(3) by (auto simp: put_fs_byte_def fs_linear_def Let_def kbind_elim split: if_splits)
  have t: "writes own s (\<lambda>y. load_byte y s) s1" "walk s1 ?x \<noteq> None"
    using touch_writes [OF assms(1) d _ s1(1)] by simp_all
  note w = writesD [OF t(1)]
  have "writes own s1 ((\<lambda>y. load_byte y s1)(?x := v)) s'"
    unfolding s1(2) by (rule store_byte_writes [OF w(1) w(6) [OF assms(2)] t(2)])
  then show ?thesis by (rule writes_trans [OF t(1)]) (simp add: w(5))
qed

lemma put_fs_bytes_writes:
  fixes s :: "'a kern_scheme"
  assumes "user_ok own s" "\<And>k. k < length bs \<Longrightarrow> private_page s (data_base s + a + of_nat k)" "put_fs_bytes bs a s = Inr s'"
  shows "writes own s (write_bytes (data_base s + a) bs (\<lambda>y. load_byte y s)) s'"
  using assms
proof (induction bs arbitrary: a s)
  case Nil
  then show ?case by (simp add: writes_refl)
next
  case (Cons b bs)
  obtain s1 where s1: "put_fs_byte b a s = Inr s1" "put_fs_bytes bs (a + 1) s1 = Inr s'"
    using Cons.prems(3) by (auto simp: kbind_elim)
  have "private_page s (data_base s + a)" using Cons.prems(2) [of 0] by simp
  then have w1: "writes own s ((\<lambda>y. load_byte y s)(data_base s + a := b)) s1"
    by (rule put_fs_byte_writes [OF Cons.prems(1) _ s1(1)])
  note w = writesD [OF w1]
  have db: "data_base s1 = data_base s" using kern_rest(3,4) [OF w(2)] by simp
  have "private_page s1 (data_base s1 + (a + 1) + of_nat k)" if "k < length bs" for k
    using w(6) [OF Cons.prems(2) [of "Suc k"]] that by (simp add: db algebra_simps)
  then have "writes own s1 (write_bytes (data_base s1 + (a + 1)) bs (\<lambda>y. load_byte y s1)) s'"
    by (rule Cons.IH [OF w(1) _ s1(2)])
  then show ?case
    by (rule writes_trans [OF w1]) (simp add: db add.assoc, rule write_bytes_cong, simp add: w(5))
qed

lemma put_fs_long_writes:
  fixes s :: "'a kern_scheme"
  assumes "user_ok own s" "\<And>k. k < 4 \<Longrightarrow> private_page s (data_base s + a + of_nat k)" "put_fs_long v a s = Inr s'"
  shows "writes own s (write_bytes (data_base s + a) (long_bytes v) (\<lambda>y. load_byte y s)) s'"
proof (rule put_fs_bytes_writes [OF assms(1)])
  show "put_fs_bytes (long_bytes v) a s = Inr s'" using assms(3) by (auto simp: put_fs_long_def kbind_elim)
qed (use assms(2) in \<open>simp add: long_bytes_def\<close>)

section \<open>Verified areas\<close>

lemma private_page_same:
  assumes "page_of x = page_of y" shows "private_page s x = private_page s y"
proof -
  have "dir_index x = dir_index y \<and> tbl_index x = tbl_index y" using assms same_page_iff by blast
  then show ?thesis by (simp add: private_page_def walk_def)
qed

lemma verify_pages_spec:
  fixes s :: "'a mm_scheme"
  assumes "user_ok own s" "verify_pages start sz s = Inr s'"
    and "\<And>i. int (4096 * i) < sint sz \<Longrightarrow> 4 \<le> dir_index (start + of_nat (4096 * i))"
  shows "user_ok own s' \<and> mm.more s' = mm.more s \<and> HIGH_MEMORY s' = HIGH_MEMORY s \<and>
    (\<forall>i. int (4096 * i) < sint sz \<longrightarrow> private_page s' (start + of_nat (4096 * i))) \<and>
    (\<forall>y. user_page s y \<and> (\<forall>i. int (4096 * i) < sint sz \<longrightarrow> page_of y \<noteq> page_of (start + of_nat (4096 * i))) \<longrightarrow>
       user_page s' y \<and> load_byte y s' = load_byte y s) \<and>
    (\<forall>y. private_page s y \<longrightarrow> private_page s' y \<and> load_byte y s' = load_byte y s)"
  using assms
proof (induction start sz s rule: verify_pages.induct)
  case (1 start sz s)
  show ?case
  proof (cases "0 <s sz")
    case False
    then have "s' = s" using "1.prems"(2) by (subst (asm) verify_pages.simps) simp
    moreover have "\<not> int (4096 * i) < sint sz" for i using False by (auto simp: word_sless_alt)
    ultimately show ?thesis using "1.prems"(1) by simp
  next
    case True
    then have pos: "0 < sint sz" by (simp add: word_sless_alt)
    obtain s1 where s1: "write_verify start s = Inr s1" "verify_pages (start + 4096) (sz - 4096) s1 = Inr s'"
      using "1.prems"(2) True by (subst (asm) verify_pages.simps) (auto simp: kbind_elim)
    have d: "4 \<le> dir_index start" using "1.prems"(3) [of 0] pos by simp
    note w = write_verify_spec [OF "1.prems"(1) d s1(1)]
    have sz: "sint (sz - 4096) = sint sz - 4096" by (rule sint_minus_page [OF True])
    have nx: "start + 4096 + of_nat (4096 * i) = start + of_nat (4096 * Suc i)" for i by simp
    have sh: "int (4096 * i) < sint (sz - 4096) \<longleftrightarrow> int (4096 * Suc i) < sint sz" for i by (simp add: sz) linarith
    have "\<And>i. int (4096 * i) < sint (sz - 4096) \<Longrightarrow> 4 \<le> dir_index (start + 4096 + of_nat (4096 * i))"
      unfolding nx sh by (rule "1.prems"(3))
    then have ih: "user_ok own s' \<and> mm.more s' = mm.more s1 \<and> HIGH_MEMORY s' = HIGH_MEMORY s1 \<and>
      (\<forall>i. int (4096 * Suc i) < sint sz \<longrightarrow> private_page s' (start + of_nat (4096 * Suc i))) \<and>
      (\<forall>y. user_page s1 y \<and> (\<forall>i. int (4096 * Suc i) < sint sz \<longrightarrow> page_of y \<noteq> page_of (start + of_nat (4096 * Suc i))) \<longrightarrow>
         user_page s' y \<and> load_byte y s' = load_byte y s1) \<and>
      (\<forall>y. private_page s1 y \<longrightarrow> private_page s' y \<and> load_byte y s' = load_byte y s1)"
      using "1.IH" [OF True s1(1) _ s1(2)] w unfolding nx sh by blast
    have "private_page s' (start + of_nat (4096 * i))" if "int (4096 * i) < sint sz" for i
      using ih w that by (cases i) auto
    moreover have "user_page s' y \<and> load_byte y s' = load_byte y s"
      if y: "user_page s y" "\<And>i. int (4096 * i) < sint sz \<Longrightarrow> page_of y \<noteq> page_of (start + of_nat (4096 * i))" for y
    proof -
      have "page_of y \<noteq> page_of start" using y(2) [of 0] pos by simp
      then have "user_page s1 y \<and> load_byte y s1 = load_byte y s" using w y(1) by blast
      moreover have "\<forall>i. int (4096 * Suc i) < sint sz \<longrightarrow> page_of y \<noteq> page_of (start + of_nat (4096 * Suc i))"
        using y(2) by blast
      ultimately show ?thesis using ih by simp
    qed
    moreover have "private_page s' y \<and> load_byte y s' = load_byte y s" if "private_page s y" for y
      using ih w that by simp
    ultimately show ?thesis using ih w by simp
  qed
qed

lemma dir_index_mono: "x \<le> y \<Longrightarrow> dir_index x \<le> dir_index y"
  by (simp add: dir_index_def word_le_nat_alt div_le_mono)

text \<open>The pages of an area: the page of its byte \<open>k\<close>, counted from the page of its first byte.\<close>

lemma add3: "A = 4096 * d + r \<Longrightarrow> B = 4096 * q \<Longrightarrow> B + A + k = 4096 * (q + d) + (r + k)" for A B d r q k :: nat
  by simp

lemma area_page:
  fixes b a :: u32
  assumes "page_aligned b" "unat b + unat a + k < 4294967296"
  shows "page_of (b + a + of_nat k) = page_of a + b + of_nat (4096 * ((unat a mod 4096 + k) div 4096))"
proof -
  let ?o = "unat a mod 4096"
  obtain q where q: "unat b = 4096 * q" using assms(1) by (auto simp: page_aligned_iff_dvd)
  have a: "unat a = 4096 * (unat a div 4096) + ?o" by simp
  have z: "unat (b + a + of_nat k) = unat b + unat a + k"
    using assms(2) by (simp add: unat_word_ariths unat_of_nat_u32)
  have "unat b + unat a + k = 4096 * (q + unat a div 4096) + (?o + k)"
    by (rule add3 [OF a q])
  then have "(unat b + unat a + k) div 4096 = q + unat a div 4096 + (?o + k) div 4096"
    by (metis div_mult_self4 zero_neq_numeral)
  then have l: "unat (page_of (b + a + of_nat k)) = 4096 * (q + unat a div 4096 + (?o + k) div 4096)"
    by (simp only: unat_page_of z)
  have le: "4096 * ((?o + k) div 4096) \<le> ?o + k" by simp
  have "unat b + unat a div 4096 * 4096 + 4096 * ((?o + k) div 4096) < 4294967296"
    using le a assms(2) by linarith
  then have "unat (page_of a + b + of_nat (4096 * ((?o + k) div 4096))) =
      unat b + unat a div 4096 * 4096 + 4096 * ((?o + k) div 4096)"
    by (simp add: unat_word_ariths unat_page_of unat_of_nat_u32 del: of_nat_mult)
  also have "\<dots> = 4096 * (q + unat a div 4096 + (?o + k) div 4096)" using q by simp
  finally have "unat (page_of (b + a + of_nat k)) = unat (page_of a + b + of_nat (4096 * ((?o + k) div 4096)))"
    using l by (simp only:)
  then show ?thesis by (rule unsigned_word_eqI)
qed

lemma area_size:
  fixes a sz :: u32
  assumes "unat sz < 2147479552"
  shows "sint (sz + (a AND 0xfff)) = int (unat sz + unat a mod 4096)"
proof -
  have e: "(0xfff :: u32) = mask 12" by (simp add: mask_eq_exp_minus_1)
  have o: "unat (a AND 0xfff) = unat a mod 4096"
    unfolding e by (simp add: take_bit_eq_mask [symmetric] unsigned_take_bit_eq take_bit_eq_mod [where 'a = nat])
  have l: "unat a mod 4096 < 4096" by simp
  have "unat (sz + (a AND 0xfff)) = unat sz + unat a mod 4096"
    using assms l o by (simp add: unat_word_ariths)
  moreover have "\<not> sint (sz + (a AND 0xfff)) < 0"
    using negative_word [of "sz + (a AND 0xfff)"] assms l calculation by (simp add: word_sless_alt)
  ultimately show ?thesis using unat_sint [of "sz + (a AND 0xfff)"] by (simp only: if_False)
qed

text \<open>The pages that \<open>verify_area\<close> goes through are those of the bytes of the area.\<close>

lemma area_pages:
  fixes addr sz b :: u32
  assumes "page_aligned b" "unat b + unat addr + unat sz \<le> 4294967296" "0 < unat sz" "unat sz < 2147479552"
  defines "start \<equiv> page_of addr + b" and "len \<equiv> sint (sz + (addr AND 0xfff))"
  shows "int (4096 * i) < len \<Longrightarrow> \<exists>k < unat sz. start + of_nat (4096 * i) = page_of (b + addr + of_nat k)"
    and "k < unat sz \<Longrightarrow> \<exists>i. int (4096 * i) < len \<and> page_of (b + addr + of_nat k) = start + of_nat (4096 * i)"
proof -
  let ?o = "unat addr mod 4096"
  note si = area_size [OF assms(4), of addr]
  have pg: "page_of (b + addr + of_nat k) = start + of_nat (4096 * ((?o + k) div 4096))" if "k < unat sz" for k
    using area_page [of b addr k] assms(1,2) that by (simp add: start_def)
  show "\<exists>k < unat sz. start + of_nat (4096 * i) = page_of (b + addr + of_nat k)" if i: "int (4096 * i) < len"
  proof -
    have i': "4096 * i < unat sz + ?o" using i si unfolding len_def by linarith
    define k where "k = 4096 * i - ?o"
    have k: "k < unat sz" using i' assms(3) by (simp add: k_def)
    have "(?o + k) div 4096 = i" by (cases i) (simp_all add: k_def)
    then show ?thesis using pg [OF k] k by (intro exI [of _ k]) simp
  qed
  show "\<exists>i. int (4096 * i) < len \<and> page_of (b + addr + of_nat k) = start + of_nat (4096 * i)" if "k < unat sz"
  proof -
    have "4096 * ((?o + k) div 4096) \<le> ?o + k" by simp
    then have "int (4096 * ((?o + k) div 4096)) < len" using that si unfolding len_def by linarith
    then show ?thesis using pg [OF that] by blast
  qed
qed

lemma verify_area_spec:
  fixes s :: "'a kern_scheme"
  assumes "user_ok own s" "verify_area addr sz s = Inr s'"
    and "page_aligned (data_base s)" "4 \<le> dir_index (data_base s)"
    and "unat (data_base s) + unat addr + unat sz \<le> 4294967296" "0 < unat sz" "unat sz < 2147479552"
  shows "user_ok own s' \<and> mm.more s' = mm.more s \<and> HIGH_MEMORY s' = HIGH_MEMORY s \<and>
    (\<forall>k < unat sz. private_page s' (data_base s + addr + of_nat k)) \<and>
    (\<forall>y. user_page s y \<and> (\<forall>k < unat sz. page_of y \<noteq> page_of (data_base s + addr + of_nat k)) \<longrightarrow>
       user_page s' y \<and> load_byte y s' = load_byte y s) \<and>
    (\<forall>y. private_page s y \<longrightarrow> private_page s' y \<and> load_byte y s' = load_byte y s)"
proof -
  define b where "b = data_base s"
  let ?start = "page_of addr + b" and ?sz = "sz + (addr AND 0xfff)"
  have v: "verify_pages ?start ?sz s = Inr s'" using assms(2) by (simp add: verify_area_def b_def Let_def)
  note ap = area_pages [OF assms(3,5-7), folded b_def]
  have dir: "4 \<le> dir_index (?start + of_nat (4096 * i))" if i: "int (4096 * i) < sint ?sz" for i
  proof -
    obtain k where k: "k < unat sz" "?start + of_nat (4096 * i) = page_of (b + addr + of_nat k)" using ap(1) [OF i] by blast
    have "unat (b + addr + of_nat k) = unat b + unat addr + k"
      using k(1) assms(5) by (simp add: unat_word_ariths unat_of_nat_u32 b_def)
    then have "dir_index b \<le> dir_index (b + addr + of_nat k)" by (intro dir_index_mono) (simp add: word_le_nat_alt)
    then show ?thesis using assms(4) k(2) by (simp add: b_def)
  qed
  note vs = verify_pages_spec [OF assms(1) v dir]
  have "private_page s' (b + addr + of_nat k)" if "k < unat sz" for k
  proof -
    have "private_page s' (page_of (b + addr + of_nat k))" using vs ap(2) [OF that] by auto
    then show ?thesis using private_page_same [of "page_of (b + addr + of_nat k)" "b + addr + of_nat k" s'] by simp
  qed
  moreover have "user_page s' y \<and> load_byte y s' = load_byte y s"
    if y: "user_page s y" "\<forall>k < unat sz. page_of y \<noteq> page_of (b + addr + of_nat k)" for y
  proof -
    have "page_of y \<noteq> page_of (?start + of_nat (4096 * i))" if "int (4096 * i) < sint ?sz" for i
      using ap(1) [OF that] y(2) page_of_page_of by metis
    then show ?thesis using vs y(1) by blast
  qed
  ultimately show ?thesis using vs unfolding b_def by blast
qed

lemma verified_put:
  fixes s s1 s' :: "'a kern_scheme"
  assumes "user_ok own s" and "page_aligned (data_base s)" and "4 \<le> dir_index (data_base s)"
    and "unat (data_base s) + unat addr + unat sz \<le> 4294967296" and "0 < unat sz" and "unat sz < 2147479552"
    and "verify_area addr sz s = Inr s1" and "length bs \<le> unat sz" and "put_fs_bytes bs addr s1 = Inr s'"
  shows "user_ok own s' \<and> mm.more s' = mm.more s \<and> HIGH_MEMORY s' = HIGH_MEMORY s \<and>
    (\<forall>k < length bs. load_byte (data_base s + addr + of_nat k) s' = bs ! k) \<and>
    (\<forall>y. user_page s y \<and> (\<forall>k < unat sz. page_of y \<noteq> page_of (data_base s + addr + of_nat k)) \<longrightarrow>
       load_byte y s' = load_byte y s)"
proof -
  note v = verify_area_spec [OF assms(1,7,2-6)]
  have db: "data_base s1 = data_base s" using v kern_rest(3,4) [of s1 s] by simp
  have pr: "private_page s1 (data_base s1 + addr + of_nat k)" if "k < length bs" for k
    using v that assms(8) by (simp add: db)
  have "writes own s1 (write_bytes (data_base s1 + addr) bs (\<lambda>y. load_byte y s1)) s'"
    by (rule put_fs_bytes_writes [OF conjunct1 [OF v] _ assms(9)]) (rule pr)
  note w = writesD [OF this]
  have "load_byte (data_base s + addr + of_nat k) s' = bs ! k" if k: "k < length bs" for k
  proof -
    have "user_page s1 (data_base s1 + addr + of_nat k)"
      using pr [OF k] v by (auto intro: private_user_page user_okD(1))
    moreover have "length bs < 4294967296" using assms(6,8) by simp
    ultimately show ?thesis using w(5) write_bytes_at [OF k] by (simp add: db)
  qed
  moreover have "load_byte y s' = load_byte y s"
    if y: "user_page s y" "\<forall>k < unat sz. page_of y \<noteq> page_of (data_base s + addr + of_nat k)" for y
  proof -
    have u: "user_page s1 y" "load_byte y s1 = load_byte y s" using v y by blast+
    have "y \<noteq> data_base s1 + addr + of_nat k" if "k < length bs" for k using y(2) [rule_format, of k] that assms(8) by (auto simp: db)
    then show ?thesis using w(5) [OF u(1)] u(2) write_bytes_other by simp
  qed
  ultimately show ?thesis using w(1-3) v by auto
qed

section \<open>Properties\<close>

text \<open>Task 1 with its address space at 64 MB on the memory of \<open>two_sharers\<close>, for closed examples.\<close>

definition sharer_task :: task_struct where
  "sharer_task = blank_task\<lparr>ldt := (\<lambda>_. set_base 0x4000000 \<lparr>desc_a = 0x9f, desc_b = 0xc0f200\<rparr>), pid := 1\<rparr>"

definition sharers_kern :: kern where
  "sharers_kern = mm.extend two_sharers
     \<lparr>init_task = 0x20000, task = (\<lambda>_. 0)(0 := 0x20000, 1 := 0x30000),
      tstruct = (\<lambda>_. blank_task)(0x30000 := sharer_task), current = 0x30000,
      last_task_used_math = 0, jiffies = 9, last_pid = 1, gdt = (\<lambda>_. \<lparr>desc_a = 0, desc_b = 0\<rparr>),
      idt = (\<lambda>_. \<lparr>desc_a = 0, desc_b = 0\<rparr>), cell = (\<lambda>_. 0), fpu = [], outs = []\<rparr>"

lemma sharers_kern_mm: "HIGH_MEMORY sharers_kern = HIGH_MEMORY two_sharers" "mem_map sharers_kern = mem_map two_sharers"
  "phys sharers_kern = phys two_sharers"
  by (simp_all add: sharers_kern_def mm.defs)

lemmas sharers_kern_cong = mm_cong [OF sharers_kern_mm]

lemma boot_limit: "get_limit \<lparr>desc_a = 0x9f, desc_b = 0xc0f200\<rparr> = 0xa0000"
  by (simp add: get_limit_def Let_def)

lemma sharers_kern_simps:
  "current sharers_kern = 0x30000" "tstruct sharers_kern 0x30000 = sharer_task" "data_base sharers_kern = 0x4000000"
  "get_base (ldt sharer_task k) = 0x4000000" "get_limit (ldt sharer_task k) = 0xa0000" "task sharers_kern = (\<lambda>_. 0)(0 := 0x20000, 1 := 0x30000)"
  "init_task sharers_kern = 0x20000"
  by (simp_all add: sharers_kern_def mm.defs sharer_task_def boot_limit)

lemma walk_two_sharers_cases:
  assumes "walk two_sharers y = Some e" shows "e = 0xf00005 \<or> e = 0xf01007 \<and> page_of y = 0x4002000"
proof -
  have "e = 0xf00005 \<or> e = 0xf01007 \<and> dir_index y = 16 \<and> tbl_index y = 2"
    using assms by (auto simp: walk_def entry_two_sharers split: if_splits)
  moreover have "dir_index 0x4002000 = 16" "tbl_index 0x4002000 = 2" by (simp_all add: dir_index_def tbl_index_def)
  ultimately show ?thesis using same_page_iff [of y "0x4002000"] by auto
qed

lemma two_sharers_user_ok: "user_ok (\<lambda>_. 0) two_sharers"
  unfolding user_ok_def
proof (intro conjI allI impI two_sharers_vm)
  fix y e assume "4 \<le> dir_index y \<and> walk two_sharers y = Some e"
  then have "e = 0xf00005 \<or> e = 0xf01007" using walk_two_sharers_cases by blast
  moreover have "pool two_sharers 0xf00000" "pool two_sharers 0xf01000" "refs two_sharers 0xf01000 = 1"
    by (simp_all add: pool_def refs_def managed_def MAP_NR_def two_sharers_def LOW_MEM_def)
  ultimately show "page_of e < LOW_MEM \<or> pool two_sharers (page_of e)" "e AND 2 \<noteq> 0 \<Longrightarrow> pool two_sharers (page_of e)"
    "e AND 2 \<noteq> 0 \<Longrightarrow> refs two_sharers (page_of e) = 1" by auto
qed

lemma sharers_kern_user_ok: "user_ok (\<lambda>_. 0) sharers_kern"
  using two_sharers_user_ok unfolding user_ok_def sharers_kern_cong .

text \<open>C25: writing to user memory. After \<open>verify_area\<close> the kernel can write anywhere in the
  area and reach no memory but the area's: the bytes it put there are what the task reads,
  the pages of every task outside the area read as before, nothing of the kernel's own state
  changes, and no writable page is shared afterwards either.\<close>

theorem verified_write_isolated:
  fixes s s1 s' :: "'a kern_scheme"
  assumes "user_ok own s" and "page_aligned (data_base s)" and "4 \<le> dir_index (data_base s)"
    and "unat (data_base s) + unat addr + unat sz \<le> 4294967296" and "0 < unat sz" and "unat sz < 2147479552"
    and "verify_area addr sz s = Inr s1" and "length bs \<le> unat sz" and "put_fs_bytes bs addr s1 = Inr s'"
  shows "user_ok own s' \<and> mm.more s' = mm.more s \<and>
    (\<forall>k < length bs. load_byte (data_base s + addr + of_nat k) s' = bs ! k) \<and>
    (\<forall>y. user_page s y \<and> (\<forall>k < unat sz. page_of y \<noteq> page_of (data_base s + addr + of_nat k)) \<longrightarrow>
       load_byte y s' = load_byte y s)"
  using verified_put [OF assms] by blast

theorem verified_write_isolated_witness:
  "\<exists>s'. verify_area 0x2000 4 sharers_kern = Inr sharers_kern \<and> put_fs_bytes [7] 0x2000 sharers_kern = Inr s' \<and>
     load_byte 0x4002000 s' = 7 \<and> load_byte 0x4000000 s' = 42"
proof -
  have w: "walk sharers_kern 0x4002000 = Some 0xf01007" "walk sharers_kern 0x4000000 = Some 0xf00005"
    by (simp_all add: sharers_kern_cong walk_two_sharers)
  have v: "verify_area 0x2000 4 sharers_kern = Inr sharers_kern"
    by (simp add: verify_area_def Let_def sharers_kern_simps verify_pages.simps write_verify_eq w word_sless_alt)
  have p: "put_fs_bytes [7] 0x2000 sharers_kern = Inr (store_byte 0x4002000 7 sharers_kern)"
    by (simp add: put_fs_byte_def fs_linear_def Let_def sharers_kern_simps touch_def w)
  have d: "dir_index 0x4000000 = 16" by (simp add: dir_index_def)
  have l: "load_byte 0x4000000 sharers_kern = 42"
    by (simp add: load_byte_def w get_byte_def word_of_def byte_of_def sharers_kern_mm two_sharers_def)
  have "pool two_sharers 0xf00000" by (simp add: pool_def shared_frame(2)) (simp add: two_sharers_def)
  moreover have "tables sharers_kern = tables two_sharers" by (simp add: tables_def sharers_kern_cong fun_eq_iff)
  ultimately have "user_page sharers_kern 0x4000000"
    by (simp add: user_page_def w d sharers_kern_cong(2) tables_two_sharers shared_frame(2))
  moreover have "page_of (0x4000000 :: u32) \<noteq> page_of (0x4002000 + of_nat k)" if "k < 4" for k
    using area_page [of "0x4000000" "0x2000" k] that by simp
  ultimately have "load_byte 0x4000000 (store_byte 0x4002000 7 sharers_kern) = 42 \<and>
      load_byte 0x4002000 (store_byte 0x4002000 7 sharers_kern) = 7"
    using verified_write_isolated [OF sharers_kern_user_ok _ _ _ _ _ v _ p] l d by (auto simp: sharers_kern_simps)
  then show ?thesis using v p by blast
qed

end
