(* ===== verification/Exit.thy ===== *)
theory Exit
  imports User_Mem
begin

text \<open>
  Signals sent to tasks, the end of a task and waiting for one (kernel/exit.c). Debug output
  to the serial port is left out.
\<close>

section \<open>Operations\<close>

definition EPERM :: u32 where
  "EPERM = 1"

definition EINTR :: u32 where
  "EINTR = 4"

definition ECHILD :: u32 where
  "ECHILD = 10"

definition EINVAL :: u32 where
  "EINVAL = 22"

definition WNOHANG :: u32 where
  "WNOHANG = 1"

definition WUNTRACED :: u32 where
  "WUNTRACED = 2"

definition send_sig :: "u32 \<Rightarrow> u32 \<Rightarrow> u32 \<Rightarrow> 'a kern_scheme \<Rightarrow> u32 \<times> 'a kern_scheme" where
  "send_sig sig p priv s =
     (if p = 0 \<or> sig <s 1 \<or> 32 <s sig then (- EINVAL, s)
      else if priv \<noteq> 0 \<or> euid (tstruct s (current s)) = euid (tstruct s p)
      then (0, upd_task p (\<lambda>t. t\<lparr>signal := signal t OR push_bit (unat (sig - 1)) 1\<rparr>) s)
      else (- EPERM, s))"

text \<open>The loop of \<open>sys_kill\<close>, over the slots from \<open>n\<close> down to 1.\<close>

fun kill_tasks :: "nat \<Rightarrow> u32 \<Rightarrow> u32 \<Rightarrow> u32 \<Rightarrow> 'a kern_scheme \<Rightarrow> u32 \<times> 'a kern_scheme" where
  "kill_tasks 0 p sig retval s = (retval, s)"
| "kill_tasks (Suc n) p sig retval s =
     (if task s (Suc n) \<noteq> 0 \<and> pid (tstruct s (task s (Suc n))) = p
      then case send_sig sig (task s (Suc n)) 1 s of (err, s1) \<Rightarrow>
             kill_tasks n p sig (if err \<noteq> 0 then err else retval) s1
      else kill_tasks n p sig retval s)"

definition sys_kill :: "u32 \<Rightarrow> u32 \<Rightarrow> 'a kern_scheme \<Rightarrow> u32 \<times> 'a kern_scheme" where
  "sys_kill p sig s = (if 0 <s p then kill_tasks (NR_TASKS - 1) p sig 0 s else (0, s))"

text \<open>The slot of a descriptor, from slot \<open>i\<close> on.\<close>

fun slot_of :: "nat \<Rightarrow> nat \<Rightarrow> u32 \<Rightarrow> 'a kern_scheme \<Rightarrow> nat option" where
  "slot_of 0 i p s = None"
| "slot_of (Suc n) i p s = (if task s i = p then Some i else slot_of n (Suc i) p s)"

definition release :: "'a env \<Rightarrow> u32 \<Rightarrow> 'a kern_scheme \<Rightarrow> kerror + 'a kern_scheme" where
  "release others p s =
     (if p = 0 then Inr s
      else case slot_of NR_TASKS 0 p s of
        None \<Rightarrow> Inl (Panic ''Trying to release non-existent task'')
      | Some i \<Rightarrow> kbind (free_page p (s\<lparr>task := (task s)(i := 0)\<rparr>)) (schedule others))"

text \<open>The loop of \<open>tell_father\<close>: the first task with the process number, from slot \<open>i\<close> on.\<close>

fun task_of_pid :: "nat \<Rightarrow> nat \<Rightarrow> u32 \<Rightarrow> 'a kern_scheme \<Rightarrow> u32 option" where
  "task_of_pid 0 i n s = None"
| "task_of_pid (Suc k) i n s =
     (if task s i \<noteq> 0 \<and> pid (tstruct s (task s i)) = n then Some (task s i) else task_of_pid k (Suc i) n s)"

definition tell_father :: "'a env \<Rightarrow> u32 \<Rightarrow> 'a kern_scheme \<Rightarrow> kerror + 'a kern_scheme" where
  "tell_father others n s =
     (case task_of_pid NR_TASKS 0 n s of
        Some p \<Rightarrow> Inr (upd_task p (\<lambda>t. t\<lparr>signal := signal t OR sigbit SIGCHLD\<rparr>) s)
      | None \<Rightarrow> release others (current s) s)"

text \<open>The loop of \<open>do_exit\<close> over the children of the current task, from slot \<open>i\<close> on.\<close>

fun orphan_children :: "nat \<Rightarrow> nat \<Rightarrow> 'a kern_scheme \<Rightarrow> 'a kern_scheme" where
  "orphan_children 0 i s = s"
| "orphan_children (Suc n) i s =
     orphan_children n (Suc i)
       (if task s i \<noteq> 0 \<and> father (tstruct s (task s i)) = pid (tstruct s (current s))
        then let s1 = upd_task (task s i) (\<lambda>t. t\<lparr>father := 1\<rparr>) s in
             if state (tstruct s1 (task s1 i)) = TASK_ZOMBIE
             then snd (send_sig (of_nat SIGCHLD) (task s1 1) 1 s1) else s1
        else s)"

definition do_exit :: "'a env \<Rightarrow> u32 \<Rightarrow> 'a kern_scheme \<Rightarrow> kerror + u32 \<times> 'a kern_scheme" where
  "do_exit others code s =
     (let me = tstruct s (current s) in
      kbind (free_page_tables (get_base (ldt me 1)) (get_limit (ldt me 1)) s) (\<lambda>(_, s1).
      kbind (free_page_tables (get_base (ldt me 2)) (get_limit (ldt me 2)) s1) (\<lambda>(_, s2).
        let s3 = orphan_children NR_TASKS 0 s2;
            s4 = (if last_task_used_math s3 = current s3 then s3\<lparr>last_task_used_math := 0\<rparr> else s3);
            s5 = upd_task (current s4) (\<lambda>t. t\<lparr>state := TASK_ZOMBIE, exit_code := code\<rparr>) s4 in
        kbind (tell_father others (father (tstruct s5 (current s5))) s5) (\<lambda>s6.
        kbind (schedule others s6) (\<lambda>s7. Inr (-1, s7))))))"

definition sys_exit :: "'a env \<Rightarrow> u32 \<Rightarrow> 'a kern_scheme \<Rightarrow> kerror + u32 \<times> 'a kern_scheme" where
  "sys_exit others error_code s = do_exit others (push_bit 8 (error_code AND 0xff)) s"

text \<open>A read through a pointer to a descriptor.\<close>

definition deref :: "u32 \<Rightarrow> 'a kern_scheme \<Rightarrow> kerror + task_struct" where
  "deref p s = (if p = 0 then Inl Null_deref else Inr (tstruct s p))"

text \<open>
  The loop of \<open>sys_waitpid\<close> over the slots from \<open>n\<close> down to 1. It returns from the system
  call with a value, or ends with the value of \<open>flag\<close>.
\<close>

fun wait_scan :: "'a env \<Rightarrow> nat \<Rightarrow> u32 \<Rightarrow> u32 \<Rightarrow> u32 \<Rightarrow> u32 \<Rightarrow> 'a kern_scheme \<Rightarrow>
    kerror + u32 option \<times> u32 \<times> 'a kern_scheme" where
  "wait_scan others 0 flag n stat_addr options s = Inr (None, flag, s)"
| "wait_scan others (Suc k) flag n stat_addr options s =
     (let p = task s (Suc k); me = tstruct s (current s); continue = wait_scan others k in
      if p \<noteq> 0 \<or> p = current s then continue flag n stat_addr options s
      else kbind (deref p s) (\<lambda>t.
        if father t \<noteq> pid me then continue flag n stat_addr options s
        else if 0 <s n \<and> pid t \<noteq> n then continue flag n stat_addr options s
        else if n = 0 \<and> pgrp t \<noteq> pgrp me then continue flag n stat_addr options s
        else if n \<noteq> -1 \<and> pgrp t \<noteq> - n then continue flag n stat_addr options s
        else if state t = TASK_STOPPED then
          if options AND WUNTRACED = 0 then continue flag n stat_addr options s
          else kbind (put_fs_long 0x7f stat_addr s) (\<lambda>s1. Inr (Some (pid (tstruct s1 p)), flag, s1))
        else if state t = TASK_ZOMBIE then
          let s1 = upd_task (current s) (\<lambda>m. m\<lparr>cutime := cutime m + utime t, cstime := cstime m + stime t\<rparr>) s in
          kbind (release others p s1) (\<lambda>s2.
          kbind (put_fs_long (exit_code t) stat_addr s2) (\<lambda>s3. Inr (Some (pid t), pid t, s3)))
        else continue 1 n stat_addr options s))"

text \<open>From the label \<open>repeat\<close> on.\<close>

partial_function (option) wait_repeat :: "'a env \<Rightarrow> u32 \<Rightarrow> u32 \<Rightarrow> u32 \<Rightarrow> 'a kern_scheme \<Rightarrow>
    (kerror + u32 \<times> 'a kern_scheme) option" where
  "wait_repeat others n stat_addr options s =
     (let r = wait_scan others (NR_TASKS - 1) 0 n stat_addr options s in
      if isl r then Some (Inl (projl r))
      else
        let v = fst (projr r); flag = fst (snd (projr r)); s1 = snd (snd (projr r)) in
        if v \<noteq> None then Some (Inr (the v, s1))
        else if flag = 0 then Some (Inr (- ECHILD, s1))
        else if options AND WNOHANG \<noteq> 0 then Some (Inr (0, s1))
        else
          let q = schedule others (upd_task (current s1) (\<lambda>t. t\<lparr>state := TASK_INTERRUPTIBLE\<rparr>) s1) in
          if isl q then Some (Inl (projl q))
          else if signal (tstruct (projr q) (current (projr q))) AND NOT (sigbit SIGCHLD) = 0
          then wait_repeat others n stat_addr options (projr q)
          else Some (Inr (- EINTR, projr q)))"

definition sys_waitpid :: "'a env \<Rightarrow> u32 \<Rightarrow> u32 \<Rightarrow> u32 \<Rightarrow> 'a kern_scheme \<Rightarrow> kerror + u32 \<times> 'a kern_scheme" where
  "sys_waitpid others n stat_addr options s =
     kbind (verify_area stat_addr 4 s) (\<lambda>s1.
       case wait_repeat others n stat_addr options s1 of None \<Rightarrow> Inl Hang | Some r \<Rightarrow> r)"

section \<open>Sending signals\<close>

definition valid_sig :: "u32 \<Rightarrow> bool" where
  "valid_sig sig \<longleftrightarrow> \<not> sig <s 1 \<and> \<not> 32 <s sig"

definition raised :: "u32 \<Rightarrow> task_struct \<Rightarrow> task_struct" where
  "raised sig t = t\<lparr>signal := signal t OR push_bit (unat (sig - 1)) 1\<rparr>"

lemma raised_simps [simp]:
  "raised sig (raised sig t) = raised sig t" "pid (raised sig t) = pid t" "father (raised sig t) = father t"
  "state (raised sig t) = state t" "ldt (raised sig t) = ldt t" "exit_code (raised sig t) = exit_code t"
  "pgrp (raised sig t) = pgrp t"
  by (simp_all add: raised_def or.assoc)

lemma send_sig_eq:
  "p \<noteq> 0 \<Longrightarrow> send_sig sig p 1 s = (if valid_sig sig then (0, upd_task p (raised sig) s) else (- EINVAL, s))"
  by (auto simp: send_sig_def valid_sig_def raised_def [abs_def])

lemma kill_tasks_eq:
  "kill_tasks n p sig retval s =
     (if \<not> valid_sig sig \<and> (\<exists>q. in_table n s q \<and> pid (tstruct s q) = p) then - EINVAL else retval,
      s\<lparr>tstruct := (\<lambda>q. if valid_sig sig \<and> in_table n s q \<and> pid (tstruct s q) = p
        then raised sig (tstruct s q) else tstruct s q)\<rparr>)"
proof (induction n arbitrary: retval s)
  case 0
  then show ?case by simp
next
  case (Suc n)
  let ?q = "task s (Suc n)"
  have nz: "(- EINVAL :: u32) \<noteq> 0" by (simp add: EINVAL_def)
  show ?case
  proof (cases "?q \<noteq> 0 \<and> pid (tstruct s ?q) = p")
    case False
    then have eq: "in_table (Suc n) s q \<and> pid (tstruct s q) = p \<longleftrightarrow> in_table n s q \<and> pid (tstruct s q) = p" for q
      by (auto simp: in_table_Suc)
    have "kill_tasks (Suc n) p sig retval s = kill_tasks n p sig retval s"
      by (simp only: kill_tasks.simps False if_False)
    then show ?thesis by (simp only: Suc.IH eq)
  next
    case hit: True
    show ?thesis
    proof (cases "valid_sig sig")
      case True
      have "(\<lambda>q. if in_table n s q \<and> pid (tstruct (upd_task ?q (raised sig) s) q) = p
            then raised sig (tstruct (upd_task ?q (raised sig) s) q) else tstruct (upd_task ?q (raised sig) s) q) =
          (\<lambda>q. if in_table (Suc n) s q \<and> pid (tstruct s q) = p then raised sig (tstruct s q) else tstruct s q)"
        using hit by (intro ext) (auto simp: in_table_Suc)
      with hit True show ?thesis by (simp add: Suc.IH send_sig_eq)
    next
      case False
      with hit nz show ?thesis by (auto simp: Suc.IH send_sig_eq in_table_Suc)
    qed
  qed
qed

text \<open>C26: sending a signal. \<open>sys_kill\<close> on a positive process number adds the signal to the
  pending set of every task with that number, and to no other; it changes nothing else. It
  returns 0, also when no task has the number, or \<open>-EINVAL\<close> when the number exists and the
  signal is not one of 1 to 32.\<close>

theorem sys_kill_effect:
  defines "hit \<equiv> \<lambda>s n q. 0 <s n \<and> in_table 63 s q \<and> pid (tstruct s q) = n"
  shows "sys_kill n sig s =
    (if \<not> valid_sig sig \<and> (\<exists>q. hit s n q) then - EINVAL else 0,
     s\<lparr>tstruct := (\<lambda>q. if valid_sig sig \<and> hit s n q
       then (tstruct s q)\<lparr>signal := signal (tstruct s q) OR push_bit (unat (sig - 1)) 1\<rparr> else tstruct s q)\<rparr>)"
proof (cases "0 <s n")
  case True
  then show ?thesis
    unfolding sys_kill_def hit_def by (simp add: kill_tasks_eq raised_def NR_TASKS_def cong: if_cong)
next
  case False
  then show ?thesis by (simp add: sys_kill_def hit_def)
qed

section \<open>Waiting\<close>

lemma wait_scan_eq:
  assumes "current s \<noteq> 0"
  shows "wait_scan others k flag n stat_addr options s =
    (if \<exists>i. 1 \<le> i \<and> i \<le> k \<and> task s i = 0 then Inl Null_deref else Inr (None, flag, s))"
proof (induction k)
  case 0
  then show ?case by simp
next
  case (Suc k)
  have "(\<exists>i. 1 \<le> i \<and> i \<le> Suc k \<and> task s i = 0) \<longleftrightarrow> task s (Suc k) = 0 \<or> (\<exists>i. 1 \<le> i \<and> i \<le> k \<and> task s i = 0)"
    by (auto simp: le_Suc_eq)
  then show ?case using Suc assms by (cases "task s (Suc k) = 0") (simp_all add: deref_def Let_def)
qed

text \<open>C27: \<open>sys_waitpid\<close> never waits for a child and never releases one. Its first test skips
  every slot that holds a task, so the rest of the loop is reached with a null pointer when a
  slot is free, and when none is the call returns \<open>-ECHILD\<close>.\<close>

theorem sys_waitpid_never_reaps:
  assumes "verify_area stat_addr 4 s = Inr s1" and "current s1 \<noteq> 0"
  shows "sys_waitpid others n stat_addr options s =
    (if \<exists>i. 1 \<le> i \<and> i < 64 \<and> task s1 i = 0 then Inl Null_deref else Inr (- ECHILD, s1))"
proof -
  have "(\<exists>i. 1 \<le> i \<and> i < 64 \<and> task s1 i = 0) \<longleftrightarrow> (\<exists>i. 1 \<le> i \<and> i \<le> 63 \<and> task s1 i = 0)"
    by (auto simp: less_Suc_eq_le [of _ 63, simplified])
  then have "wait_scan others 63 0 n stat_addr options s1 =
      (if \<exists>i. 1 \<le> i \<and> i < 64 \<and> task s1 i = 0 then Inl Null_deref else Inr (None, 0, s1))"
    by (simp only: wait_scan_eq [OF assms(2)])
  then show ?thesis
    unfolding sys_waitpid_def assms(1) by (auto simp: wait_repeat.simps Let_def NR_TASKS_def)
qed

theorem sys_waitpid_never_reaps_witness:
  "sys_waitpid (\<lambda>s. Inr s) (-1) 0x2000 0 sharers_kern = Inl Null_deref"
proof -
  have w: "walk sharers_kern 0x4002000 = Some 0xf01007"
    by (simp add: sharers_kern_cong walk_two_sharers)
  have v: "verify_area 0x2000 4 sharers_kern = Inr sharers_kern"
    by (simp add: verify_area_def Let_def sharers_kern_simps verify_pages.simps write_verify_eq w word_sless_alt)
  have "1 \<le> (2 :: nat) \<and> (2 :: nat) < 64 \<and> task sharers_kern 2 = 0" by (simp add: sharers_kern_simps)
  then have "\<exists>i. 1 \<le> i \<and> i < 64 \<and> task sharers_kern i = 0" by blast
  then show ?thesis
    using sys_waitpid_never_reaps [OF v, of "\<lambda>s. Inr s" "-1" 0] by (simp add: sharers_kern_simps)
qed

section \<open>Exit\<close>

text \<open>The children of the current task among the slots from \<open>i\<close> to \<open>i + n - 1\<close>.\<close>

definition kids :: "nat \<Rightarrow> nat \<Rightarrow> 'a kern_scheme \<Rightarrow> u32 set" where
  "kids i n s = {q. q \<noteq> 0 \<and> (\<exists>j. i \<le> j \<and> j < i + n \<and> task s j = q) \<and>
     father (tstruct s q) = pid (tstruct s (current s))}"

text \<open>What the loop of \<open>do_exit\<close> makes of the descriptor at \<open>q\<close>.\<close>

definition zombie_in :: "u32 set \<Rightarrow> 'a kern_scheme \<Rightarrow> bool" where
  "zombie_in K s \<longleftrightarrow> (\<exists>k \<in> K. state (tstruct s k) = TASK_ZOMBIE)"

definition reparented :: "u32 set \<Rightarrow> 'a kern_scheme \<Rightarrow> u32 \<Rightarrow> task_struct" where
  "reparented K s q =
     (let t = (if q \<in> K then (tstruct s q)\<lparr>father := 1\<rparr> else tstruct s q) in
      if q = task s 1 \<and> q \<noteq> 0 \<and> zombie_in K s then raised (of_nat SIGCHLD) t else t)"

lemma valid_SIGCHLD: "valid_sig (of_nat SIGCHLD)"
  by (simp add: valid_sig_def SIGCHLD_def word_sless_alt)

lemma raised_SIGCHLD: "raised (of_nat SIGCHLD) t = t\<lparr>signal := signal t OR sigbit SIGCHLD\<rparr>"
  by (simp add: raised_def SIGCHLD_def sigbit_def)

lemma raised_father: "raised sig (t\<lparr>father := f\<rparr>) = (raised sig t)\<lparr>father := f\<rparr>"
  by (simp add: raised_def)

lemma kids_Suc:
  "kids i (Suc n) s = (if task s i \<noteq> 0 \<and> father (tstruct s (task s i)) = pid (tstruct s (current s))
     then insert (task s i) (kids (Suc i) n s) else kids (Suc i) n s)"
proof -
  have "(\<exists>j. i \<le> j \<and> j < i + Suc n \<and> task s j = q) \<longleftrightarrow> task s i = q \<or> (\<exists>j. Suc i \<le> j \<and> j < Suc i + n \<and> task s j = q)" for q
    by (metis Suc_leI add_Suc add_Suc_right le_add1 le_neq_implies_less less_add_Suc1 Suc_leD order_refl)
  then show ?thesis by (auto simp: kids_def)
qed

lemma tstruct_eqI: "f = g \<Longrightarrow> s\<lparr>tstruct := f\<rparr> = s\<lparr>tstruct := g\<rparr>"
  by simp

lemma reparented_simps [simp]:
  "pid (reparented K s q) = pid (tstruct s q)" "state (reparented K s q) = state (tstruct s q)"
  "ldt (reparented K s q) = ldt (tstruct s q)" "exit_code (reparented K s q) = exit_code (tstruct s q)"
  "father (reparented K s q) = (if q \<in> K then 1 else father (tstruct s q))"
  "signal (reparented K s q) = signal (tstruct s q) OR
     (if q = task s 1 \<and> q \<noteq> 0 \<and> zombie_in K s then sigbit SIGCHLD else 0)"
  by (auto simp add: reparented_def Let_def raised_SIGCHLD)

lemma reparented_insert:
  "reparented K (s\<lparr>tstruct := reparented {q} s\<rparr>) p = reparented (insert q K) s p"
proof -
  have "zombie_in K (s\<lparr>tstruct := reparented {q} s\<rparr>) = zombie_in K s"
    "zombie_in (insert q K) s = (state (tstruct s q) = TASK_ZOMBIE \<or> zombie_in K s)"
    "zombie_in {q} s = (state (tstruct s q) = TASK_ZOMBIE)"
    by (simp_all add: zombie_in_def)
  then show ?thesis
    by (cases "p = task s 1 \<and> p \<noteq> 0"; cases "state (tstruct s q) = TASK_ZOMBIE"; cases "zombie_in K s";
        cases "p = q"; cases "p \<in> K")
       (auto simp: reparented_def Let_def raised_father)
qed

lemma orphan_children_eq:
  fixes s :: "'a kern_scheme"
  shows "orphan_children n i s = s\<lparr>tstruct := reparented (kids i n s) s\<rparr>"
proof (induction n arbitrary: i s)
  case 0
  have "kids i 0 s = {}" by (auto simp: kids_def)
  then have "reparented (kids i 0 s) s = tstruct s" by (simp add: reparented_def zombie_in_def fun_eq_iff Let_def)
  then show ?case by simp
next
  case (Suc n)
  let ?q = "task s i"
  show ?case
  proof (cases "?q \<noteq> 0 \<and> father (tstruct s ?q) = pid (tstruct s (current s))")
    case False
    then have "kids i (Suc n) s = kids (Suc i) n s" by (simp only: kids_Suc if_False)
    moreover have "orphan_children (Suc n) i s = orphan_children n (Suc i) s"
      by (simp only: orphan_children.simps False if_False)
    ultimately show ?thesis by (simp only: Suc.IH)
  next
    case True
    then have q: "?q \<noteq> 0" "father (tstruct s ?q) = pid (tstruct s (current s))" by simp_all
    define s1 where "s1 = s\<lparr>tstruct := reparented {?q} s\<rparr>"
    have s1: "orphan_children (Suc n) i s = orphan_children n (Suc i) s1"
    proof (cases "state (tstruct s ?q) = TASK_ZOMBIE \<and> task s 1 \<noteq> 0")
      case True
      then have "snd (send_sig (of_nat SIGCHLD) (task s 1) 1 (upd_task ?q (\<lambda>t. t\<lparr>father := 1\<rparr>) s)) = s1"
        using valid_SIGCHLD
        by (simp add: send_sig_eq s1_def upd_task_def) (auto simp: fun_eq_iff reparented_def zombie_in_def raised_father intro!: tstruct_eqI)
      with True q show ?thesis by (simp add: Let_def)
    next
      case False
      then have "upd_task ?q (\<lambda>t. t\<lparr>father := 1\<rparr>) s = s1"
        by (auto simp: upd_task_def s1_def fun_eq_iff reparented_def zombie_in_def Let_def intro!: tstruct_eqI)
      with False q show ?thesis by (auto simp: Let_def send_sig_def)
    qed
    have f: "pid (tstruct s1 p) = pid (tstruct s p)" "state (tstruct s1 p) = state (tstruct s p)"
      "p \<noteq> ?q \<Longrightarrow> father (tstruct s1 p) = father (tstruct s p)" "task s1 = task s" "current s1 = current s" for p
      by (simp_all add: s1_def reparented_def Let_def)
    have k: "insert ?q (kids (Suc i) n s1) = kids i (Suc n) s"
    proof -
      have "insert ?q (kids (Suc i) n s1) = insert ?q (kids (Suc i) n s)"
        using f by (auto simp: kids_def)
      then show ?thesis using q by (simp add: kids_Suc)
    qed
    have "reparented (kids (Suc i) n s1) s1 p = reparented (kids i (Suc n) s) s p" for p
      unfolding k [symmetric] s1_def by (rule reparented_insert)
    then have "reparented (kids (Suc i) n s1) s1 = reparented (kids i (Suc n) s) s" ..
    then show ?thesis unfolding s1 Suc.IH by (simp add: s1_def)
  qed
qed

lemma task_of_pid_Some:
  "task_of_pid k i n s = Some p \<Longrightarrow> \<exists>j. i \<le> j \<and> j < i + k \<and> task s j = p \<and> p \<noteq> 0 \<and> pid (tstruct s p) = n"
proof (induction k arbitrary: i)
  case (Suc k)
  show ?case
  proof (cases "task s i \<noteq> 0 \<and> pid (tstruct s (task s i)) = n")
    case True
    with Suc.prems show ?thesis by (intro exI [of _ i]) auto
  next
    case False
    then have "task_of_pid k (Suc i) n s = Some p" using Suc.prems by (simp split: if_splits)
    then obtain j where "Suc i \<le> j" "j < Suc i + k" "task s j = p" "p \<noteq> 0" "pid (tstruct s p) = n" using Suc.IH by blast
    then show ?thesis by (intro exI [of _ j]) simp
  qed
qed simp

lemma task_of_pid_None:
  "task_of_pid k i n s = None \<longleftrightarrow> (\<forall>j. i \<le> j \<and> j < i + k \<longrightarrow> task s j = 0 \<or> pid (tstruct s (task s j)) \<noteq> n)"
proof (induction k arbitrary: i)
  case (Suc k)
  have "(\<forall>j. i \<le> j \<and> j < i + Suc k \<longrightarrow> P j) \<longleftrightarrow> P i \<and> (\<forall>j. Suc i \<le> j \<and> j < Suc i + k \<longrightarrow> P j)" for P :: "nat \<Rightarrow> bool"
    by (metis Suc_leI add_Suc add_Suc_right le_add1 le_neq_implies_less less_add_Suc1 Suc_leD order_refl)
  then show ?case using Suc by simp
qed auto

lemma wf_tasks_cong:
  "task s' = task s \<Longrightarrow> init_task s' = init_task s \<Longrightarrow> current s' = current s \<Longrightarrow> wf_tasks s' = wf_tasks s"
  by (simp only: wf_tasks_def)

text \<open>The address space of the current task: its code and its data segment.\<close>

definition exit_dirs :: "'a kern_scheme \<Rightarrow> nat \<Rightarrow> bool" where
  "exit_dirs s d \<longleftrightarrow> (let me = tstruct s (current s) in \<exists>k \<in> {1, 2}.
     dir_index (get_base (ldt me k)) \<le> d \<and> d < dir_index (get_base (ldt me k)) + dir_count (get_limit (ldt me k)))"

text \<open>Both segments start at a directory entry past the kernel's four and end in the directory.\<close>

definition exitable :: "'a kern_scheme \<Rightarrow> bool" where
  "exitable s \<longleftrightarrow> (let me = tstruct s (current s) in \<forall>k \<in> {1, 2}.
     get_base (ldt me k) AND 0x3fffff = 0 \<and> 4 \<le> dir_index (get_base (ldt me k)) \<and>
     dir_index (get_base (ldt me k)) + dir_count (get_limit (ldt me k)) \<le> 1024)"

lemma exit_tables_freed:
  fixes s :: "'a kern_scheme"
  assumes "kernel_ok own s" and "exitable s"
  defines "seg \<equiv> ldt (tstruct s (current s))"
  obtains s1 s2 where "free_page_tables (get_base (seg 1)) (get_limit (seg 1)) s = Inr (0, s1)"
    "free_page_tables (get_base (seg 2)) (get_limit (seg 2)) s1 = Inr (0, s2)" "vm_inv own s2"
    "walk s2 = (\<lambda>x. if exit_dirs s (dir_index x) then None else walk s x)"
    "mm.more s2 = mm.more s" "HIGH_MEMORY s2 = HIGH_MEMORY s"
proof -
  note k = kernel_okD [OF assms(1)]
  have e: "get_base (seg k) AND 0x3fffff = 0" "4 \<le> dir_index (get_base (seg k))"
     "dir_index (get_base (seg k)) + dir_count (get_limit (seg k)) \<le> 1024" if "k \<in> {1, 2}" for k
    using assms(2) that unfolding exitable_def Let_def seg_def by blast+
  obtain s1 where s1: "free_page_tables (get_base (seg 1)) (get_limit (seg 1)) s = Inr (0, s1)" "vm_inv own s1"
    "\<forall>x. walk s1 x = (if dir_index (get_base (seg 1)) \<le> dir_index x \<and>
      dir_index x < dir_index (get_base (seg 1)) + dir_count (get_limit (seg 1)) then None else walk s x)"
    using free_page_tables_spec [OF k(2) e, of 1] by auto
  obtain s2 where s2: "free_page_tables (get_base (seg 2)) (get_limit (seg 2)) s1 = Inr (0, s2)" "vm_inv own s2"
    "\<forall>x. walk s2 x = (if dir_index (get_base (seg 2)) \<le> dir_index x \<and>
      dir_index x < dir_index (get_base (seg 2)) + dir_count (get_limit (seg 2)) then None else walk s1 x)"
    using free_page_tables_spec [OF s1(2) e, of 2] by auto
  have "walk s2 = (\<lambda>x. if exit_dirs s (dir_index x) then None else walk s x)"
    using s1(3) s2(3) by (auto simp: exit_dirs_def Let_def fun_eq_iff seg_def)
  moreover have "mm.more s2 = mm.more s" "HIGH_MEMORY s2 = HIGH_MEMORY s"
    using more_free_page_tables [OF s1(1)] more_free_page_tables [OF s2(1)] by simp_all
  ultimately show thesis using that s1(1) s2(1,2) by blast
qed

lemma do_exit_until_father:
  fixes s :: "'a kern_scheme"
  assumes "kernel_ok own s" and "exitable s" and "father (tstruct s (current s)) \<noteq> pid (tstruct s (current s))"
  obtains t where "do_exit others code s = kbind (tell_father others (father (tstruct s (current s))) t)
      (\<lambda>s6. kbind (schedule others s6) (\<lambda>s7. Inr (-1, s7)))"
    "kernel_ok own t" "task t = task s" "current t = current s"
    "last_task_used_math t = (if last_task_used_math s = current s then 0 else last_task_used_math s)"
    "walk t = (\<lambda>x. if exit_dirs s (dir_index x) then None else walk s x)"
    "tstruct t = (\<lambda>q. if q = current s then (reparented (kids 0 64 s) s q)\<lparr>state := TASK_ZOMBIE, exit_code := code\<rparr>
       else reparented (kids 0 64 s) s q)"
proof -
  let ?me = "tstruct s (current s)"
  note k = kernel_okD [OF assms(1)]
  obtain s1 s2 where s1: "free_page_tables (get_base (ldt ?me 1)) (get_limit (ldt ?me 1)) s = Inr (0, s1)"
    and s2: "free_page_tables (get_base (ldt ?me 2)) (get_limit (ldt ?me 2)) s1 = Inr (0, s2)" "vm_inv own s2"
    and w: "walk s2 = (\<lambda>x. if exit_dirs s (dir_index x) then None else walk s x)"
    and m: "mm.more s2 = mm.more s" "HIGH_MEMORY s2 = HIGH_MEMORY s"
    by (rule exit_tables_freed [OF assms(1,2)])
  note r = kern_rest [OF m(1)]
  define s3 where "s3 = s2\<lparr>tstruct := reparented (kids 0 64 s) s\<rparr>"
  have o: "orphan_children NR_TASKS 0 s2 = s3"
  proof -
    have "kids 0 64 s2 = kids 0 64 s" by (simp only: kids_def r)
    moreover have "reparented K s2 = reparented K s" for K by (rule ext) (simp only: reparented_def zombie_in_def r)
    ultimately show ?thesis by (simp add: orphan_children_eq s3_def)
  qed
  define s4 where "s4 = (if last_task_used_math s3 = current s3 then s3\<lparr>last_task_used_math := 0\<rparr> else s3)"
  define t where "t = upd_task (current s4) (\<lambda>t. t\<lparr>state := TASK_ZOMBIE, exit_code := code\<rparr>) s4"
  have s4: "task s4 = task s" "current s4 = current s" "tstruct s4 = reparented (kids 0 64 s) s"
    "init_task s4 = init_task s"
    "last_task_used_math s4 = (if last_task_used_math s = current s then 0 else last_task_used_math s)"
    by (simp_all add: s4_def s3_def r)
  have mt: "HIGH_MEMORY t = HIGH_MEMORY s2" "mem_map t = mem_map s2" "phys t = phys s2"
    by (simp_all add: t_def s4_def s3_def)
  have "father (tstruct t (current t)) = father ?me"
    using assms(3) by (simp add: t_def s4 reparented_def Let_def kids_def raised_father)
  then have "do_exit others code s = kbind (tell_father others (father ?me) t)
      (\<lambda>s6. kbind (schedule others s6) (\<lambda>s7. Inr (-1, s7)))"
    unfolding do_exit_def Let_def s1 kbind.simps prod.case s2(1) o s4_def [symmetric] t_def [symmetric] by simp
  moreover have "kernel_ok own t"
  proof -
    have "wf_tasks t = wf_tasks s" by (rule wf_tasks_cong) (simp_all add: t_def s4)
    then have "wf_tasks t" using k(1) by simp
    moreover have "pool t = pool s" using mt(1) m(2) by (simp add: pool_def fun_eq_iff)
    ultimately show ?thesis
      using k(3,4) s2(2) by (simp add: kernel_ok_def mm_cong [OF mt]) (simp add: t_def s4)
  qed
  moreover have "task t = task s" "current t = current s"
    "last_task_used_math t = (if last_task_used_math s = current s then 0 else last_task_used_math s)"
    by (simp_all add: t_def s4)
  moreover have "walk t = (\<lambda>x. if exit_dirs s (dir_index x) then None else walk s x)"
    using w by (simp only: mm_cong [OF mt])
  moreover have "tstruct t = (\<lambda>q. if q = current s then (reparented (kids 0 64 s) s q)\<lparr>state := TASK_ZOMBIE, exit_code := code\<rparr>
       else reparented (kids 0 64 s) s q)"
    by (rule ext) (simp add: t_def s4)
  ultimately show thesis by (rule that)
qed

text \<open>Two tasks on the memory \<open>m\<close>: task 0, and the current task with its descriptor at \<open>p\<close>,
  its address space at 64 MB and the father \<open>f\<close>.\<close>

definition pair_kern :: "u32 \<Rightarrow> mm \<Rightarrow> u32 \<Rightarrow> kern" where
  "pair_kern f m p = (boot_kern m)\<lparr>task := (\<lambda>_. 0)(0 := 0x20000, 1 := p), current := p,
     tstruct := (\<lambda>_. blank_task)(p := sharer_task\<lparr>father := f\<rparr>)\<rparr>"

lemma pair_kern_simps:
  "HIGH_MEMORY (pair_kern f m p) = HIGH_MEMORY m" "mem_map (pair_kern f m p) = mem_map m"
  "phys (pair_kern f m p) = phys m" "init_task (pair_kern f m p) = 0x20000" "current (pair_kern f m p) = p"
  "task (pair_kern f m p) = (\<lambda>_. 0)(0 := 0x20000, 1 := p)"
  "tstruct (pair_kern f m p) = (\<lambda>_. blank_task)(p := sharer_task\<lparr>father := f\<rparr>)"
  by (simp_all add: pair_kern_def boot_kern_mm boot_kern_simps)

lemma pair_kern_kernel:
  assumes v: "vm_inv (\<lambda>_. 0) m0" and p: "get_free_page m0 = (p, m)" "p \<noteq> 0"
  shows "p \<noteq> 0x20000" "kernel_ok ((\<lambda>_. 0)(p := 1)) (pair_kern f m p)"
proof -
  have pl: "pool m p" using get_free_page_pool [OF vm_invD(2) [OF v] p] by simp
  note tk = vm_inv_take(1) [OF v p]
  show np: "p \<noteq> 0x20000" using pl by (auto simp: pool_def managed_def LOW_MEM_def)
  note c = mm_cong [OF pair_kern_simps(1,2,3)]
  have "wf_tasks (pair_kern f m p)"
    using np p(2) by (simp add: wf_tasks_def pair_kern_simps) (blast intro: exI [of _ 1])
  moreover have "\<not> managed 0x20000" by (simp add: managed_def LOW_MEM_def)
  moreover have "task (pair_kern f m p) i = (if i = 0 then 0x20000 else if i = 1 then p else 0)" for i
    by (simp add: pair_kern_simps)
  ultimately show "kernel_ok ((\<lambda>_. 0)(p := 1)) (pair_kern f m p)"
    using tk pl by (simp add: kernel_ok_def c pair_kern_simps(4))
qed

lemma pair_kern_ok:
  obtains m p where "p \<noteq> 0x20000" "p \<noteq> 0" "\<And>f. kernel_ok ((\<lambda>_. 0)(p := 1)) (pair_kern f m p)"
    "\<And>f. exitable (pair_kern f m p)"
proof -
  obtain m0 where m0: "mem_init 0x100000 0x300000 head_state = Inr m0" using head_state_boot by blast
  obtain p m where p: "get_free_page m0 = (p, m)" by fastforce
  have "refs m0 (frame 0) = 0" using mem_init_boot(3) [OF m0, of 0] by (simp add: refs_frame)
  then have nz: "p \<noteq> 0" using get_free_page_0 [of m0 m] p managed_frame [of 0] by fastforce
  note v = vm_inv_boot [OF head_state_tables m0]
  have "exitable (pair_kern f m p)" for f
    using sharers_kern_simps(4,5) by (simp add: exitable_def pair_kern_simps dir_index_def dir_count_def)
  then show thesis using that pair_kern_kernel [OF v p nz] nz by blast
qed

text \<open>C28: the end of a task. \<open>do_exit\<close> frees the address space of the task and nothing else,
  gives its children to task 1, turns the task into a zombie with its exit code, raises
  \<open>SIGCHLD\<close> in its father, and in task 1 when one of the children is a zombie, and then gives
  up the processor. The state it leaves to the other tasks satisfies the kernel's invariant.\<close>

theorem exit_notifies_father:
  fixes s :: "'a kern_scheme" and me :: task_struct
  assumes "kernel_ok own s" and "exitable s" and "father (tstruct s (current s)) \<noteq> pid (tstruct s (current s))"
    and "i < 64" and "task s i \<noteq> 0" and "pid (tstruct s (task s i)) = father (tstruct s (current s))"
    and "\<forall>j < 64. task s j \<noteq> 0 \<and> pid (tstruct s (task s j)) = father (tstruct s (current s)) \<longrightarrow> j = i"
  shows "\<exists>t. do_exit others code s = kbind (schedule others t) (\<lambda>s7. Inr (-1, s7)) \<and>
    kernel_ok own t \<and> task t = task s \<and> current t = current s \<and>
    last_task_used_math t = (if last_task_used_math s = current s then 0 else last_task_used_math s) \<and>
    (\<forall>x. walk t x = (if exit_dirs s (dir_index x) then None else walk s x)) \<and>
    (\<forall>q. state (tstruct t q) = (if q = current s then TASK_ZOMBIE else state (tstruct s q)) \<and>
       exit_code (tstruct t q) = (if q = current s then code else exit_code (tstruct s q)) \<and>
       father (tstruct t q) = (if q \<in> kids 0 64 s then 1 else father (tstruct s q)) \<and>
       signal (tstruct t q) = signal (tstruct s q) OR
         (if q = task s i \<or> q = task s 1 \<and> q \<noteq> 0 \<and> zombie_in (kids 0 64 s) s then sigbit SIGCHLD else 0))"
proof -
  let ?f = "father (tstruct s (current s))"
  obtain t where t: "do_exit others code s = kbind (tell_father others ?f t)
      (\<lambda>s6. kbind (schedule others s6) (\<lambda>s7. Inr (-1, s7)))"
    and k: "kernel_ok own t" "task t = task s" "current t = current s"
    and m: "last_task_used_math t = (if last_task_used_math s = current s then 0 else last_task_used_math s)"
    and w: "walk t = (\<lambda>x. if exit_dirs s (dir_index x) then None else walk s x)"
    and ts: "tstruct t = (\<lambda>q. if q = current s then (reparented (kids 0 64 s) s q)\<lparr>state := TASK_ZOMBIE, exit_code := code\<rparr>
       else reparented (kids 0 64 s) s q)"
    by (rule do_exit_until_father [OF assms(1-3)])
  have pid: "pid (tstruct t q) = pid (tstruct s q)" for q by (simp add: ts)
  have "task_of_pid 64 0 ?f t \<noteq> None" using assms(4-6) by (auto simp: task_of_pid_None k pid)
  then obtain p where p: "task_of_pid 64 0 ?f t = Some p" by blast
  then have "p = task s i" using task_of_pid_Some [OF p] assms(7) by (auto simp: k pid)
  define u where "u = upd_task (task s i) (\<lambda>t. t\<lparr>signal := signal t OR sigbit SIGCHLD\<rparr>) t"
  have "do_exit others code s = kbind (schedule others u) (\<lambda>s7. Inr (-1, s7))"
    using p by (simp add: t tell_father_def \<open>p = task s i\<close> u_def)
  moreover have "kernel_ok own u"
    using k(1) unfolding kernel_ok_def u_def by (simp add: wf_tasks_cong [of "upd_task _ _ t" t] pool_def)
  moreover have "\<forall>q. state (tstruct u q) = (if q = current s then TASK_ZOMBIE else state (tstruct s q)) \<and>
       exit_code (tstruct u q) = (if q = current s then code else exit_code (tstruct s q)) \<and>
       father (tstruct u q) = (if q \<in> kids 0 64 s then 1 else father (tstruct s q))"
    by (simp add: u_def ts)
  moreover have "signal (tstruct u q) = signal (tstruct s q) OR
       (if q = task s i \<or> q = task s 1 \<and> q \<noteq> 0 \<and> zombie_in (kids 0 64 s) s then sigbit SIGCHLD else 0)" for q
  proof -
    have "signal (tstruct t q) = signal (tstruct s q) OR
       (if q = task s 1 \<and> q \<noteq> 0 \<and> zombie_in (kids 0 64 s) s then sigbit SIGCHLD else 0)"
    proof -
      have "signal (tstruct t q) = signal (reparented (kids 0 64 s) s q)" by (simp add: ts del: reparented_simps)
      then show ?thesis by (simp only: reparented_simps)
    qed
    moreover have "signal (tstruct u q) = (if q = task s i then signal (tstruct t q) OR sigbit SIGCHLD else signal (tstruct t q))"
      by (simp add: u_def)
    ultimately show ?thesis
      by (cases "q = task s 1 \<and> q \<noteq> 0 \<and> zombie_in (kids 0 64 s) s") (auto simp: or.assoc)
  qed
  moreover have "task u = task s" "current u = current s" "last_task_used_math u = last_task_used_math t" "walk u = walk t"
    by (simp_all add: u_def k)
  ultimately show ?thesis using m w by (intro exI [of _ u]) simp
qed

theorem exit_notifies_father_witness:
  "\<exists>(s :: kern) t. do_exit (\<lambda>s. Inr s) 256 s = kbind (schedule (\<lambda>s. Inr s) t) (\<lambda>s7. Inr (-1, s7)) \<and>
     state (tstruct t (current s)) = TASK_ZOMBIE \<and> signal (tstruct t (task t 0)) = sigbit SIGCHLD"
proof -
  obtain m p where p: "p \<noteq> 0x20000" "p \<noteq> 0"
    and ok: "kernel_ok ((\<lambda>_. 0)(p := 1)) (pair_kern 0 m p)" "exitable (pair_kern 0 m p)"
    by (rule pair_kern_ok) blast
  let ?s = "pair_kern 0 m p"
  note v = pair_kern_simps [of 0 m p]
  have b: "pid sharer_task = 1" "pid blank_task = 0" "signal blank_task = 0" "state blank_task = 0"
    by (simp_all add: sharer_task_def blank_task_def)
  have k: "kids 0 64 ?s = {}"
    using p by (auto simp: kids_def v b blank_task_def split: if_splits)
  have "\<forall>j < 64. task ?s j \<noteq> 0 \<and> pid (tstruct ?s (task ?s j)) = father (tstruct ?s (current ?s)) \<longrightarrow> j = 0"
    using p by (auto simp: v b)
  note r = exit_notifies_father [OF ok _ _ _ _ this, of "\<lambda>s. Inr s" 256]
  have "\<exists>t. do_exit (\<lambda>s. Inr s) 256 ?s = kbind (schedule (\<lambda>s. Inr s) t) (\<lambda>s7. Inr (-1, s7)) \<and>
    task t = task ?s \<and> state (tstruct t (current ?s)) = TASK_ZOMBIE \<and> signal (tstruct t (task ?s 0)) = sigbit SIGCHLD"
  proof -
    obtain t where t: "do_exit (\<lambda>s. Inr s) 256 ?s = kbind (schedule (\<lambda>s. Inr s) t) (\<lambda>s7. Inr (-1, s7))"
      "task t = task ?s"
      "\<forall>q. state (tstruct t q) = (if q = current ?s then TASK_ZOMBIE else state (tstruct ?s q)) \<and>
         signal (tstruct t q) = signal (tstruct ?s q) OR
         (if q = task ?s 0 \<or> q = task ?s 1 \<and> q \<noteq> 0 \<and> zombie_in (kids 0 64 ?s) ?s then sigbit SIGCHLD else 0)"
      using r p by (simp add: v b) blast
    then have "state (tstruct t (current ?s)) = TASK_ZOMBIE" by simp
    moreover have "signal (tstruct t (task ?s 0)) = sigbit SIGCHLD"
      using t(3) [THEN spec, of "task ?s 0"] p by (simp add: v b)
    ultimately show ?thesis using t(1,2) by blast
  qed
  then show ?thesis by metis
qed

text \<open>C29: the end of a task without a father. When no task has the process number of the
  father, \<open>tell_father\<close> releases the current task itself: the frame that holds the
  descriptor and the kernel stack the processor is using goes back to the pool while the
  task is still \<open>current\<close>, and the scheduler is called from there, twice.\<close>

theorem exit_without_father_frees_own_stack:
  fixes s :: "'a kern_scheme"
  assumes "kernel_ok own s" and "exitable s" and "father (tstruct s (current s)) \<noteq> pid (tstruct s (current s))"
    and "\<forall>j < 64. task s j \<noteq> 0 \<longrightarrow> pid (tstruct s (task s j)) \<noteq> father (tstruct s (current s))"
    and "1 \<le> i" and "i < 64" and "task s i = current s"
  shows "\<exists>t. do_exit others code s =
      kbind (schedule others t) (\<lambda>s6. kbind (schedule others s6) (\<lambda>s7. Inr (-1, s7))) \<and>
    current t = current s \<and> task t = (task s)(i := 0) \<and> (\<forall>j < 64. task t j \<noteq> current t) \<and>
    vm_inv (own(current s := 0)) t \<and> pool t (current t) \<and> refs t (current t) = uses t (current t)"
proof -
  let ?f = "father (tstruct s (current s))" and ?c = "current s"
  obtain t where t: "do_exit others code s = kbind (tell_father others ?f t)
      (\<lambda>s6. kbind (schedule others s6) (\<lambda>s7. Inr (-1, s7)))"
    and k: "kernel_ok own t" "task t = task s" "current t = ?c"
    and ts: "tstruct t = (\<lambda>q. if q = ?c then (reparented (kids 0 64 s) s q)\<lparr>state := TASK_ZOMBIE, exit_code := code\<rparr>
       else reparented (kids 0 64 s) s q)"
    by (rule do_exit_until_father [OF assms(1-3)])
  note kt = kernel_okD [OF k(1)] and w = wf_tasksD [OF kernel_okD(1) [OF k(1)]]
  have "pid (tstruct t q) = pid (tstruct s q)" for q by (simp add: ts)
  then have none: "task_of_pid 64 0 ?f t = None" using assms(4) by (auto simp: task_of_pid_None k)
  have uniq: "task t j = ?c \<longleftrightarrow> j = i" if "j < 64" for j
    using w(5) [of i j] that assms(6,7) w(3) by (auto simp: k)
  have "slot_of n (64 - n) ?c t = (if 64 - n \<le> i then Some i else None)" if "n \<le> 64" for n
    using that
  proof (induction n)
    case 0
    then show ?case using assms(6) by simp
  next
    case (Suc n)
    then have "Suc (64 - Suc n) = 64 - n" by simp
    then show ?case using Suc uniq [of "64 - Suc n"] by auto
  qed
  from this [of 64] have sl: "slot_of 64 0 ?c t = Some i" by simp
  have p: "pool t ?c" "own ?c = 1" using kt(4) [OF assms(5,6)] w(3) by (simp_all add: k assms(7))
  let ?t = "t\<lparr>task := (task t)(i := 0)\<rparr>"
  obtain u where u: "free_page ?c ?t = Inr u" "vm_inv (own(?c := 0)) u"
    using vm_inv_release [of own ?t ?c] kt(2) p by auto
  have m: "mm.more u = mm.more ?t" "HIGH_MEMORY u = HIGH_MEMORY ?t" using more_free_page [OF u(1)] by simp_all
  note r = kern_rest [OF m(1)]
  have "tell_father others ?f t = schedule others u"
    using none sl u(1) w(3) by (simp add: tell_father_def release_def k)
  moreover have "pool u ?c" using p(1) m(2) by (simp add: pool_def)
  moreover have "\<forall>j < 64. task u j \<noteq> ?c" using uniq w(3) by (auto simp: r k)
  moreover have "refs u ?c = uses u ?c" using vm_invD(3) [OF u(2)] \<open>pool u ?c\<close> by simp
  ultimately show ?thesis using t u(2) by (intro exI [of _ u]) (simp add: r k)
qed

theorem exit_without_father_frees_own_stack_witness:
  "\<exists>(s :: kern) t. do_exit (\<lambda>s. Inr s) 256 s =
      kbind (schedule (\<lambda>s. Inr s) t) (\<lambda>s6. kbind (schedule (\<lambda>s. Inr s) s6) (\<lambda>s7. Inr (-1, s7))) \<and>
     current t \<noteq> 0 \<and> (\<forall>j < 64. task t j \<noteq> current t)"
proof -
  obtain m p where p: "p \<noteq> 0x20000" "p \<noteq> 0"
    and ok: "kernel_ok ((\<lambda>_. 0)(p := 1)) (pair_kern 9 m p)" "exitable (pair_kern 9 m p)"
    by (rule pair_kern_ok) blast
  let ?s = "pair_kern 9 m p"
  note v = pair_kern_simps [of 9 m p]
  have b: "pid sharer_task = 1" "pid blank_task = 0" by (simp_all add: sharer_task_def blank_task_def)
  have f: "\<forall>j < 64. task ?s j \<noteq> 0 \<longrightarrow> pid (tstruct ?s (task ?s j)) \<noteq> father (tstruct ?s (current ?s))"
    using p by (auto simp: v b)
  have g: "father (tstruct ?s (current ?s)) \<noteq> pid (tstruct ?s (current ?s))" by (simp add: v b)
  have i: "task ?s 1 = current ?s" by (simp add: v)
  have "\<exists>t. do_exit (\<lambda>s. Inr s) 256 ?s =
      kbind (schedule (\<lambda>s. Inr s) t) (\<lambda>s6. kbind (schedule (\<lambda>s. Inr s) s6) (\<lambda>s7. Inr (-1, s7))) \<and>
     current t = p \<and> (\<forall>j < 64. task t j \<noteq> current t)"
    using exit_without_father_frees_own_stack [OF ok g f _ _ i, of "\<lambda>s. Inr s" 256] unfolding v(5) by fastforce
  then show ?thesis using p(2) by metis
qed

end
