(* ===== verification/Signal.thy ===== *)
theory Signal
  imports Exit
begin

text \<open>
  Signal masks and actions, and the delivery of a signal on the way back to the user
  (kernel/signal.c, and \<open>ret_from_syscall\<close> of kernel/system_call.s, which calls it). Debug
  output to the serial port is left out.
\<close>

section \<open>Operations\<close>

definition SA_NOMASK :: u32 where
  "SA_NOMASK = 0x40000000"

definition SA_ONESHOT :: u32 where
  "SA_ONESHOT = 0x80000000"

text \<open>What \<open>system_call\<close> and \<open>timer_interrupt\<close> leave on the kernel stack: the arguments of
  \<open>do_signal\<close> after the number of the signal.\<close>

record frame =
  f_eax :: u32
  f_ebx :: u32
  f_ecx :: u32
  f_edx :: u32
  f_fs :: u32
  f_es :: u32
  f_ds :: u32
  f_eip :: u32
  f_cs :: u32
  f_eflags :: u32
  f_esp :: u32
  f_ss :: u32

definition set_action :: "nat \<Rightarrow> sigaction \<Rightarrow> task_struct \<Rightarrow> task_struct" where
  "set_action i a t = t\<lparr>sigactions := (sigactions t)(i := a)\<rparr>"

text \<open>Consecutive \<open>put_fs_long\<close>, as \<open>tmp_esp++\<close> advances.\<close>

fun put_fs_longs :: "u32 list \<Rightarrow> u32 \<Rightarrow> 'a kern_scheme \<Rightarrow> kerror + 'a kern_scheme" where
  "put_fs_longs [] p s = Inr s"
| "put_fs_longs (w # ws) p s = kbind (put_fs_long w p s) (put_fs_longs ws (p + 4))"

text \<open>The words \<open>do_signal\<close> pushes, from the new top of the user's stack up.\<close>

definition signal_frame :: "sigaction \<Rightarrow> u32 \<Rightarrow> u32 \<Rightarrow> frame \<Rightarrow> u32 list" where
  "signal_frame sa signr old c = [sa_restorer sa, signr] @
     (if sa_flags sa AND SA_NOMASK = 0 then [old] else []) @ [f_eax c, f_ecx c, f_edx c, f_eflags c, f_eip c]"

definition do_signal :: "u32 \<Rightarrow> frame \<Rightarrow> 'a kern_scheme \<Rightarrow> kerror + frame \<times> 'a kern_scheme" where
  "do_signal signr c s =
     (let sa = sigactions (tstruct s (current s)) (unat (signr - 1)); handler = sa_handler sa in
      if handler = 1 then Inr (c, s)
      else if handler = 0 then Inr (c, s)
      else
        let s1 = (if sa_flags sa AND SA_ONESHOT \<noteq> 0
                  then upd_task (current s) (set_action (unat (signr - 1)) (sa\<lparr>sa_handler := 0\<rparr>)) s else s);
            longs = (if sa_flags sa AND SA_NOMASK \<noteq> 0 then 7 else 8);
            esp = f_esp c - 4 * longs in
        kbind (verify_area esp (longs * 4) s1) (\<lambda>s2.
        kbind (put_fs_longs (signal_frame sa signr (blocked (tstruct s2 (current s2))) c) esp s2) (\<lambda>s3.
          Inr (c\<lparr>f_eip := handler, f_esp := esp\<rparr>,
               upd_task (current s3) (\<lambda>t. t\<lparr>blocked := blocked t OR sa_mask sa\<rparr>) s3))))"

text \<open>The instruction \<open>bsf\<close>: the lowest bit set, if there is one.\<close>

definition bsf :: "u32 \<Rightarrow> nat option" where
  "bsf w = find (bit w) [0..<32]"

definition ret_from_syscall :: "frame \<Rightarrow> 'a kern_scheme \<Rightarrow> kerror + frame \<times> 'a kern_scheme" where
  "ret_from_syscall c s =
     (let me = tstruct s (current s) in
      if current s = task s 0 \<or> (ucast (f_cs c) :: u16) \<noteq> 0x0f \<or> (ucast (f_ss c) :: u16) \<noteq> 0x17 then Inr (c, s)
      else case bsf (NOT (blocked me) AND signal me) of
        None \<Rightarrow> Inr (c, s)
      | Some n \<Rightarrow> do_signal (of_nat (n + 1)) c (upd_task (current s) (\<lambda>t. t\<lparr>signal := unset_bit n (signal t)\<rparr>) s))"

definition sys_sgetmask :: "'a kern_scheme \<Rightarrow> u32 \<times> 'a kern_scheme" where
  "sys_sgetmask s = (blocked (tstruct s (current s)), s)"

definition sys_ssetmask :: "u32 \<Rightarrow> 'a kern_scheme \<Rightarrow> u32 \<times> 'a kern_scheme" where
  "sys_ssetmask newmask s =
     (blocked (tstruct s (current s)),
      upd_task (current s) (\<lambda>t. t\<lparr>blocked := newmask AND NOT (sigbit SIGKILL)\<rparr>) s)"

text \<open>The 16 bytes of a \<open>struct sigaction\<close>.\<close>

definition sigaction_bytes :: "sigaction \<Rightarrow> u8 list" where
  "sigaction_bytes a =
     concat (map long_bytes [sa_handler a, sa_mask a, sa_flags a, sa_restorer a])"

definition sigaction_of :: "u8 list \<Rightarrow> sigaction" where
  "sigaction_of bs = \<lparr>sa_handler = bytes_long (take 4 bs), sa_mask = bytes_long (take 4 (drop 4 bs)),
     sa_flags = bytes_long (take 4 (drop 8 bs)), sa_restorer = bytes_long (take 4 (drop 12 bs))\<rparr>"

definition save_old :: "sigaction \<Rightarrow> u32 \<Rightarrow> 'a kern_scheme \<Rightarrow> kerror + 'a kern_scheme" where
  "save_old a dest s = kbind (verify_area dest 16 s) (put_fs_bytes (sigaction_bytes a) dest)"

text \<open>\<open>get_new\<close> with the action \<open>i\<close> of the current task as its destination.\<close>

definition get_new :: "u32 \<Rightarrow> nat \<Rightarrow> 'a kern_scheme \<Rightarrow> kerror + 'a kern_scheme" where
  "get_new src i s =
     kbind (get_fs_bytes 16 src s) (\<lambda>(bs, s1). Inr (upd_task (current s1) (set_action i (sigaction_of bs)) s1))"

definition bad_signum :: "u32 \<Rightarrow> bool" where
  "bad_signum signum \<longleftrightarrow> signum <s 1 \<or> 32 <s signum \<or> signum = of_nat SIGKILL"

definition sys_signal :: "u32 \<Rightarrow> u32 \<Rightarrow> u32 \<Rightarrow> 'a kern_scheme \<Rightarrow> u32 \<times> 'a kern_scheme" where
  "sys_signal signum handler restorer s =
     (if bad_signum signum then (-1, s)
      else
        let i = unat (signum - 1) in
        (sa_handler (sigactions (tstruct s (current s)) i),
         upd_task (current s) (set_action i \<lparr>sa_handler = handler, sa_mask = 0, sa_flags = SA_ONESHOT OR SA_NOMASK,
           sa_restorer = restorer\<rparr>) s))"

definition sys_sigaction :: "u32 \<Rightarrow> u32 \<Rightarrow> u32 \<Rightarrow> 'a kern_scheme \<Rightarrow> kerror + u32 \<times> 'a kern_scheme" where
  "sys_sigaction signum action old_action s =
     (if bad_signum signum then Inr (-1, s)
      else
        let i = unat (signum - 1); tmp = sigactions (tstruct s (current s)) i in
        kbind (get_new action i s) (\<lambda>s1.
        kbind (if old_action \<noteq> 0 then save_old tmp old_action s1 else Inr s1) (\<lambda>s2.
          Inr (0, upd_task (current s2) (\<lambda>t.
            let a = sigactions t i in
            set_action i (a\<lparr>sa_mask := if sa_flags a AND SA_NOMASK \<noteq> 0 then 0
              else sa_mask a OR push_bit (unat (signum - 1)) 1\<rparr>) t) s2))))"

section \<open>Bytes of words and of actions\<close>

lemma long_bytes_nth: "k < 4 \<Longrightarrow> long_bytes w ! k = get_byte w k"
  by (auto simp: long_bytes_def less_Suc_eq numeral_eq_Suc)

lemma length_long_bytes [simp]: "length (long_bytes w) = 4"
  by (simp add: long_bytes_def)

lemma bytes_long_long_bytes [simp]: "bytes_long (long_bytes w) = w"
proof -
  have g: "ucast (get_byte w k) = take_bit 8 (drop_bit (8 * k) w)" for k
    unfolding get_byte_def by (rule bit_word_eqI) (auto simp: bit_simps)
  have s: "bytes_long (long_bytes w) = take_bit 8 w + (push_bit 8 (take_bit 8 (drop_bit 8 w)) +
     (push_bit 16 (take_bit 8 (drop_bit 16 w)) + push_bit 24 (take_bit 8 (drop_bit 24 w))))"
    by (simp add: bytes_long_def long_bytes_def numeral_eq_Suc lessThan_Suc algebra_simps g)
  have step: "push_bit k (take_bit 8 (drop_bit k w)) + push_bit (k + 8) (drop_bit (k + 8) w) = push_bit k (drop_bit k w)" for k
  proof -
    have "push_bit k (take_bit 8 (drop_bit k w)) + push_bit (k + 8) (drop_bit (k + 8) w) =
        push_bit k (push_bit 8 (drop_bit 8 (drop_bit k w)) + take_bit 8 (drop_bit k w))"
      by (simp add: push_bit_add add.commute)
    then show ?thesis by (simp only: bits_ident)
  qed
  have "take_bit 8 (drop_bit 24 w) = drop_bit 24 w" by (rule bit_word_eqI) (auto simp: bit_simps dest: bit_imp_le_length)
  then show ?thesis using step [of 0] step [of 8] step [of 16] by (simp add: s)
qed

lemma length_sigaction_bytes [simp]: "length (sigaction_bytes a) = 16"
  by (simp add: sigaction_bytes_def)

lemma sigaction_of_bytes [simp]: "sigaction_of (sigaction_bytes a) = a"
  by (simp add: sigaction_of_def sigaction_bytes_def)

lemma put_fs_longs_bytes:
  "put_fs_longs ws p s = Inr s' \<Longrightarrow> put_fs_bytes (concat (map long_bytes ws)) p s = Inr s'"
proof (induction ws arbitrary: p s)
  case (Cons w ws)
  have app: "put_fs_bytes (as @ bs) p = (\<lambda>s. kbind (put_fs_bytes as p s) (put_fs_bytes bs (p + of_nat (length as))))"
    for as bs p
  proof (induction as arbitrary: p)
    case (Cons a as)
    show ?case by (rule ext) (simp add: Cons kbind_assoc algebra_simps)
  qed simp
  from Cons show ?case by (auto simp: kbind_elim app put_fs_long_def)
qed simp

lemma get_fs_bytes_reads:
  fixes s :: "'a kern_scheme"
  assumes "user_ok own s" "\<And>k. k < n \<Longrightarrow> user_page s (data_base s + a + of_nat k)" "get_fs_bytes n a s = Inr (bs, s')"
  shows "writes own s (\<lambda>y. load_byte y s) s' \<and> bs = map (\<lambda>k. load_byte (data_base s + a + of_nat k) s) [0..<n]"
  using assms
proof (induction n arbitrary: a s bs)
  case 0
  then show ?case by (simp add: writes_refl)
next
  case (Suc n)
  let ?x = "data_base s + a"
  obtain b s1 cs where s1: "get_fs_byte a s = Inr (b, s1)" "get_fs_bytes n (a + 1) s1 = Inr (cs, s')" "bs = b # cs"
    using Suc.prems(3) by (auto simp: kbind_elim)
  have u: "user_page s ?x" using Suc.prems(2) [of 0] by simp
  have t: "touch 0 ?x s = Inr s1" "b = load_byte ?x s1"
    using s1(1) by (auto simp: get_fs_byte_def fs_linear_def Let_def kbind_elim split: if_splits)
  have w1: "writes own s (\<lambda>y. load_byte y s) s1"
    using touch_writes [OF Suc.prems(1) _ _ t(1)] u by (simp add: user_page_def)
  note w = writesD [OF w1]
  have db: "data_base s1 = data_base s" using kern_rest(3,4) [OF w(2)] by simp
  have p1: "user_page s (data_base s + (a + 1) + of_nat k)" if "k < n" for k
    using Suc.prems(2) [of "Suc k"] that by (simp add: algebra_simps)
  have "writes own s1 (\<lambda>y. load_byte y s1) s' \<and> cs = map (\<lambda>k. load_byte (data_base s1 + (a + 1) + of_nat k) s1) [0..<n]"
    by (rule Suc.IH [OF w(1) _ s1(2)]) (use p1 w(4) db in simp)
  note IH = conjunct1 [OF this] conjunct2 [OF this]
  have "cs = map (\<lambda>k. load_byte (?x + of_nat (Suc k)) s) [0..<n]"
    using p1 w(5) by (auto simp: IH(2) db algebra_simps)
  moreover have "b = load_byte ?x s" using t(2) w(5) [OF u] by simp
  moreover have "map f [0..<Suc n] = f 0 # map (\<lambda>k. f (Suc k)) [0..<n]" for f :: "nat \<Rightarrow> u8"
    by (simp add: upt_conv_Cons map_Suc_upt [symmetric] del: upt_Suc)
  then have "map (\<lambda>k. load_byte (?x + of_nat k) s) [0..<Suc n] =
      load_byte (?x + of_nat 0) s # map (\<lambda>k. load_byte (?x + of_nat (Suc k)) s) [0..<n]" by (rule meta_spec)
  ultimately have "bs = map (\<lambda>k. load_byte (?x + of_nat k) s) [0..<Suc n]"
    using s1(3) by (simp del: of_nat_Suc upt_Suc)
  moreover have "writes own s (\<lambda>y. load_byte y s) s'" by (rule writes_trans [OF w1 IH(1)]) (simp add: w(5))
  ultimately show ?case by blast
qed

section \<open>Delivery\<close>

lemma bsf_Some: "bsf w = Some n \<longleftrightarrow> n < 32 \<and> bit w n \<and> (\<forall>m < n. \<not> bit w m)"
proof
  assume "bsf w = Some n"
  then obtain i where "i < 32" "bit w i" "n = i" "\<forall>m < i. \<not> bit w m" by (auto simp: bsf_def find_Some_iff)
  then show "n < 32 \<and> bit w n \<and> (\<forall>m < n. \<not> bit w m)" by simp
next
  assume "n < 32 \<and> bit w n \<and> (\<forall>m < n. \<not> bit w m)"
  then show "bsf w = Some n" by (auto simp: bsf_def find_Some_iff)
qed

lemma bsf_None: "bsf w = None \<longleftrightarrow> w = 0"
proof
  assume "bsf w = None"
  then have "\<forall>n < 32. \<not> bit w n" by (auto simp: bsf_def find_None_iff)
  then show "w = 0" by (intro bit_word_eqI) auto
qed (simp add: bsf_def find_None_iff)

lemma upd_task_user [simp]:
  "user_ok own (upd_task p f s) = user_ok own s" "load_byte y (upd_task p f s) = load_byte y s"
  "user_page (upd_task p f s) y = user_page s y" "private_page (upd_task p f s) y = private_page s y"
  by (rule user_mem_cong; simp)+

lemma set_action_simps [simp]:
  "signal (set_action i a t) = signal t" "blocked (set_action i a t) = blocked t" "ldt (set_action i a t) = ldt t"
  "sigactions (set_action i a t) = (sigactions t)(i := a)"
  by (simp_all add: set_action_def)

lemma unat_signr: "n < 32 \<Longrightarrow> unat (of_nat (n + 1) - 1 :: u32) = n"
  by (simp add: unat_of_nat_u32)

lemma length_signal_frame:
  "length (concat (map long_bytes (signal_frame sa signr old c))) = 4 * (if sa_flags sa AND SA_NOMASK \<noteq> 0 then 7 else 8)"
  by (simp add: signal_frame_def)

lemma do_signal_handled:
  fixes c :: frame
  assumes "do_signal signr c s = Inr (c', s')" "sigactions (tstruct s (current s)) (unat (signr - 1)) = sa"
    and "sa_handler sa \<noteq> 0" "sa_handler sa \<noteq> 1"
  defines "longs \<equiv> if sa_flags sa AND SA_NOMASK \<noteq> 0 then 7 else 8 :: u32"
    and "s1 \<equiv> if sa_flags sa AND SA_ONESHOT \<noteq> 0
      then upd_task (current s) (set_action (unat (signr - 1)) (sa\<lparr>sa_handler := 0\<rparr>)) s else s"
  obtains s2 s3 where "verify_area (f_esp c - 4 * longs) (longs * 4) s1 = Inr s2"
    "put_fs_longs (signal_frame sa signr (blocked (tstruct s2 (current s2))) c) (f_esp c - 4 * longs) s2 = Inr s3"
    "c' = c\<lparr>f_eip := sa_handler sa, f_esp := f_esp c - 4 * longs\<rparr>"
    "s' = upd_task (current s3) (\<lambda>t. t\<lparr>blocked := blocked t OR sa_mask sa\<rparr>) s3"
proof -
  have "kbind (verify_area (f_esp c - 4 * longs) (longs * 4) s1) (\<lambda>s2.
        kbind (put_fs_longs (signal_frame sa signr (blocked (tstruct s2 (current s2))) c) (f_esp c - 4 * longs) s2) (\<lambda>s3.
          Inr (c\<lparr>f_eip := sa_handler sa, f_esp := f_esp c - 4 * longs\<rparr>,
               upd_task (current s3) (\<lambda>t. t\<lparr>blocked := blocked t OR sa_mask sa\<rparr>) s3))) = Inr (c', s')"
    using assms(1) unfolding do_signal_def Let_def assms(2) longs_def s1_def by (simp only: assms(3,4) if_False)
  then show thesis using that by (auto simp: kbind_Inr_iff)
qed

lemma ret_from_syscall_eq:
  assumes "current s \<noteq> task s 0" "(ucast (f_cs c) :: u16) = 0x0f" "(ucast (f_ss c) :: u16) = 0x17"
    and "n < 32" "bit (signal (tstruct s (current s))) n" "\<not> bit (blocked (tstruct s (current s))) n"
    and "\<forall>m < n. bit (signal (tstruct s (current s))) m \<longrightarrow> bit (blocked (tstruct s (current s))) m"
  shows "ret_from_syscall c s =
    do_signal (of_nat (n + 1)) c (upd_task (current s) (\<lambda>t. t\<lparr>signal := unset_bit n (signal t)\<rparr>) s)"
proof -
  have "bsf (NOT (blocked (tstruct s (current s))) AND signal (tstruct s (current s))) = Some n"
    using assms(4-7) by (auto simp: bsf_Some bit_simps)
  then show ?thesis using assms(1-3) by (simp add: ret_from_syscall_def Let_def)
qed

lemma signal_delivery:
  fixes s s' :: "'a kern_scheme" and c c' :: frame and n :: nat
  defines "me \<equiv> tstruct s (current s)"
  defines "sa \<equiv> sigactions me n"
  defines "words \<equiv> signal_frame sa (of_nat (n + 1)) (blocked me) c"
  defines "esp \<equiv> f_esp c - of_nat (4 * length words)"
  assumes "user_ok own s" and "page_aligned (data_base s)" and "4 \<le> dir_index (data_base s)"
    and "unat (data_base s) + unat esp + 32 \<le> 4294967296"
    and "current s \<noteq> task s 0" and "(ucast (f_cs c) :: u16) = 0x0f" and "(ucast (f_ss c) :: u16) = 0x17"
    and "n < 32" and "bit (signal me) n" and "\<not> bit (blocked me) n" and "\<forall>m < n. bit (signal me) m \<longrightarrow> bit (blocked me) m"
    and "sa_handler sa \<noteq> 0" and "sa_handler sa \<noteq> 1"
    and "ret_from_syscall c s = Inr (c', s')"
  shows "c' = c\<lparr>f_eip := sa_handler sa, f_esp := esp\<rparr> \<and> user_ok own s' \<and>
    (\<forall>k < 4 * length words. load_byte (data_base s + esp + of_nat k) s' = concat (map long_bytes words) ! k) \<and>
    (\<forall>y. user_page s y \<and> (\<forall>k < 4 * length words. page_of y \<noteq> page_of (data_base s + esp + of_nat k)) \<longrightarrow>
       load_byte y s' = load_byte y s) \<and>
    tstruct s' = (tstruct s)(current s := me\<lparr>signal := unset_bit n (signal me), blocked := blocked me OR sa_mask sa,
      sigactions := (if sa_flags sa AND SA_ONESHOT \<noteq> 0 then (sigactions me)(n := sa\<lparr>sa_handler := 0\<rparr>) else sigactions me)\<rparr>) \<and>
    current s' = current s \<and> task s' = task s"
proof -
  note me = me_def and sa = sa_def
  let ?longs = "if sa_flags sa AND SA_NOMASK \<noteq> 0 then 7 else 8 :: u32"
  let ?oneshot = "sa_flags sa AND SA_ONESHOT \<noteq> 0"
  define s0 where "s0 = upd_task (current s) (\<lambda>t. t\<lparr>signal := unset_bit n (signal t)\<rparr>) s"
  define s1 where "s1 = (if ?oneshot then upd_task (current s) (set_action n (sa\<lparr>sa_handler := 0\<rparr>)) s0 else s0)"
  have len: "length words = (if sa_flags sa AND SA_NOMASK \<noteq> 0 then 7 else 8)" by (simp add: words_def signal_frame_def)
  have l: "of_nat (4 * length words) = 4 * ?longs" "unat (?longs * 4) = 4 * length words"
    "length (concat (map long_bytes words)) = 4 * length words" unfolding len by (simp_all add: words_def signal_frame_def)
  have c1: "current s1 = current s" "tstruct s1 = (tstruct s)(current s := me\<lparr>signal := unset_bit n (signal me),
      sigactions := (if ?oneshot then (sigactions me)(n := sa\<lparr>sa_handler := 0\<rparr>) else sigactions me)\<rparr>)"
    "user_ok own s1" "\<And>y. user_page s1 y = user_page s y" "\<And>y. load_byte y s1 = load_byte y s" "task s1 = task s"
    using assms(5) by (simp_all add: s1_def s0_def me set_action_def)
  have db: "data_base s1 = data_base s" by (simp add: c1(1,2) me)
  have d: "do_signal (of_nat (n + 1)) c s0 = Inr (c', s')"
    using assms(18) ret_from_syscall_eq [of s c n] assms(9-15) by (simp add: s0_def me)
  have "sigactions (tstruct s0 (current s0)) (unat (of_nat (n + 1) - 1 :: u32)) = sa"
    unfolding unat_signr [OF assms(12)] by (simp add: s0_def sa me)
  note h = do_signal_handled [OF d this assms(16,17), unfolded unat_signr [OF assms(12)]]
  have "current s0 = current s" by (simp add: s0_def)
  from h [unfolded this, folded s1_def l(1), folded esp_def] obtain s2 s3
    where v: "verify_area esp (?longs * 4) s1 = Inr s2"
    and p: "put_fs_longs (signal_frame sa (of_nat (n + 1)) (blocked (tstruct s2 (current s2))) c) esp s2 = Inr s3"
    and r: "c' = c\<lparr>f_eip := sa_handler sa, f_esp := esp\<rparr>"
      "s' = upd_task (current s3) (\<lambda>t. t\<lparr>blocked := blocked t OR sa_mask sa\<rparr>) s3" by blast
  have b: "unat (data_base s1) + unat esp + unat (?longs * 4) \<le> 4294967296" "0 < unat (?longs * 4)"
      "unat (?longs * 4) < 2147479552" "length (concat (map long_bytes words)) \<le> unat (?longs * 4)"
    using assms(8) unfolding l db by (simp_all add: len)
  note va = verify_area_spec [OF c1(3) v _ _ b(1-3), unfolded db, OF assms(6,7)]
  have cur: "current s2 = current s1" "tstruct s2 = tstruct s1" using va kern_rest(3,4) [of s2 s1] by simp_all
  have "put_fs_bytes (concat (map long_bytes words)) esp s2 = Inr s3"
    using put_fs_longs_bytes [OF p] by (simp add: cur c1(1,2) words_def me)
  from verified_put [OF c1(3) _ _ b(1-3) v b(4) this, unfolded db, OF assms(6,7)]
  have w: "user_ok own s3" "mm.more s3 = mm.more s1"
    "\<forall>k < 4 * length words. load_byte (data_base s + esp + of_nat k) s3 = concat (map long_bytes words) ! k"
    "\<forall>y. user_page s1 y \<and> (\<forall>k < 4 * length words. page_of y \<noteq> page_of (data_base s + esp + of_nat k)) \<longrightarrow>
       load_byte y s3 = load_byte y s1"
    unfolding l by blast+
  note k3 = kern_rest [OF w(2)]
  show ?thesis
    using w r(1) by (simp add: r(2) k3 c1) (simp add: fun_eq_iff)
qed

text \<open>C30: a signal that is delivered. On the way back to the user mode of a task other than
  task 0, the lowest pending signal that is not blocked is delivered to its handler: the
  task goes on at the handler, its user stack holds the restorer, the number of the signal,
  the old mask (unless \<open>SA_NOMASK\<close>) and the saved registers, the signal is no longer pending,
  the action's mask is blocked, and a one-shot handler is reset. Nothing else of the kernel's
  state and no page outside the frame's pages changes.\<close>

theorem signal_delivered:
  fixes s s' :: "'a kern_scheme" and c c' :: frame and n :: nat
  defines "me \<equiv> tstruct s (current s)"
  defines "sa \<equiv> sigactions me n"
  defines "words \<equiv> signal_frame sa (of_nat (n + 1)) (blocked me) c"
  defines "esp \<equiv> f_esp c - of_nat (4 * length words)"
  assumes "user_ok own s" and "page_aligned (data_base s)" and "4 \<le> dir_index (data_base s)"
    and "unat (data_base s) + unat esp + 32 \<le> 4294967296"
    and "current s \<noteq> task s 0" and "(ucast (f_cs c) :: u16) = 0x0f" and "(ucast (f_ss c) :: u16) = 0x17"
    and "n < 32" and "bit (signal me) n" and "\<not> bit (blocked me) n" and "\<forall>m < n. bit (signal me) m \<longrightarrow> bit (blocked me) m"
    and "sa_handler sa \<noteq> 0" and "sa_handler sa \<noteq> 1"
    and "ret_from_syscall c s = Inr (c', s')"
  shows "c' = c\<lparr>f_eip := sa_handler sa, f_esp := esp\<rparr> \<and> user_ok own s' \<and>
    (\<forall>k < 4 * length words. load_byte (data_base s + esp + of_nat k) s' = concat (map long_bytes words) ! k) \<and>
    (\<forall>y. user_page s y \<and> (\<forall>k < 4 * length words. page_of y \<noteq> page_of (data_base s + esp + of_nat k)) \<longrightarrow>
       load_byte y s' = load_byte y s) \<and>
    tstruct s' = (tstruct s)(current s := me\<lparr>signal := unset_bit n (signal me), blocked := blocked me OR sa_mask sa,
      sigactions := (if sa_flags sa AND SA_ONESHOT \<noteq> 0 then (sigactions me)(n := sa\<lparr>sa_handler := 0\<rparr>) else sigactions me)\<rparr>) \<and>
    current s' = current s \<and> task s' = task s"
  unfolding assms(1-4) by (rule signal_delivery [OF assms(5-18) [unfolded assms(1-4)]])

text \<open>A write to present, private pages within the segment does not fail.\<close>

lemma put_fs_bytes_present:
  fixes s :: "'a kern_scheme"
  assumes "user_ok own s" "unat a + length bs \<le> unat (get_limit (ldt (tstruct s (current s)) 2) - 1) + 1"
    and "\<And>k. k < length bs \<Longrightarrow> private_page s (data_base s + a + of_nat k) \<and> walk s (data_base s + a + of_nat k) \<noteq> None"
  shows "\<exists>s'. put_fs_bytes bs a s = Inr s' \<and> user_ok own s' \<and> mm.more s' = mm.more s \<and>
    (\<forall>y. private_page s y \<longrightarrow> private_page s' y) \<and> (\<forall>y. 4 \<le> dir_index y \<longrightarrow> walk s' y = walk s y)"
  using assms
proof (induction bs arbitrary: a s)
  case Nil
  then show ?case by simp
next
  case (Cons b bs)
  let ?x = "data_base s + a"
  have x: "private_page s ?x" "walk s ?x \<noteq> None" using Cons.prems(3) [of 0] by simp_all
  define s1 where "s1 = store_byte ?x b s"
  have p: "put_fs_byte b a s = Inr s1"
    using x(2) Cons.prems(2) by (auto simp: put_fs_byte_def fs_linear_def touch_def s1_def Let_def)
  note sp = store_byte_spec [OF user_okD(1) [OF Cons.prems(1)] x, of b, folded s1_def]
  note w = writesD [OF store_byte_writes [OF Cons.prems(1) x, of b, folded s1_def]]
  note r = kern_rest(3,4) [OF w(2)]
  have a: "unat (a + 1) \<le> unat a + 1"
    by (simp add: unat_word_ariths)
  have "private_page s1 (data_base s1 + (a + 1) + of_nat k) \<and> walk s1 (data_base s1 + (a + 1) + of_nat k) \<noteq> None"
    if "k < length bs" for k
    using Cons.prems(3) [of "Suc k"] that sp w(6) [of "data_base s + (a + 1) + of_nat k"]
    by (auto simp: r private_page_def [of s] algebra_simps)
  then obtain s' where "put_fs_bytes bs (a + 1) s1 = Inr s'" "user_ok own s'" "mm.more s' = mm.more s1"
    "\<forall>y. private_page s1 y \<longrightarrow> private_page s' y" "\<forall>y. 4 \<le> dir_index y \<longrightarrow> walk s' y = walk s1 y"
    using Cons.IH [OF w(1), of "a + 1"] Cons.prems(2) a by (auto simp: r)
  then show ?case using p sp w(2) by (intro exI [of _ s']) simp
qed

lemma put_fs_longs_present:
  fixes s :: "'a kern_scheme"
  assumes "user_ok own s" "unat a + 4 * length ws \<le> unat (get_limit (ldt (tstruct s (current s)) 2) - 1) + 1"
    and "\<And>k. k < 4 * length ws \<Longrightarrow> private_page s (data_base s + a + of_nat k) \<and> walk s (data_base s + a + of_nat k) \<noteq> None"
  shows "\<exists>s'. put_fs_longs ws a s = Inr s'"
  using assms
proof (induction ws arbitrary: a s)
  case (Cons w ws)
  have x: "private_page s (data_base s + a + of_nat k) \<and> walk s (data_base s + a + of_nat k) \<noteq> None"
    if "k < length (long_bytes w)" for k using Cons.prems(3) [of k] that by simp
  obtain s1 where s1: "put_fs_bytes (long_bytes w) a s = Inr s1" "user_ok own s1" "mm.more s1 = mm.more s"
    "\<forall>y. private_page s y \<longrightarrow> private_page s1 y" "\<forall>y. 4 \<le> dir_index y \<longrightarrow> walk s1 y = walk s y"
    using put_fs_bytes_present [of own s a "long_bytes w", OF Cons.prems(1) _ x] Cons.prems(2) by auto
  note r = kern_rest(3,4) [OF s1(3)]
  have p: "put_fs_long w a s = Inr s1" using s1(1) Cons.prems(2) by (simp add: put_fs_long_def fs_linear_def)
  have a: "unat (a + 4) \<le> unat a + 4" by (simp add: unat_word_ariths)
  have "private_page s1 (data_base s1 + (a + 4) + of_nat k) \<and> walk s1 (data_base s1 + (a + 4) + of_nat k) \<noteq> None"
    if "k < 4 * length ws" for k
    using Cons.prems(3) [of "k + 4"] that s1(4,5) by (auto simp: r private_page_def [of s] algebra_simps)
  then have "\<exists>s'. put_fs_longs ws (a + 4) s1 = Inr s'"
    using Cons.IH [OF s1(2), of "a + 4"] Cons.prems(2) a by (auto simp: r)
  then show ?case using p by simp
qed simp

text \<open>Task 1 of \<open>sharers_kern\<close> with a handler for signal 10, which is pending.\<close>

definition signal_kern :: kern where
  "signal_kern = upd_task 0x30000 (\<lambda>t. t\<lparr>signal := 0x200, sigactions := (\<lambda>_. \<lparr>sa_handler = 0, sa_mask = 0, sa_flags = 0,
     sa_restorer = 0\<rparr>)(9 := \<lparr>sa_handler = 0x500, sa_mask = 0x200, sa_flags = 0x80000000, sa_restorer = 0x600\<rparr>)\<rparr>)
     sharers_kern"

definition user_frame :: frame where
  "user_frame = \<lparr>f_eax = 1, f_ebx = 2, f_ecx = 3, f_edx = 4, f_fs = 0x17, f_es = 0x17, f_ds = 0x17, f_eip = 0x123,
     f_cs = 0x0f, f_eflags = 0x202, f_esp = 0x2100, f_ss = 0x17\<rparr>"

lemma signal_kern_simps:
  "current signal_kern = 0x30000" "task signal_kern = task sharers_kern" "data_base signal_kern = 0x4000000"
  "get_limit (ldt (tstruct signal_kern 0x30000) k) = 0xa0000" "signal (tstruct signal_kern 0x30000) = 0x200"
  "blocked (tstruct signal_kern 0x30000) = 0" "walk signal_kern = walk two_sharers"
  "sigactions (tstruct signal_kern 0x30000) 9 = \<lparr>sa_handler = 0x500, sa_mask = 0x200, sa_flags = 0x80000000, sa_restorer = 0x600\<rparr>"
  "get_base (ldt (tstruct signal_kern 0x30000) 2) = 0x4000000"
  using sharers_kern_simps by (simp_all add: signal_kern_def sharers_kern_cong, simp_all add: sharer_task_def blank_task_def)

lemma signal_kern_ok: "user_ok (\<lambda>_. 0) signal_kern"
  using sharers_kern_user_ok by (simp add: signal_kern_def)

text \<open>Its stack page is present and can be written.\<close>

lemma signal_kern_page:
  assumes "k < 4096"
  shows "walk signal_kern (0x4002000 + of_nat k) = Some 0xf01007" "private_page signal_kern (0x4002000 + of_nat k)"
proof -
  have "unat (0x4002000 + of_nat k :: u32) = 67117056 + k" using assms by (simp add: unat_word_ariths unat_of_nat_u32)
  moreover have dv: "(67117056 + k) div 4096 = 16386" "(67117056 + k) div 4194304 = 16"
    by (rule div_nat_eqI; use assms in simp)+
  ultimately have d: "dir_index (0x4002000 + of_nat k) = 16" "tbl_index (0x4002000 + of_nat k) = 2"
    using dv by (simp_all add: dir_index_def tbl_index_def)
  then show w: "walk signal_kern (0x4002000 + of_nat k) = Some 0xf01007"
    by (simp add: signal_kern_simps walk_def entry_two_sharers)
  show "private_page signal_kern (0x4002000 + of_nat k)"
    by (rule user_okD(4) [OF signal_kern_ok _ w]) (simp_all add: d)
qed

lemma bit_0x200: "bit (0x200 :: u32) 9" "\<forall>m < 9. \<not> bit (0x200 :: u32) m"
proof -
  have "(0x200 :: u32) = 2 ^ 9" by simp
  then show "bit (0x200 :: u32) 9" "\<forall>m < 9. \<not> bit (0x200 :: u32) m" by (simp_all only: bit_exp_iff) auto
qed

text \<open>The signal of that task is delivered, in every state of the kernel that agrees on memory and tasks.\<close>

lemma signal_kern_returns:
  fixes s :: "'a kern_scheme" and c :: frame
  assumes "HIGH_MEMORY s = HIGH_MEMORY signal_kern" "mem_map s = mem_map signal_kern" "phys s = phys signal_kern"
    and "current s = current signal_kern" "task s = task signal_kern" "tstruct s = tstruct signal_kern"
    and "f_esp c = 0x2100" "f_cs c = 0x0f" "f_ss c = 0x17"
  shows "\<exists>s'. ret_from_syscall c s = Inr (c\<lparr>f_eip := 0x500, f_esp := 0x20e0\<rparr>, s')"
proof -
  note sk = signal_kern_simps and sm = user_mem_cong [OF assms(1-3)]
  let ?s0 = "upd_task 0x30000 (\<lambda>t. t\<lparr>signal := unset_bit 9 (signal t)\<rparr>) s"
  let ?sa = "\<lparr>sa_handler = 0x500, sa_mask = 0x200, sa_flags = 0x80000000, sa_restorer = 0x600\<rparr>"
  let ?s1 = "upd_task 0x30000 (set_action 9 (?sa\<lparr>sa_handler := 0\<rparr>)) ?s0"
  have fl: "(0x80000000 :: u32) AND SA_ONESHOT \<noteq> 0" "(0x80000000 :: u32) AND SA_NOMASK = 0"
    by (simp_all add: SA_ONESHOT_def SA_NOMASK_def)
  have pg: "private_page s (0x4002000 + of_nat k)" "walk s (0x4002000 + of_nat k) = Some 0xf01007"
    if "k < 4096" for k using signal_kern_page [OF that] by (simp_all add: sm)
  have b: "bit (0x200 :: u32) 9" "\<forall>m < 9. \<not> bit (0x200 :: u32) m" by (rule bit_0x200)+
  have v: "verify_area 0x20e0 32 ?s1 = Inr ?s1"
    using pg(2) [of 0] by (simp add: verify_area_def Let_def sk assms(4,6) verify_pages.simps write_verify_eq word_sless_alt)
  have "\<exists>s'. put_fs_longs (signal_frame ?sa 10 0 c) 0x20e0 ?s1 = Inr s'"
  proof (rule put_fs_longs_present)
    show "user_ok (\<lambda>_. 0) ?s1" using signal_kern_ok by (simp add: sm)
    have l: "length (signal_frame ?sa 10 0 c) = 8" using fl by (simp add: signal_frame_def)
    show "unat (0x20e0 :: u32) + 4 * length (signal_frame ?sa 10 0 c)
        \<le> unat (get_limit (ldt (tstruct ?s1 (current ?s1)) 2) - 1) + 1" unfolding l by (simp add: sk assms(4,6))
    fix k assume "k < 4 * length (signal_frame ?sa 10 0 c)"
    then have "k < 32" unfolding l by simp
    then show "private_page ?s1 (data_base ?s1 + 0x20e0 + of_nat k) \<and> walk ?s1 (data_base ?s1 + 0x20e0 + of_nat k) \<noteq> None"
      using pg [of "0xe0 + k"] by (simp add: sk assms(4,6) algebra_simps)
  qed
  then obtain s3 where p: "put_fs_longs (signal_frame ?sa 10 0 c) 0x20e0 ?s1 = Inr s3" by blast
  have "ret_from_syscall c s = do_signal 10 c ?s0"
    using ret_from_syscall_eq [of s c 9] b by (simp add: sk assms(4-9) sharers_kern_simps)
  moreover have "\<exists>s'. do_signal 10 c ?s0 = Inr (c\<lparr>f_eip := 0x500, f_esp := 0x20e0\<rparr>, s')"
    using v p fl by (simp add: do_signal_def Let_def sk assms(4,6,7))
  ultimately show ?thesis by simp
qed

theorem signal_delivered_witness:
  "\<exists>s'. ret_from_syscall user_frame signal_kern = Inr (user_frame\<lparr>f_eip := 0x500, f_esp := 0x20e0\<rparr>, s') \<and>
     load_byte 0x40020e4 s' = 10 \<and> blocked (tstruct s' 0x30000) = 0x200"
proof -
  note sk = signal_kern_simps
  let ?sa = "\<lparr>sa_handler = 0x500, sa_mask = 0x200, sa_flags = 0x80000000, sa_restorer = 0x600\<rparr>"
  have fl: "(0x80000000 :: u32) AND SA_ONESHOT \<noteq> 0" "(0x80000000 :: u32) AND SA_NOMASK = 0"
    by (simp_all add: SA_ONESHOT_def SA_NOMASK_def)
  note b = bit_0x200
  obtain s' where s': "ret_from_syscall user_frame signal_kern = Inr (user_frame\<lparr>f_eip := 0x500, f_esp := 0x20e0\<rparr>, s')"
    using signal_kern_returns [of signal_kern user_frame] by (auto simp: user_frame_def)
  have f: "signal_frame ?sa 10 0 user_frame = [0x600, 10, 0, 1, 3, 4, 0x202, 0x123]"
    using fl by (simp add: signal_frame_def user_frame_def)
  let ?me = "tstruct signal_kern (current signal_kern)"
  have sa: "sigactions ?me 9 = ?sa" "blocked ?me = 0" "of_nat (9 + 1) = (10 :: u32)" by (simp_all add: sk)
  have esp: "f_esp user_frame - of_nat (4 * length [0x600 :: u32, 10, 0, 1, 3, 4, 0x202, 0x123]) = 0x20e0"
    by (simp add: user_frame_def)
  note D = signal_delivered [where s = signal_kern and c = user_frame and n = 9, OF signal_kern_ok _ _ _ _ _ _ _ _ _ _ _ _ s',
    unfolded sa f esp sk(3)]
  have "load_byte (0x4000000 + 0x20e0 + of_nat 4) s' = concat (map long_bytes [0x600, 10, 0, 1, 3, 4, 0x202, 0x123]) ! 4 \<and>
    tstruct s' = (tstruct signal_kern)(current signal_kern := ?me\<lparr>signal := unset_bit 9 (signal ?me),
      blocked := 0 OR sa_mask ?sa, sigactions := (sigactions ?me)(9 := ?sa\<lparr>sa_handler := 0\<rparr>)\<rparr>)"
  proof -
    have l: "\<forall>k < 4 * length [0x600 :: u32, 10, 0, 1, 3, 4, 0x202, 0x123]. load_byte (0x4000000 + 0x20e0 + of_nat k) s' =
        concat (map long_bytes [0x600, 10, 0, 1, 3, 4, 0x202, 0x123]) ! k"
      and t: "tstruct s' = (tstruct signal_kern)(current signal_kern := ?me\<lparr>signal := unset_bit 9 (signal ?me),
      blocked := 0 OR sa_mask ?sa, sigactions := (if sa_flags ?sa AND SA_ONESHOT \<noteq> 0
        then (sigactions ?me)(9 := ?sa\<lparr>sa_handler := 0\<rparr>) else sigactions ?me)\<rparr>)"
      by (intro D [THEN conjunct2, THEN conjunct2, THEN conjunct1] D [THEN conjunct2, THEN conjunct2, THEN conjunct2, THEN conjunct2, THEN conjunct1];
        use b in \<open>simp add: sk sharers_kern_simps dir_index_def user_frame_def\<close>)+
    show ?thesis using l [THEN spec, of 4] t fl(1) by simp
  qed
  then show ?thesis using s' by (simp add: sk long_bytes_def get_byte_def)
qed

text \<open>C31: a signal without a handler. A signal whose action is the default or "ignore" is
  taken out of the pending set and has no other effect, so a default action kills no task,
  not even that of \<open>SIGKILL\<close>. Without a pending signal that is not blocked, for task 0 and on
  the way back to kernel mode nothing changes.\<close>

theorem signal_without_handler:
  fixes s :: "'a kern_scheme" and c :: frame
  defines "me \<equiv> tstruct s (current s)"
  defines "user \<equiv> current s \<noteq> task s 0 \<and> (ucast (f_cs c) :: u16) = 0x0f \<and> (ucast (f_ss c) :: u16) = 0x17"
  shows "(\<not> user \<or> signal me AND NOT (blocked me) = 0 \<longrightarrow> ret_from_syscall c s = Inr (c, s)) \<and>
    (\<forall>n < 32. user \<and> bit (signal me) n \<and> \<not> bit (blocked me) n \<and> (\<forall>m < n. bit (signal me) m \<longrightarrow> bit (blocked me) m) \<and>
       (sa_handler (sigactions me n) = 0 \<or> sa_handler (sigactions me n) = 1) \<longrightarrow>
     ret_from_syscall c s = Inr (c, upd_task (current s) (\<lambda>t. t\<lparr>signal := unset_bit n (signal t)\<rparr>) s))"
proof (intro conjI allI impI)
  assume a: "\<not> user \<or> signal me AND NOT (blocked me) = 0"
  have "bsf (NOT (blocked me) AND signal me) = None" if "signal me AND NOT (blocked me) = 0"
    using that by (simp add: bsf_None and.commute)
  with a show "ret_from_syscall c s = Inr (c, s)"
    by (auto simp: ret_from_syscall_def Let_def user_def me_def)
next
  fix n :: nat assume n: "n < 32" and a: "user \<and> bit (signal me) n \<and> \<not> bit (blocked me) n \<and>
      (\<forall>m < n. bit (signal me) m \<longrightarrow> bit (blocked me) m) \<and> (sa_handler (sigactions me n) = 0 \<or> sa_handler (sigactions me n) = 1)"
  let ?s = "upd_task (current s) (\<lambda>t. t\<lparr>signal := unset_bit n (signal t)\<rparr>) s"
  have "ret_from_syscall c s = do_signal (of_nat (n + 1)) c ?s"
    by (rule ret_from_syscall_eq) (use a n in \<open>simp_all add: user_def me_def\<close>)
  also have "\<dots> = Inr (c, ?s)"
    unfolding do_signal_def Let_def unat_signr [OF n] using a by (auto simp: me_def)
  finally show "ret_from_syscall c s = Inr (c, ?s)" .
qed

theorem signal_without_handler_witness:
  "ret_from_syscall user_frame (upd_task 0x30000 (\<lambda>t. t\<lparr>signal := sigbit SIGKILL\<rparr>) sharers_kern) =
     Inr (user_frame, upd_task 0x30000 (\<lambda>t. t\<lparr>signal := unset_bit 8 (sigbit SIGKILL)\<rparr>) sharers_kern)"
proof -
  let ?s = "upd_task 0x30000 (\<lambda>t. t\<lparr>signal := sigbit SIGKILL\<rparr>) sharers_kern"
  have k: "sigbit SIGKILL = 2 ^ 8" by (simp add: sigbit_def SIGKILL_def)
  have b: "bit (sigbit SIGKILL) m \<longleftrightarrow> m = 8" for m by (simp only: k bit_exp_iff) auto
  have t: "tstruct ?s (current ?s) = sharer_task\<lparr>signal := sigbit SIGKILL\<rparr>" "current ?s \<noteq> task ?s 0"
    by (simp_all add: sharers_kern_simps)
  have a: "sa_handler (sigactions sharer_task 8) = 0" "blocked sharer_task = 0"
    by (simp_all add: sharer_task_def blank_task_def)
  have u: "(ucast (f_cs user_frame) :: u16) = 0x0f" "(ucast (f_ss user_frame) :: u16) = 0x17"
    by (simp_all add: user_frame_def)
  have "ret_from_syscall user_frame ?s =
      Inr (user_frame, upd_task (current ?s) (\<lambda>t. t\<lparr>signal := unset_bit 8 (signal t)\<rparr>) ?s)"
    by (rule conjunct2 [OF signal_without_handler, THEN spec, of 8, THEN mp, THEN mp]) (use b t a u in simp_all)
  then show ?thesis by (simp add: sharers_kern_simps upd_task_def)
qed

section \<open>Installing an action\<close>

text \<open>C32: installing an action. \<open>sys_sigaction\<close> reads the 16 bytes of the new action from the
  task's memory, and stores it with its own signal added to the mask, or with an empty mask
  under \<open>SA_NOMASK\<close>. The action it replaces is what the task reads at \<open>old_action\<close> when it
  takes the 16 bytes there as an action again.\<close>

theorem sigaction_roundtrip:
  fixes s s' :: "'a kern_scheme" and signum action old_action :: u32
  defines "me \<equiv> tstruct s (current s)"
  defines "i \<equiv> unat (signum - 1)"
  defines "new \<equiv> sigaction_of (map (\<lambda>k. load_byte (data_base s + action + of_nat k) s) [0..<16])"
  assumes "user_ok own s" and "page_aligned (data_base s)" and "4 \<le> dir_index (data_base s)"
    and "\<forall>k < 16. user_page s (data_base s + action + of_nat k)" and "\<not> bad_signum signum"
    and "old_action \<noteq> 0" and "unat (data_base s) + unat old_action + 16 \<le> 4294967296"
    and "sys_sigaction signum action old_action s = Inr (r, s')"
  shows "r = 0 \<and> user_ok own s' \<and> current s' = current s \<and> task s' = task s \<and>
    tstruct s' = (tstruct s)(current s := set_action i (new\<lparr>sa_mask :=
      if sa_flags new AND SA_NOMASK \<noteq> 0 then 0 else sa_mask new OR push_bit i 1\<rparr>) me) \<and>
    sigaction_of (map (\<lambda>k. load_byte (data_base s + old_action + of_nat k) s') [0..<16]) = sigactions me i \<and>
    (\<forall>y. user_page s y \<and> (\<forall>k < 16. page_of y \<noteq> page_of (data_base s + old_action + of_nat k)) \<longrightarrow>
       load_byte y s' = load_byte y s)"
proof -
  obtain bs s1 s2 s3 where g: "get_fs_bytes 16 action s = Inr (bs, s1)"
    and s2: "s2 = upd_task (current s1) (set_action i (sigaction_of bs)) s1"
    and v: "save_old (sigactions me i) old_action s2 = Inr s3"
    and r: "r = 0" "s' = upd_task (current s3) (\<lambda>t. let a = sigactions t i in
            set_action i (a\<lparr>sa_mask := if sa_flags a AND SA_NOMASK \<noteq> 0 then 0
              else sa_mask a OR push_bit i 1\<rparr>) t) s3"
    using assms(8,9,11) by (auto simp: sys_sigaction_def Let_def get_new_def kbind_Inr_iff i_def me_def)
  have up: "user_page s (data_base s + action + of_nat k)" if "k < 16" for k using assms(7) that by simp
  have rd: "writes own s (\<lambda>y. load_byte y s) s1 \<and>
      bs = map (\<lambda>k. load_byte (data_base s + action + of_nat k) s) [0..<16]"
    by (rule get_fs_bytes_reads [OF assms(4) up g])
  note w1 = writesD [OF conjunct1 [OF rd]]
  note k1 = kern_rest [OF w1(2)]
  have t2: "tstruct s2 = (tstruct s)(current s := set_action i (sigaction_of bs) me)" "current s2 = current s"
    "task s2 = task s" "user_ok own s2" by (simp_all add: s2 k1 w1(1) me_def)
  have db: "data_base s2 = data_base s" by (simp add: t2(1,2) me_def)
  obtain u where u: "verify_area old_action 16 s2 = Inr u" "put_fs_bytes (sigaction_bytes (sigactions me i)) old_action u = Inr s3"
    using v by (auto simp: save_old_def kbind_Inr_iff)
  have sz: "0 < unat (16 :: u32)" "unat (16 :: u32) < 2147479552" "unat (data_base s2) + unat old_action + unat (16 :: u32) \<le> 4294967296"
    "length (sigaction_bytes (sigactions me i)) \<le> unat (16 :: u32)" using assms(10) by (simp_all add: db)
  note vp = verified_put [OF t2(4) _ _ sz(3,1,2) u(1) sz(4) u(2), unfolded db, OF assms(5,6)]
  have k3: "tstruct s3 = tstruct s2" "current s3 = current s2" "task s3 = task s2"
    using vp kern_rest(2,3,4) [of s3 s2] by simp_all
  have n: "sigaction_of bs = new" using rd by (simp add: new_def)
  have "map (\<lambda>k. load_byte (data_base s + old_action + of_nat k) s') [0..<16] = sigaction_bytes (sigactions me i)"
    using vp by (intro nth_equalityI) (simp_all add: r(2))
  then have "sigaction_of (map (\<lambda>k. load_byte (data_base s + old_action + of_nat k) s') [0..<16]) = sigactions me i" by simp
  moreover have "load_byte y s' = load_byte y s" if "user_page s y"
    "\<forall>k < 16. page_of y \<noteq> page_of (data_base s + old_action + of_nat k)" for y
    using vp w1(4,5) [OF that(1)] that(2) by (simp add: r(2) s2)
  moreover have "tstruct s' = (tstruct s)(current s := set_action i (new\<lparr>sa_mask :=
      if sa_flags new AND SA_NOMASK \<noteq> 0 then 0 else sa_mask new OR push_bit i 1\<rparr>) me)"
    by (simp add: r(2) k3 t2 n Let_def) (simp add: set_action_def)
  ultimately show ?thesis using vp by (simp add: r k3 t2)
qed

lemma get_fs_bytes_present:
  fixes s :: "'a kern_scheme"
  assumes "unat a + n \<le> unat (get_limit (ldt (tstruct s (current s)) 2) - 1) + 1"
    and "\<And>k. k < n \<Longrightarrow> walk s (data_base s + a + of_nat k) \<noteq> None"
  shows "\<exists>bs. get_fs_bytes n a s = Inr (bs, s)"
  using assms
proof (induction n arbitrary: a)
  case (Suc n)
  have g: "get_fs_byte a s = Inr (load_byte (data_base s + a) s, s)"
    using Suc.prems(1) Suc.prems(2) [of 0] by (auto simp: get_fs_byte_def fs_linear_def touch_def Let_def)
  have "unat (a + 1) \<le> unat a + 1" by (simp add: unat_word_ariths)
  moreover have "walk s (data_base s + (a + 1) + of_nat k) \<noteq> None" if "k < n" for k
    using Suc.prems(2) [of "Suc k"] that by (simp add: algebra_simps)
  ultimately obtain bs where "get_fs_bytes n (a + 1) s = Inr (bs, s)" using Suc.IH [of "a + 1"] Suc.prems(1) by auto
  with g show ?case by simp
qed simp

theorem sigaction_roundtrip_witness:
  "\<exists>s'. sys_sigaction 10 0x2000 0x2100 signal_kern = Inr (0, s') \<and>
     sigaction_of (map (\<lambda>k. load_byte (0x4000000 + 0x2100 + of_nat k) s') [0..<16]) =
       \<lparr>sa_handler = 0x500, sa_mask = 0x200, sa_flags = 0x80000000, sa_restorer = 0x600\<rparr>"
proof -
  note sk = signal_kern_simps
  let ?sa = "\<lparr>sa_handler = 0x500, sa_mask = 0x200, sa_flags = 0x80000000, sa_restorer = 0x600\<rparr>"
  have bad: "\<not> bad_signum 10" by (simp add: bad_signum_def SIGKILL_def word_sless_alt)
  have pg: "walk signal_kern (0x4002000 + of_nat k) = Some 0xf01007" "private_page signal_kern (0x4002000 + of_nat k)"
    "user_page signal_kern (0x4002000 + of_nat k)" if "k < 4096" for k
    using signal_kern_page [OF that] private_user_page [OF user_okD(1) [OF signal_kern_ok]] by simp_all
  obtain bs where g: "get_fs_bytes 16 0x2000 signal_kern = Inr (bs, signal_kern)"
    using get_fs_bytes_present [of "0x2000" 16 signal_kern] pg(1) by (auto simp: sk)
  define s2 where "s2 = upd_task 0x30000 (set_action 9 (sigaction_of bs)) signal_kern"
  have k2: "data_base s2 = 0x4000000" "current s2 = 0x30000" "walk s2 = walk signal_kern" "user_ok (\<lambda>_. 0) s2"
    "get_limit (ldt (tstruct s2 0x30000) 2) = 0xa0000" "get_base (ldt (tstruct s2 0x30000) 2) = 0x4000000"
    "\<And>y. private_page s2 y = private_page signal_kern y"
    using signal_kern_ok by (simp_all add: s2_def sk)
  have v: "verify_area 0x2100 16 s2 = Inr s2"
    using pg(1) [of 0] by (simp add: verify_area_def Let_def k2 verify_pages.simps write_verify_eq word_sless_alt)
  have "private_page s2 (0x4000000 + 0x2100 + of_nat k) \<and> walk s2 (0x4000000 + 0x2100 + of_nat k) \<noteq> None" if "k < 16" for k
    using pg [of "0x100 + k"] that by (simp add: k2 algebra_simps)
  then obtain s3 where p: "put_fs_bytes (sigaction_bytes ?sa) 0x2100 s2 = Inr s3"
    using put_fs_bytes_present [OF k2(4), of "0x2100" "sigaction_bytes ?sa"] by (auto simp: k2)
  have "\<exists>s'. sys_sigaction 10 0x2000 0x2100 signal_kern = Inr (0, s')"
    using bad g v p by (simp add: sys_sigaction_def Let_def get_new_def save_old_def sk s2_def [symmetric])
  then obtain s' where s': "sys_sigaction 10 0x2000 0x2100 signal_kern = Inr (0, s')" ..
  have "sigaction_of (map (\<lambda>k. load_byte (data_base signal_kern + 0x2100 + of_nat k) s') [0..<16]) =
      sigactions (tstruct signal_kern (current signal_kern)) (unat (10 - 1 :: u32))"
    by (rule sigaction_roundtrip [OF signal_kern_ok _ _ _ bad _ _ s', THEN conjunct2, THEN conjunct2, THEN conjunct2,
        THEN conjunct2, THEN conjunct2, THEN conjunct1])
       (use pg(3) in \<open>auto simp: sk dir_index_def\<close>)
  with s' show ?thesis by (simp add: sk)
qed

end
