(* ===== verification/Tty_Queue.thy ===== *)
theory Tty_Queue
  imports Prelude
begin

text \<open>
  The character queues of the terminal (kernel/chr_drv/tty_queue.c): a ring of 1024 bytes
  between two indices, with one byte always left unused. \<open>tty_queue_stat\<close> only prints. The
  field \<open>wait_proc\<close> is the address of the wait-queue variable in the structure, as the code
  passes it to \<open>interruptible_sleep_on\<close> and \<open>wake_up\<close>; the variable itself is a \<open>cell\<close> of the
  kernel.
\<close>

section \<open>Operations\<close>

record tty_queue =
  buf :: "u8 list"
  wait_proc :: u32
  head :: u32
  tail :: u32

definition TTY_BUF_SIZE :: u32 where
  "TTY_BUF_SIZE = 1024"

definition tty_isempty_q :: "tty_queue \<Rightarrow> bool" where
  "tty_isempty_q q \<longleftrightarrow> head q = tail q"

definition tty_isfull_q :: "tty_queue \<Rightarrow> bool" where
  "tty_isfull_q q \<longleftrightarrow> (tail q + 1) mod TTY_BUF_SIZE = head q"

text \<open>\<open>tty_pop_q\<close> after its call of \<open>sleep_if_empty\<close>.\<close>

definition take_char :: "tty_queue \<Rightarrow> u8 \<times> tty_queue" where
  "take_char q = (buf q ! unat (head q), q\<lparr>head := (head q + 1) mod TTY_BUF_SIZE\<rparr>)"

definition tty_push_q :: "tty_queue \<Rightarrow> u8 \<Rightarrow> u32 \<times> tty_queue" where
  "tty_push_q q ch =
     (if tty_isfull_q q then (-1, q)
      else (0, q\<lparr>buf := (buf q)[unat (tail q) := ch], tail := (tail q + 1) mod TTY_BUF_SIZE\<rparr>))"

definition tty_push_q_front :: "tty_queue \<Rightarrow> u8 \<Rightarrow> u32 \<times> tty_queue" where
  "tty_push_q_front q ch =
     (if tty_isfull_q q then (-1, q)
      else
        let h = (head q - 1) mod TTY_BUF_SIZE in
        (0, q\<lparr>buf := (buf q)[unat h := ch], head := h\<rparr>))"

definition tty_queue_head :: "tty_queue \<Rightarrow> u8" where
  "tty_queue_head q = buf q ! unat (head q)"

definition tty_queue_tail :: "tty_queue \<Rightarrow> u8" where
  "tty_queue_tail q = buf q ! unat (tail q)"

section \<open>The queue as a bounded sequence\<close>

text \<open>
  What the terminal relies on: a sequence of characters of bounded length, with a push at
  the end, a pop at the front and a push back at the front.
\<close>

locale fifo =
  fixes ok :: "'q \<Rightarrow> bool" and items :: "'q \<Rightarrow> 'e list" and capacity :: nat
    and is_empty :: "'q \<Rightarrow> bool" and is_full :: "'q \<Rightarrow> bool"
    and push :: "'q \<Rightarrow> 'e \<Rightarrow> u32 \<times> 'q" and push_front :: "'q \<Rightarrow> 'e \<Rightarrow> u32 \<times> 'q" and pop :: "'q \<Rightarrow> 'e \<times> 'q"
  assumes bounded: "ok q \<Longrightarrow> length (items q) \<le> capacity"
    and empty: "ok q \<Longrightarrow> is_empty q \<longleftrightarrow> items q = []"
    and full: "ok q \<Longrightarrow> is_full q \<longleftrightarrow> length (items q) = capacity"
    and push_full: "is_full q \<Longrightarrow> push q x = (-1, q)"
    and push: "ok q \<Longrightarrow> \<not> is_full q \<Longrightarrow>
      fst (push q x) = 0 \<and> ok (snd (push q x)) \<and> items (snd (push q x)) = items q @ [x]"
    and push_front_full: "is_full q \<Longrightarrow> push_front q x = (-1, q)"
    and push_front: "ok q \<Longrightarrow> \<not> is_full q \<Longrightarrow>
      fst (push_front q x) = 0 \<and> ok (snd (push_front q x)) \<and> items (snd (push_front q x)) = x # items q"
    and pop: "ok q \<Longrightarrow> items q = x # xs \<Longrightarrow> fst (pop q) = x \<and> ok (snd (pop q)) \<and> items (snd (pop q)) = xs"
begin

lemma push_step: "ok q \<Longrightarrow> ok (snd (push q x)) \<and>
    items (snd (push q x)) = (if length (items q) < capacity then items q @ [x] else items q)"
  using push [of q x] push_full [of q x] full [of q] bounded [of q] by (cases "is_full q") auto

text \<open>A sequence of pushes keeps what fits and drops the rest.\<close>

lemma push_all:
  "ok q \<Longrightarrow> ok (fold (\<lambda>x q. snd (push q x)) xs q) \<and>
     items (fold (\<lambda>x q. snd (push q x)) xs q) = items q @ take (capacity - length (items q)) xs"
proof (induction xs arbitrary: q)
  case (Cons x xs)
  note st = push_step [OF Cons.prems, of x]
  show ?case
  proof (cases "length (items q) < capacity")
    case True
    then have "capacity - length (items q) = Suc (capacity - Suc (length (items q)))" by simp
    then show ?thesis using Cons.IH [of "snd (push q x)"] st True by simp
  next
    case False
    then show ?thesis using Cons.IH [of "snd (push q x)"] st by simp
  qed
qed simp

text \<open>Characters that are put back at the front, the last one first, come out again in order.\<close>

lemma push_back:
  "ok q \<Longrightarrow> length xs + length (items q) \<le> capacity \<Longrightarrow>
     ok (fold (\<lambda>x q. snd (push_front q x)) (rev xs) q) \<and>
     items (fold (\<lambda>x q. snd (push_front q x)) (rev xs) q) = xs @ items q"
proof (induction xs)
  case (Cons x xs)
  let ?q = "fold (\<lambda>x q. snd (push_front q x)) (rev xs) q"
  have IH: "ok ?q" "items ?q = xs @ items q" using Cons by simp_all
  then have "\<not> is_full ?q" using Cons.prems(2) full [of ?q] by simp
  then show ?case using push_front [OF IH(1), of x] IH(2) by simp
qed simp

end

section \<open>The ring is such a sequence\<close>

definition queue_ok :: "tty_queue \<Rightarrow> bool" where
  "queue_ok q \<longleftrightarrow> length (buf q) = 1024 \<and> unat (head q) < 1024 \<and> unat (tail q) < 1024"

definition used :: "tty_queue \<Rightarrow> nat" where
  "used q = (unat (tail q) + 1024 - unat (head q)) mod 1024"

definition chars :: "tty_queue \<Rightarrow> u8 list" where
  "chars q = map (\<lambda>i. buf q ! ((unat (head q) + i) mod 1024)) [0..<used q]"

lemma unat_next: "unat x < 1024 \<Longrightarrow> unat ((x + 1) mod TTY_BUF_SIZE) = (unat x + 1) mod 1024"
  by (simp add: TTY_BUF_SIZE_def unat_mod unat_word_ariths)

lemma unat_prev: "unat x < 1024 \<Longrightarrow> unat ((x - 1) mod TTY_BUF_SIZE) = (unat x + 1023) mod 1024"
proof (cases "x = 0")
  case False
  assume "unat x < 1024"
  moreover have "unat (x - 1) = unat x - 1" "0 < unat x"
    using False by (simp_all add: unat_minus_one unat_gt_0)
  ultimately show ?thesis by (simp add: TTY_BUF_SIZE_def unat_mod mod_if)
qed (simp add: TTY_BUF_SIZE_def)

lemma ring_size: "h < 1024 \<Longrightarrow> t < 1024 \<Longrightarrow> (t + 1024 - h) mod 1024 = (if h \<le> t then t - h else t + 1024 - h :: nat)"
  by (auto simp: mod_if)

lemma ring_step: "t < 1024 \<Longrightarrow> (t + 1) mod 1024 = (if t = 1023 then 0 else t + 1 :: nat)"
  "t < 1024 \<Longrightarrow> (t + 1023) mod 1024 = (if t = 0 then 1023 else t - 1 :: nat)"
  by (auto simp: mod_if)

text \<open>How the number of characters changes with the indices.\<close>

lemma ring_moves:
  assumes "h < 1024" "t < 1024"
  defines "n \<equiv> (t + 1024 - h) mod 1024 :: nat"
  shows "n \<noteq> 1023 \<Longrightarrow> ((t + 1) mod 1024 + 1024 - h) mod 1024 = Suc n"
    "n \<noteq> 1023 \<Longrightarrow> (t + 1024 - (h + 1023) mod 1024) mod 1024 = Suc n"
    "n \<noteq> 0 \<Longrightarrow> n = Suc ((t + 1024 - (h + 1) mod 1024) mod 1024)"
    "n \<noteq> 0 \<Longrightarrow> n = Suc (((t + 1023) mod 1024 + 1024 - h) mod 1024)"
proof -
  have r: "n = (if h \<le> t then t - h else t + 1024 - h)" unfolding n_def by (rule ring_size [OF assms(1,2)])
  have b: "(t + 1) mod 1024 < 1024" "(h + 1023) mod 1024 < 1024" "(h + 1) mod 1024 < 1024" "(t + 1023) mod 1024 < 1024" by simp_all
  note e = ring_step [OF assms(1)] ring_step [OF assms(2)]
  show "n \<noteq> 1023 \<Longrightarrow> ((t + 1) mod 1024 + 1024 - h) mod 1024 = Suc n"
    unfolding ring_size [OF assms(1) b(1)] unfolding e r using assms(1,2) by (auto split: if_splits)
  show "n \<noteq> 1023 \<Longrightarrow> (t + 1024 - (h + 1023) mod 1024) mod 1024 = Suc n"
    unfolding ring_size [OF b(2) assms(2)] unfolding e r using assms(1,2) by (auto split: if_splits)
  show "n \<noteq> 0 \<Longrightarrow> n = Suc ((t + 1024 - (h + 1) mod 1024) mod 1024)"
    unfolding ring_size [OF b(3) assms(2)] unfolding e r using assms(1,2) by (auto split: if_splits)
  show "n \<noteq> 0 \<Longrightarrow> n = Suc (((t + 1023) mod 1024 + 1024 - h) mod 1024)"
    unfolding ring_size [OF assms(1) b(4)] unfolding e r using assms(1,2) by (auto split: if_splits)
qed

lemma ring_end: "h < 1024 \<Longrightarrow> t < 1024 \<Longrightarrow> (h + (t + 1024 - h) mod 1024) mod 1024 = (t :: nat)"
  by (simp add: ring_size)

lemma ring_distinct: "h < 1024 \<Longrightarrow> i < 1024 \<Longrightarrow> j < 1024 \<Longrightarrow> (h + i) mod 1024 = (h + j) mod 1024 \<Longrightarrow> i = (j :: nat)"
  by (auto simp: mod_if split: if_splits)

lemma used_less: "used q < 1024"
  by (simp add: used_def)

lemma used_full: "queue_ok q \<Longrightarrow> tty_isfull_q q \<longleftrightarrow> used q = 1023"
  by (auto simp: tty_isfull_q_def queue_ok_def used_def word_unat_eq_iff unat_next mod_if)

lemma used_empty: "queue_ok q \<Longrightarrow> tty_isempty_q q \<longleftrightarrow> used q = 0"
  by (auto simp: tty_isempty_q_def queue_ok_def used_def word_unat_eq_iff mod_if)

lemma length_chars [simp]: "length (chars q) = used q"
  by (simp add: chars_def)

lemma chars_push:
  assumes "queue_ok q" "\<not> tty_isfull_q q"
  shows "fst (tty_push_q q x) = 0 \<and> queue_ok (snd (tty_push_q q x)) \<and> chars (snd (tty_push_q q x)) = chars q @ [x]"
proof -
  let ?q = "snd (tty_push_q q x)" and ?h = "unat (head q)" and ?t = "unat (tail q)"
  have b: "length (buf q) = 1024" "?h < 1024" "?t < 1024" using assms(1) by (simp_all add: queue_ok_def)
  have n: "used q < 1023" using used_full [OF assms(1)] assms(2) used_less [of q] by simp
  have q: "buf ?q = (buf q)[?t := x]" "head ?q = head q" "unat (tail ?q) = (?t + 1) mod 1024"
    using assms(2) unat_next [OF b(3)] by (simp_all add: tty_push_q_def)
  have u: "used ?q = Suc (used q)"
    using n ring_moves(1) [OF b(2,3)] unfolding used_def q by simp
  have e: "(?h + used q) mod 1024 = ?t" unfolding used_def by (rule ring_end [OF b(2,3)])
  have ne: "(?h + i) mod 1024 \<noteq> ?t" if "i < used q" for i
    using ring_distinct [OF b(2), of i "used q"] e n that by auto
  have "chars ?q = map (\<lambda>i. buf ?q ! ((?h + i) mod 1024)) [0..<used q] @ [buf ?q ! ((?h + used q) mod 1024)]"
    unfolding chars_def u q(2) by simp
  also have "\<dots> = chars q @ [x]" using e ne [THEN not_sym] b(1,3) by (simp add: q(1) chars_def)
  finally have "chars ?q = chars q @ [x]" .
  moreover have "queue_ok ?q" "fst (tty_push_q q x) = 0"
    using assms(2) b unat_next [OF b(3)] by (simp_all add: queue_ok_def tty_push_q_def)
  ultimately show ?thesis by simp
qed

lemma chars_push_front:
  assumes "queue_ok q" "\<not> tty_isfull_q q"
  shows "fst (tty_push_q_front q x) = 0 \<and> queue_ok (snd (tty_push_q_front q x)) \<and> chars (snd (tty_push_q_front q x)) = x # chars q"
proof -
  let ?q = "snd (tty_push_q_front q x)" and ?h = "unat (head q)" and ?t = "unat (tail q)"
  have b: "length (buf q) = 1024" "?h < 1024" "?t < 1024" using assms(1) by (simp_all add: queue_ok_def)
  have n: "used q < 1023" using used_full [OF assms(1)] assms(2) used_less [of q] by simp
  have q: "buf ?q = (buf q)[(?h + 1023) mod 1024 := x]" "tail ?q = tail q" "unat (head ?q) = (?h + 1023) mod 1024"
    using assms(2) unat_prev [OF b(2)] by (simp_all add: tty_push_q_front_def Let_def)
  have u: "used ?q = Suc (used q)"
    using n ring_moves(2) [OF b(2,3)] unfolding used_def q by simp
  have i: "((?h + 1023) mod 1024 + Suc i) mod 1024 = (?h + i) mod 1024" for i
  proof -
    have "((?h + 1023) mod 1024 + Suc i) mod 1024 = (?h + 1023 + Suc i) mod 1024" by (rule mod_add_left_eq)
    also have "\<dots> = (?h + i + 1024) mod 1024" by (simp add: algebra_simps)
    finally show ?thesis by simp
  qed
  have ne: "(?h + i) mod 1024 \<noteq> (?h + 1023) mod 1024" if "i < used q" for i
    using ring_distinct [OF b(2), of i 1023] n that by auto
  have "chars ?q = map (\<lambda>i. buf ?q ! (((?h + 1023) mod 1024 + i) mod 1024)) (0 # map Suc [0..<used q])"
    unfolding chars_def u q(3) by (simp only: upt_conv_Cons map_Suc_upt zero_less_Suc)
  also have "\<dots> = x # map (\<lambda>j. buf ?q ! ((?h + j) mod 1024)) [0..<used q]"
    using b(1) by (simp add: q(1) i [unfolded add_Suc_right] del: upt_Suc)
  also have "\<dots> = x # chars q" using ne [THEN not_sym] b(1) by (simp add: q(1) chars_def)
  finally have "chars ?q = x # chars q" .
  moreover have "queue_ok ?q" "fst (tty_push_q_front q x) = 0"
    using assms(2) b unat_prev [OF b(2)] by (simp_all add: queue_ok_def tty_push_q_front_def Let_def)
  ultimately show ?thesis by simp
qed

lemma chars_take:
  assumes "queue_ok q" "chars q = x # xs"
  shows "fst (take_char q) = x \<and> queue_ok (snd (take_char q)) \<and> chars (snd (take_char q)) = xs"
proof -
  let ?q = "snd (take_char q)" and ?h = "unat (head q)" and ?t = "unat (tail q)"
  have b: "length (buf q) = 1024" "?h < 1024" "?t < 1024" using assms(1) by (simp_all add: queue_ok_def)
  obtain n where n: "used q = Suc n" using assms(2) length_chars [of q] by (cases "used q") auto
  have q: "buf ?q = buf q" "tail ?q = tail q" "unat (head ?q) = (?h + 1) mod 1024"
    using unat_next [OF b(2)] by (simp_all add: take_char_def)
  have u: "used ?q = n"
    using n ring_moves(3) [OF b(2,3)] unfolding used_def q by simp
  have "chars q = map (\<lambda>i. buf q ! ((?h + i) mod 1024)) (0 # map Suc [0..<n])"
    unfolding chars_def n by (simp only: upt_conv_Cons map_Suc_upt zero_less_Suc)
  also have "\<dots> = buf q ! ?h # map (\<lambda>i. buf q ! (((?h + 1) mod 1024 + i) mod 1024)) [0..<n]"
    using b(2) by (simp add: mod_add_left_eq del: upt_Suc)
  also have "\<dots> = fst (take_char q) # chars ?q" by (simp add: chars_def u q) (simp add: take_char_def)
  finally have "fst (take_char q) = x \<and> chars ?q = xs" using assms(2) by simp
  moreover have "queue_ok ?q" using b unat_next [OF b(2)] by (simp add: queue_ok_def take_char_def)
  ultimately show ?thesis by simp
qed

text \<open>The last character is taken back by moving the tail.\<close>

lemma chars_untail:
  assumes "queue_ok q" "chars q \<noteq> []"
  defines "q' \<equiv> q\<lparr>tail := (tail q - 1) mod TTY_BUF_SIZE\<rparr>"
  shows "queue_ok q' \<and> chars q' = butlast (chars q)"
proof -
  let ?h = "unat (head q)" and ?t = "unat (tail q)"
  have b: "length (buf q) = 1024" "?h < 1024" "?t < 1024" using assms(1) by (simp_all add: queue_ok_def)
  have q: "buf q' = buf q" "head q' = head q" "unat (tail q') = (?t + 1023) mod 1024"
    using unat_prev [OF b(3)] by (simp_all add: q'_def)
  have n: "used q \<noteq> 0" using assms(2) length_chars [of q] by (metis length_0_conv)
  then have u: "used q = Suc (used q')"
    using ring_moves(4) [OF b(2,3)] unfolding used_def q by simp
  have "chars q' = butlast (chars q)" unfolding chars_def u by (simp add: q butlast_append)
  then show ?thesis using b q(3) by (simp add: queue_ok_def q(1,2))
qed

interpretation ring: fifo queue_ok chars 1023 tty_isempty_q tty_isfull_q tty_push_q tty_push_q_front take_char
proof unfold_locales
  fix q :: tty_queue and x :: u8 and xs :: "u8 list"
  show "queue_ok q \<Longrightarrow> length (chars q) \<le> 1023" using used_less [of q] by simp
  show "queue_ok q \<Longrightarrow> tty_isempty_q q = (chars q = [])"
    using used_empty [of q] length_chars [of q] by (metis length_0_conv)
  show "queue_ok q \<Longrightarrow> tty_isfull_q q = (length (chars q) = 1023)" by (simp add: used_full)
  show "tty_isfull_q q \<Longrightarrow> tty_push_q q x = (- 1, q)" by (simp add: tty_push_q_def)
  show "tty_isfull_q q \<Longrightarrow> tty_push_q_front q x = (- 1, q)" by (simp add: tty_push_q_front_def)
qed (rule chars_push chars_push_front chars_take; assumption)+

text \<open>C33: the queue of a terminal is a bounded sequence. Its indices stay within the ring,
  and its operations are those of a sequence of at most 1023 characters: a push appends or
  is refused with -1 and no change when 1023 characters wait, a push to the front puts a
  character before the others, also across the start of the array, and a pop takes the first.\<close>

theorem queue_refines_sequence:
  assumes "queue_ok q"
  shows "length (chars q) \<le> 1023 \<and> (tty_isempty_q q \<longleftrightarrow> chars q = []) \<and> (tty_isfull_q q \<longleftrightarrow> length (chars q) = 1023) \<and>
    (length (chars q) = 1023 \<longrightarrow> tty_push_q q x = (-1, q) \<and> tty_push_q_front q x = (-1, q)) \<and>
    (length (chars q) < 1023 \<longrightarrow>
      (\<exists>q'. tty_push_q q x = (0, q') \<and> queue_ok q' \<and> chars q' = chars q @ [x]) \<and>
      (\<exists>q'. tty_push_q_front q x = (0, q') \<and> queue_ok q' \<and> chars q' = x # chars q)) \<and>
    (\<forall>y ys. chars q = y # ys \<longrightarrow> tty_queue_head q = y \<and> (\<exists>q'. take_char q = (y, q') \<and> queue_ok q' \<and> chars q' = ys))"
proof -
  note r = ring.bounded [OF assms] ring.empty [OF assms] ring.full [OF assms]
  have "tty_push_q q x = (-1, q) \<and> tty_push_q_front q x = (-1, q)" if "length (chars q) = 1023"
    using that r(3) ring.push_full ring.push_front_full by blast
  moreover have "\<exists>q'. tty_push_q q x = (0, q') \<and> queue_ok q' \<and> chars q' = chars q @ [x]" if "length (chars q) < 1023"
    using ring.push [OF assms, of x] r(3) that by (cases "tty_push_q q x") auto
  moreover have "\<exists>q'. tty_push_q_front q x = (0, q') \<and> queue_ok q' \<and> chars q' = x # chars q" if "length (chars q) < 1023"
    using ring.push_front [OF assms, of x] r(3) that by (cases "tty_push_q_front q x") auto
  moreover have "tty_queue_head q = y \<and> (\<exists>q'. take_char q = (y, q') \<and> queue_ok q' \<and> chars q' = ys)"
    if "chars q = y # ys" for y ys
  proof -
    have "tty_queue_head q = fst (take_char q)" by (simp add: tty_queue_head_def take_char_def)
    then show ?thesis using ring.pop [OF assms that] by (cases "take_char q") auto
  qed
  ultimately show ?thesis using r by blast
qed

theorem queue_refines_sequence_witness:
  "let q = \<lparr>buf = replicate 1024 65, wait_proc = 0, head = 1023, tail = 1\<rparr> in
     chars q = [65, 65] \<and> (\<exists>q'. tty_push_q_front q 7 = (0, q') \<and> chars q' = [7, 65, 65])"
proof -
  let ?q = "\<lparr>buf = replicate 1024 65, wait_proc = 0, head = 1023, tail = 1\<rparr>"
  have ok: "queue_ok ?q" by (simp add: queue_ok_def)
  have "used ?q = 2" by (simp add: used_def)
  then have c: "chars ?q = [65, 65]" by (simp add: chars_def upt_rec)
  then show ?thesis using queue_refines_sequence [OF ok, of 7] by (auto simp: Let_def)
qed

end
