(* ===== verification/Vga.thy ===== *)
theory Vga
  imports Prelude
begin

text \<open>
  The VGA console (kernel/chr_drv/vga_console.c): 25 rows of 80 cells, each a character and
  an attribute byte, from address \<open>0xB8000\<close> on. \<open>video_buffer\<close> gives the byte at an offset
  from there, \<open>ports\<close> the values written to I/O ports, the last one first.
\<close>

section \<open>Operations\<close>

record console =
  video_x :: u32
  video_y :: u32
  video_buffer :: "u32 \<Rightarrow> u8"
  ports :: "(u32 \<times> u8) list"

definition VIDEO_X_SZ :: u32 where
  "VIDEO_X_SZ = 80"

definition VIDEO_Y_SZ :: u32 where
  "VIDEO_Y_SZ = 25"

definition TAB_LEN :: u32 where
  "TAB_LEN = 8"

definition outb :: "u32 \<Rightarrow> u8 \<Rightarrow> console \<Rightarrow> console" where
  "outb port val c = c\<lparr>ports := (port, val) # ports c\<rparr>"

definition update_cursor :: "u32 \<Rightarrow> u32 \<Rightarrow> console \<Rightarrow> console" where
  "update_cursor row col c =
     (let pos = row * VIDEO_X_SZ + col in
      outb 0x3D5 (ucast (drop_bit 8 pos AND 0xFF)) (outb 0x3D4 0x0E
        (outb 0x3D5 (ucast (pos AND 0xFF)) (outb 0x3D4 0x0F c))))"

text \<open>\<open>inb\<close> is what reading a port gives, after the writes of the list.\<close>

definition get_cursor :: "((u32 \<times> u8) list \<Rightarrow> u32 \<Rightarrow> u8) \<Rightarrow> console \<Rightarrow> u32 \<times> console" where
  "get_cursor inb c =
     (let c1 = outb 0x3D4 0x0F c;
          offset = push_bit 8 (ucast (inb (ports c1) 0x3D5));
          c2 = outb 0x3D4 0x0E c1 in
      (offset + ucast (inb (ports c2) 0x3D5), c2))"

definition video_putchar_at :: "u8 \<Rightarrow> u32 \<Rightarrow> u32 \<Rightarrow> u8 \<Rightarrow> console \<Rightarrow> console" where
  "video_putchar_at ch x y attr c =
     (let x = (if 80 \<le>s x then 80 else x); y = (if 25 \<le>s y then 25 else y) in
      c\<lparr>video_buffer := (video_buffer c)(2 * (x + 80 * y) := ch, 2 * (x + 80 * y) + 1 := attr)\<rparr>)"

text \<open>The two loops of \<open>memcpy\<close>.\<close>

definition memcpy :: "u32 \<Rightarrow> u32 \<Rightarrow> nat \<Rightarrow> nat \<Rightarrow> (u32 \<Rightarrow> u8) \<Rightarrow> (u32 \<Rightarrow> u8)" where
  "memcpy dest src count sz m =
     fold (\<lambda>i. fold (\<lambda>j m. m(dest + of_nat (i * sz + j) := m (src + of_nat (i * sz + j)))) [0..<sz]) [0..<count] m"

definition roll_screen :: "console \<Rightarrow> console" where
  "roll_screen c =
     fold (\<lambda>i. video_putchar_at 32 (of_nat i) (VIDEO_Y_SZ - 1) 0x0F) [0..<80]
       (fold (\<lambda>i c. c\<lparr>video_buffer := memcpy ((of_nat i - 1) * 80 * 2) (of_nat i * 80 * 2) 80 2 (video_buffer c)\<rparr>) [1..<25] c)"

text \<open>The loop that moves to the next tab stop; the remainder of C is zero for the multiples of
  8 only, whatever the sign.\<close>

function tab_stop :: "u32 \<Rightarrow> u32" where
  "tab_stop x = (if c_mod x TAB_LEN \<noteq> 0 then tab_stop (x + 1) else x)"
  by pat_completeness auto

definition video_putchar :: "u8 \<Rightarrow> console \<Rightarrow> console" where
  "video_putchar ch c =
     (let c1 = (if ch = 10 then c\<lparr>video_x := 0, video_y := video_y c + 1\<rparr>
                else if ch = 9 then c\<lparr>video_x := tab_stop (video_x c)\<rparr>
                else if ch = 8 then
                  let c0 = c\<lparr>video_x := video_x c - 1\<rparr>;
                      c0 = (if video_x c0 <s 0 then
                              let c0 = c0\<lparr>video_x := VIDEO_X_SZ, video_y := video_y c0 - 1\<rparr> in
                              if video_y c0 <s 0 then c0\<lparr>video_y := 0\<rparr> else c0
                            else c0) in
                  video_putchar_at 32 (video_x c0) (video_y c0) 0x0F c0
                else
                  let c0 = video_putchar_at ch (video_x c) (video_y c) 0x0F c in
                  c0\<lparr>video_x := video_x c0 + 1\<rparr>);
          c2 = (if VIDEO_X_SZ \<le>s video_x c1 then c1\<lparr>video_x := 0, video_y := video_y c1 + 1\<rparr> else c1);
          c3 = (if VIDEO_Y_SZ \<le>s video_y c2 then (roll_screen c2)\<lparr>video_x := 0, video_y := VIDEO_Y_SZ - 1\<rparr> else c2) in
      update_cursor (video_y c3) (video_x c3) c3)"

definition video_clear :: "console \<Rightarrow> console" where
  "video_clear c =
     fold (\<lambda>i. fold (\<lambda>j. video_putchar_at 32 (of_nat i) (of_nat j) 0x0F) [0..<25]) [0..<80]
       (c\<lparr>video_x := 0, video_y := 0\<rparr>)"

definition video_init :: "console \<Rightarrow> console" where
  "video_init c =
     (let c1 = video_clear (c\<lparr>video_x := 0, video_y := 0\<rparr>) in
      update_cursor (video_y c1) (video_x c1) c1)"

definition video_getx :: "console \<Rightarrow> u32" where
  "video_getx c = video_x c"

definition video_gety :: "console \<Rightarrow> u32" where
  "video_gety c = video_y c"

section \<open>Tab stops\<close>

lemma smod_8: "(a smod 8 = 0) = ((a :: int) mod 8 = 0)"
  by (auto simp: smod_int_alt_def dvd_eq_mod_eq_0 [symmetric] sgn_eq_0_iff)

lemma tab_test: "c_mod x TAB_LEN \<noteq> 0 \<longleftrightarrow> unat x mod 8 \<noteq> 0"
proof -
  have e: "int (unat x) = (if sint x < 0 then sint x + 4294967296 else sint x)" by (rule unat_sint)
  have "sint x mod 8 = 0 \<longleftrightarrow> int (unat x) mod 8 = 0" unfolding e by simp presburger
  also have "\<dots> \<longleftrightarrow> unat x mod 8 = 0" by presburger
  finally have r: "sint x smod 8 = 0 \<longleftrightarrow> unat x mod 8 = 0" by (simp only: smod_8)
  have b: "- 8 < sint x smod 8" "sint x smod 8 < 8"
    using smod_int_range [of 8 "sint x"] by auto
  have c: "c_mod x TAB_LEN = 0 \<longleftrightarrow> sint x smod 8 = 0"
  proof
    assume "c_mod x TAB_LEN = 0"
    then have "sint (word_of_int (sint x smod 8) :: u32) = 0" by (simp add: c_mod_def TAB_LEN_def)
    then show "sint x smod 8 = 0" using b by (simp add: sint_of_int_small)
  qed (simp add: c_mod_def TAB_LEN_def)
  show ?thesis by (simp only: c r)
qed

termination tab_stop
proof (relation "measure (\<lambda>x. (8 - unat x mod 8) mod 8)", simp)
  fix x :: u32 assume "c_mod x TAB_LEN \<noteq> 0"
  then have n: "unat x mod 8 \<noteq> 0" using tab_test by blast
  have "unat (x + 1) = (unat x + 1) mod 4294967296" by (simp add: unat_word_ariths)
  moreover have "(8 :: nat) dvd 4294967296" by simp
  ultimately have m: "unat (x + 1) mod 8 = (unat x + 1) mod 8" by (simp only: mod_mod_cancel)
  have "(unat x + 1) mod 8 = (if unat x mod 8 = 7 then 0 else unat x mod 8 + 1)" "unat x mod 8 < 8"
    by (simp_all add: mod_Suc)
  with n have "(8 - (unat x + 1) mod 8) mod 8 < (8 - unat x mod 8) mod 8" by auto
  then have "(8 - unat (x + 1) mod 8) mod 8 < (8 - unat x mod 8) mod 8" unfolding m .
  then show "(x + 1, x) \<in> measure (\<lambda>x. (8 - unat x mod 8) mod 8)" by (simp only: in_measure)
qed

declare tab_stop.simps [simp del]

lemma tab_stop_eq:
  "unat x \<le> 80 \<Longrightarrow> unat (tab_stop x) = (unat x + 7) div 8 * 8"
proof (induction x rule: tab_stop.induct)
  case (1 x)
  show ?case
  proof (cases "unat x mod 8 = 0")
    case True
    then have "tab_stop x = x" by (simp only: tab_stop.simps [of x] tab_test simp_thms if_False)
    moreover have "(unat x + 7) div 8 * 8 = unat x" using True by presburger
    ultimately show ?thesis by simp
  next
    case False
    then have "unat x \<noteq> 80" by auto
    then have s: "unat (x + 1) = unat x + 1" "unat (x + 1) \<le> 80" using 1(2) by (simp_all add: unat_word_ariths)
    have "tab_stop x = tab_stop (x + 1)" using False by (simp only: tab_stop.simps [of x] tab_test if_True simp_thms)
    moreover have "c_mod x TAB_LEN \<noteq> 0" using False by (simp only: tab_test simp_thms)
    then have "unat (tab_stop (x + 1)) = (unat (x + 1) + 7) div 8 * 8" by (rule 1(1) [OF _ s(2)])
    moreover have "(unat x + 1 + 7) div 8 = (unat x + 7) div 8" using False by presburger
    ultimately show ?thesis using s(1) by (simp only:)
  qed
qed

section \<open>Scrolling\<close>

lemma video_buffer_upd:
  "video_buffer (c\<lparr>video_buffer := m\<rparr>) = m" "c\<lparr>video_buffer := m, video_buffer := m'\<rparr> = c\<lparr>video_buffer := m'\<rparr>"
  by simp_all

lemma fold_upt_Suc: "i \<le> n \<Longrightarrow> fold f [i..<Suc n] m = f n (fold f [i..<n] m)"
  by simp

lemma unat_add_nat: "unat (x :: u32) + k < 4294967296 \<Longrightarrow> unat (x + of_nat k) = unat x + k"
  by (simp add: unat_word_ariths unat_of_nat_u32)

lemma copy_forward:
  fixes d s :: u32
  assumes "unat d + n \<le> unat s" "unat s + n \<le> 4294967296"
  shows "fold (\<lambda>j m. m(d + of_nat j := m (s + of_nat j))) [0..<n] m =
    (\<lambda>a. if unat d \<le> unat a \<and> unat a < unat d + n then m (a + (s - d)) else m a)"
  using assms
proof (induction n)
  case (Suc n)
  let ?m = "\<lambda>a. if unat d \<le> unat a \<and> unat a < unat d + n then m (a + (s - d)) else m a"
  have u: "unat (d + of_nat n) = unat d + n" "unat (s + of_nat n) = unat s + n"
    using Suc.prems by (simp_all add: unat_word_ariths unat_of_nat_u32)
  then have "?m (s + of_nat n) = m (s + of_nat n)" using Suc.prems by simp
  moreover have "fold (\<lambda>j m. m(d + of_nat j := m (s + of_nat j))) [0..<n] m = ?m"
    by (rule Suc.IH) (use Suc.prems in simp_all)
  ultimately have "fold (\<lambda>j m. m(d + of_nat j := m (s + of_nat j))) [0..<Suc n] m = ?m(d + of_nat n := m (s + of_nat n))"
    unfolding fold_upt_Suc [OF le0] by (simp only:)
  also have "\<dots> = (\<lambda>a. if unat d \<le> unat a \<and> unat a < unat d + Suc n then m (a + (s - d)) else m a)"
  proof
    fix a
    show "(?m(d + of_nat n := m (s + of_nat n))) a =
        (if unat d \<le> unat a \<and> unat a < unat d + Suc n then m (a + (s - d)) else m a)"
    proof (cases "a = d + of_nat n")
      case True
      then show ?thesis using u(1) by (simp add: algebra_simps)
    next
      case False
      then have "unat a \<noteq> unat d + n" unfolding u(1) [symmetric] by (auto simp: word_unat_eq_iff)
      then show ?thesis using False by auto
    qed
  qed
  finally show ?case .
qed (auto simp: fun_eq_iff)

lemma memcpy_forward:
  fixes d s :: u32
  assumes "unat d + n * sz \<le> unat s" "unat s + n * sz \<le> 4294967296"
  shows "memcpy d s n sz m = (\<lambda>a. if unat d \<le> unat a \<and> unat a < unat d + n * sz then m (a + (s - d)) else m a)"
  using assms
proof (induction n)
  case 0
  then show ?case by (auto simp: memcpy_def fun_eq_iff)
next
  case (Suc n)
  let ?o = "of_nat (n * sz) :: u32" and ?m = "\<lambda>a. if unat d \<le> unat a \<and> unat a < unat d + n * sz then m (a + (s - d)) else m a"
  have u: "unat (d + ?o) = unat d + n * sz" "unat (s + ?o) = unat s + n * sz"
  proof -
    have l: "unat s + n * sz < 4294967296" "n * sz \<le> Suc n * sz"
      using Suc.prems(2) unsigned_less [of s] by (cases "sz = 0", simp_all)
    then show "unat (s + ?o) = unat s + n * sz" by (intro unat_add_nat)
    show "unat (d + ?o) = unat d + n * sz" by (rule unat_add_nat) (use l Suc.prems(1) in linarith)
  qed
  have "memcpy d s (Suc n) sz m = fold (\<lambda>j m. m(d + of_nat (n * sz + j) := m (s + of_nat (n * sz + j)))) [0..<sz] (memcpy d s n sz m)"
    unfolding memcpy_def fold_upt_Suc [OF le0] ..
  also have "\<dots> = fold (\<lambda>j m. m(d + ?o + of_nat j := m (s + ?o + of_nat j))) [0..<sz] ?m"
  proof -
    have "memcpy d s n sz m = ?m" by (rule Suc.IH) (use Suc.prems in simp_all)
    then show ?thesis by (simp only: of_nat_add add.assoc)
  qed
  also have "\<dots> = (\<lambda>a. if unat (d + ?o) \<le> unat a \<and> unat a < unat (d + ?o) + sz then ?m (a + (s + ?o - (d + ?o))) else ?m a)"
    by (rule copy_forward) (use Suc.prems u in simp_all)
  also have "\<dots> = (\<lambda>a. if unat d \<le> unat a \<and> unat a < unat d + Suc n * sz then m (a + (s - d)) else m a)"
  proof
    fix a
    have "\<not> unat (a + (s - d)) < unat d + n * sz" if "unat (d + ?o) \<le> unat a" "unat a < unat (d + ?o) + sz"
    proof -
      have l: "unat d \<le> unat s" using Suc.prems by simp
      then have sd: "unat (s - d) = unat s - unat d" by (simp add: unat_sub word_le_nat_alt)
      have "unat a + (unat s - unat d) < 4294967296" using that u(1) Suc.prems l by simp
      then have "unat (a + (s - d)) = unat a + (unat s - unat d)" by (simp add: unat_word_ariths sd)
      then show ?thesis using that u(1) by simp
    qed
    then show "(if unat (d + ?o) \<le> unat a \<and> unat a < unat (d + ?o) + sz then ?m (a + (s + ?o - (d + ?o))) else ?m a) =
        (if unat d \<le> unat a \<and> unat a < unat d + Suc n * sz then m (a + (s - d)) else m a)"
      unfolding u(1) by auto
  qed
  finally show ?case .
qed

text \<open>The screen after one line scrolled off.\<close>

definition scrolled :: "(u32 \<Rightarrow> u8) \<Rightarrow> u32 \<Rightarrow> u8" where
  "scrolled m a = (if unat a < 3840 then m (a + 160)
     else if unat a < 4000 then (if even (unat a) then 32 else 0x0F) else m a)"

lemma put_at_buffer:
  assumes "x \<le> 80" "y < 25"
  shows "video_putchar_at ch (of_nat x) (of_nat y) attr c = c\<lparr>video_buffer := (\<lambda>a. if unat a = 2 * (x + 80 * y) then ch
     else if unat a = 2 * (x + 80 * y) + 1 then attr else video_buffer c a)\<rparr>"
proof -
  let ?o = "2 * (of_nat x + 80 * of_nat y) :: u32"
  have s: "sint (of_nat x :: u32) = int x" "sint (of_nat y :: u32) = int y" using assms by (simp_all add: sint_of_nat_small)
  have "?o = of_nat (2 * (x + 80 * y))" by simp
  moreover from this have "?o + 1 = of_nat (2 * (x + 80 * y) + 1)" by simp
  moreover have "unat (of_nat (2 * (x + 80 * y)) :: u32) = 2 * (x + 80 * y)"
    "unat (of_nat (2 * (x + 80 * y) + 1) :: u32) = 2 * (x + 80 * y) + 1"
    by (rule unat_of_nat_u32; use assms in simp)+
  ultimately have u: "unat ?o = 2 * (x + 80 * y)" "unat (?o + 1) = 2 * (x + 80 * y) + 1" by (simp_all only:)
  define p where "p = ?o"
  have e: "a = p \<longleftrightarrow> unat a = 2 * (x + 80 * y)" "a = p + 1 \<longleftrightarrow> unat a = 2 * (x + 80 * y) + 1" for a
    using u unfolding p_def [symmetric] by (simp_all only: word_unat_eq_iff)
  have "(video_buffer c)(p := ch, p + 1 := attr) = (\<lambda>a. if unat a = 2 * (x + 80 * y) then ch
     else if unat a = 2 * (x + 80 * y) + 1 then attr else video_buffer c a)"
    by (rule ext) (simp only: fun_upd_apply e, simp)
  moreover have "(if 80 \<le>s (of_nat x :: u32) then 80 else of_nat x) = (of_nat x :: u32)" "\<not> 25 \<le>s (of_nat y :: u32)"
    using assms s by (auto simp: word_sle_eq)
  ultimately show ?thesis unfolding p_def by (simp add: video_putchar_at_def Let_def)
qed

lemma copy_rows:
  "n \<le> 24 \<Longrightarrow> fold (\<lambda>i c. c\<lparr>video_buffer := memcpy ((of_nat i - 1) * 80 * 2) (of_nat i * 80 * 2) 80 2 (video_buffer c)\<rparr>) [1..<Suc n] c =
     c\<lparr>video_buffer := (\<lambda>a. if unat a < 160 * n then video_buffer c (a + 160) else video_buffer c a)\<rparr>"
proof (induction n)
  case (Suc n)
  let ?m = "\<lambda>a. if unat a < 160 * n then video_buffer c (a + 160) else video_buffer c a"
  have e: "(of_nat (Suc n) - 1) * 80 * 2 = (of_nat (160 * n) :: u32)" "of_nat (Suc n) * 80 * 2 = (of_nat (160 * Suc n) :: u32)"
    by simp_all
  have u: "unat (of_nat (160 * n) :: u32) = 160 * n" "unat (of_nat (160 * Suc n) :: u32) = 160 * Suc n"
    by (rule unat_of_nat_u32; use Suc.prems in simp)+
  have "memcpy (of_nat (160 * n)) (of_nat (160 * Suc n)) 80 2 ?m =
      (\<lambda>a. if 160 * n \<le> unat a \<and> unat a < 160 * n + 80 * 2 then ?m (a + (of_nat (160 * Suc n) - of_nat (160 * n))) else ?m a)"
    by (subst memcpy_forward) (use Suc.prems in \<open>simp_all only: u\<close>, simp_all)
  also have "\<dots> = (\<lambda>a. if unat a < 160 * Suc n then video_buffer c (a + 160) else video_buffer c a)"
  proof
    fix a :: u32
    have "unat (a + 160) = unat a + 160" if "unat a < 4000" using that by (simp add: unat_word_ariths)
    moreover have "of_nat (160 * Suc n) - of_nat (160 * n) = (160 :: u32)" by simp
    ultimately show "(if 160 * n \<le> unat a \<and> unat a < 160 * n + 80 * 2 then ?m (a + (of_nat (160 * Suc n) - of_nat (160 * n))) else ?m a) =
        (if unat a < 160 * Suc n then video_buffer c (a + 160) else video_buffer c a)"
      using Suc.prems by auto
  qed
  finally have st: "memcpy (of_nat (160 * n)) (of_nat (160 * Suc n)) 80 2 ?m =
      (\<lambda>a. if unat a < 160 * Suc n then video_buffer c (a + 160) else video_buffer c a)" .
  have IH: "fold (\<lambda>i c. c\<lparr>video_buffer := memcpy ((of_nat i - 1) * 80 * 2) (of_nat i * 80 * 2) 80 2 (video_buffer c)\<rparr>) [1..<Suc n] c =
     c\<lparr>video_buffer := ?m\<rparr>" by (rule Suc.IH) (use Suc.prems in simp)
  have "1 \<le> Suc n" by simp
  show ?case unfolding fold_upt_Suc [OF \<open>1 \<le> Suc n\<close>] IH e by (simp only: video_buffer_upd st)
qed simp

lemma clear_last_row:
  "n \<le> 80 \<Longrightarrow> fold (\<lambda>i. video_putchar_at 32 (of_nat i) (VIDEO_Y_SZ - 1) 0x0F) [0..<n] c =
     c\<lparr>video_buffer := (\<lambda>a. if 3840 \<le> unat a \<and> unat a < 3840 + 2 * n then (if even (unat a) then 32 else 0x0F) else video_buffer c a)\<rparr>"
proof (induction n)
  case 0
  show ?case by (cases c) (auto simp: fun_eq_iff)
next
  case (Suc n)
  have y: "VIDEO_Y_SZ - 1 = of_nat 24" by (simp add: VIDEO_Y_SZ_def)
  let ?P = "\<lambda>k :: nat. if even k then 32 else 0x0F :: u8"
  have p: "(if k = 2 * (n + 80 * 24) then 32 else if k = 2 * (n + 80 * 24) + 1 then 0x0F
      else if 3840 \<le> k \<and> k < 3840 + 2 * n then ?P k else v) = (if 3840 \<le> k \<and> k < 3840 + 2 * Suc n then ?P k else v)" for k v
  proof -
    consider "k = 2 * (n + 80 * 24)" | "k = 2 * (n + 80 * 24) + 1" | "k < 2 * (n + 80 * 24)" | "2 * (n + 80 * 24) + 1 < k" by linarith
    then show ?thesis by cases simp_all
  qed
  have "n \<le> 80" "n < 80" using Suc.prems by simp_all
  then show ?case
    unfolding fold_upt_Suc [OF le0] Suc.IH [OF \<open>n \<le> 80\<close>] unfolding y
    by (subst put_at_buffer [OF less_imp_le [OF \<open>n < 80\<close>]], simp) (simp_all only: video_buffer_upd p)
qed

lemma roll_screen_eq: "roll_screen c = c\<lparr>video_buffer := scrolled (video_buffer c)\<rparr>"
proof -
  have "[1..<25] = [1..<Suc 24]" by simp
  then have "roll_screen c = c\<lparr>video_buffer := (\<lambda>a. if 3840 \<le> unat a \<and> unat a < 3840 + 2 * 80 then (if even (unat a) then 32 else 0x0F)
      else if unat a < 160 * 24 then video_buffer c (a + 160) else video_buffer c a)\<rparr>"
    unfolding roll_screen_def by (simp only: copy_rows clear_last_row) (simp cong: if_cong)
  also have "(\<lambda>a. if 3840 \<le> unat a \<and> unat a < 3840 + 2 * 80 then (if even (unat a) then 32 else 0x0F)
      else if unat a < 160 * 24 then video_buffer c (a + 160) else video_buffer c a) = scrolled (video_buffer c)"
    by (auto simp: scrolled_def fun_eq_iff)
  finally show ?thesis .
qed

section \<open>Characters on the screen\<close>

text \<open>The state of the console between two calls: the cursor is on the screen.\<close>

definition con_ok :: "console \<Rightarrow> bool" where
  "con_ok c \<longleftrightarrow> unat (video_x c) < 80 \<and> unat (video_y c) < 25"

text \<open>The same step on the column, the row and the memory, without machine arithmetic.\<close>

definition wr :: "u8 \<Rightarrow> nat \<Rightarrow> nat \<Rightarrow> (u32 \<Rightarrow> u8) \<Rightarrow> (u32 \<Rightarrow> u8)" where
  "wr ch x y m = (\<lambda>a. if unat a = 2 * (x + 80 * y) then ch else if unat a = 2 * (x + 80 * y) + 1 then 0x0F else m a)"

definition settle :: "nat \<times> nat \<times> (u32 \<Rightarrow> u8) \<Rightarrow> nat \<times> nat \<times> (u32 \<Rightarrow> u8)" where
  "settle = (\<lambda>(x, y, m). let (x, y) = (if 80 \<le> x then (0, y + 1) else (x, y)) in
     if 25 \<le> y then (0, 24, scrolled m) else (x, y, m))"

definition put_char :: "u8 \<Rightarrow> nat \<times> nat \<times> (u32 \<Rightarrow> u8) \<Rightarrow> nat \<times> nat \<times> (u32 \<Rightarrow> u8)" where
  "put_char ch = (\<lambda>(x, y, m). settle
     (if ch = 10 then (0, y + 1, m)
      else if ch = 9 then ((x + 7) div 8 * 8, y, m)
      else if ch = 8 then (if 0 < x then (x - 1, y, wr 32 (x - 1) y m) else (80, y - 1, wr 32 80 (y - 1) m))
      else (x + 1, y, wr ch x y m)))"

lemma put_at_wr:
  "x \<le> 80 \<Longrightarrow> y < 25 \<Longrightarrow>
     video_putchar_at ch (of_nat x) (of_nat y) 0x0F c = c\<lparr>video_buffer := wr ch x y (video_buffer c)\<rparr>"
  by (simp only: put_at_buffer wr_def)

lemma settle_code:
  fixes c :: console
  assumes "x \<le> 80" "y \<le> 25" "settle (x, y, m) = (x', y', m')"
  defines "c1 \<equiv> c\<lparr>video_x := of_nat x, video_y := of_nat y, video_buffer := m\<rparr>"
  defines "c2 \<equiv> if VIDEO_X_SZ \<le>s video_x c1 then c1\<lparr>video_x := 0, video_y := video_y c1 + 1\<rparr> else c1"
  shows "(if VIDEO_Y_SZ \<le>s video_y c2 then (roll_screen c2)\<lparr>video_x := 0, video_y := VIDEO_Y_SZ - 1\<rparr> else c2) =
    c\<lparr>video_x := of_nat x', video_y := of_nat y', video_buffer := m'\<rparr>"
proof -
  have s: "80 \<le>s (of_nat x :: u32) \<longleftrightarrow> 80 \<le> x" "25 \<le>s (of_nat k :: u32) \<longleftrightarrow> 25 \<le> k" if "k \<le> 26" for k
    using assms(1) that by (simp_all add: word_sle_eq sint_of_nat_small)
  define y2 where "y2 = (if 80 \<le> x then y + 1 else y)"
  have c2: "c2 = c\<lparr>video_x := if 80 \<le> x then 0 else of_nat x, video_y := of_nat y2, video_buffer := m\<rparr>"
    using s(1) [of 0] by (simp add: c2_def c1_def VIDEO_X_SZ_def y2_def)
  have y: "VIDEO_Y_SZ \<le>s video_y c2 \<longleftrightarrow> 25 \<le> y2" using s(2) [of y2] assms(2) by (simp add: c2 VIDEO_Y_SZ_def y2_def)
  have r: "(x', y', m') = (if 25 \<le> y2 then (0, 24, scrolled m) else (if 80 \<le> x then 0 else x, y2, m))"
    using assms(3) by (auto simp: settle_def y2_def split: if_splits)
  show ?thesis
  proof (cases "25 \<le> y2")
    case True
    then have "VIDEO_Y_SZ \<le>s video_y c2" using y by blast
    then show ?thesis using r True by (simp add: roll_screen_eq c2 VIDEO_Y_SZ_def)
  next
    case False
    then have "\<not> VIDEO_Y_SZ \<le>s video_y c2" using y by blast
    then show ?thesis using r False by (simp add: c2)
  qed
qed

lemma tab_code: "x < 80 \<Longrightarrow> tab_stop (of_nat x) = of_nat ((x + 7) div 8 * 8)"
proof -
  assume x: "x < 80"
  then have "(x + 7) div 8 * 8 \<le> 80" by presburger
  then have "unat (of_nat ((x + 7) div 8 * 8) :: u32) = (x + 7) div 8 * 8" by (intro unat_of_nat_u32) linarith
  moreover have "unat (tab_stop (of_nat x)) = (x + 7) div 8 * 8"
    using tab_stop_eq [of "of_nat x"] x by (simp add: unat_of_nat_u32)
  ultimately show ?thesis by (simp only: word_unat_eq_iff)
qed

lemma pred_code:
  assumes "0 < k" "k < 100"
  shows "(of_nat k :: u32) - 1 = of_nat (k - 1)" "\<not> (of_nat k :: u32) - 1 <s 0"
proof -
  show e: "(of_nat k :: u32) - 1 = of_nat (k - 1)" using assms(1) by simp
  show "\<not> (of_nat k :: u32) - 1 <s 0" using assms(2) unfolding e by (simp add: word_sless_alt sint_of_nat_small)
qed

text \<open>A backspace, before the cursor is set.\<close>

lemma back_code:
  assumes "x < 80" "y < 25" "video_x c = of_nat x" "video_y c = of_nat y"
  defines "c1 \<equiv> c\<lparr>video_x := video_x c - 1\<rparr>"
  defines "c2 \<equiv> if video_x c1 <s 0 then
      let c0 = c1\<lparr>video_x := VIDEO_X_SZ, video_y := video_y c1 - 1\<rparr> in if video_y c0 <s 0 then c0\<lparr>video_y := 0\<rparr> else c0 else c1"
  shows "video_putchar_at 32 (video_x c2) (video_y c2) 0x0F c2 =
    (if 0 < x then c\<lparr>video_x := of_nat (x - 1), video_buffer := wr 32 (x - 1) y (video_buffer c)\<rparr>
     else c\<lparr>video_x := of_nat 80, video_y := of_nat (y - 1), video_buffer := wr 32 80 (y - 1) (video_buffer c)\<rparr>)"
proof (cases "0 < x")
  case True
  then have "c2 = c\<lparr>video_x := of_nat (x - 1)\<rparr>"
    using pred_code [OF True] assms(1,3) by (simp add: c2_def c1_def del: of_nat_diff)
  then show ?thesis using True assms put_at_wr [of "x - 1" y 32 c2] by (simp del: of_nat_diff)
next
  case False
  have "c2 = c\<lparr>video_x := of_nat 80, video_y := of_nat (y - 1)\<rparr>"
  proof (cases "0 < y")
    case True
    then show ?thesis using False pred_code [OF True] assms(2-4)
      by (simp add: c2_def c1_def Let_def VIDEO_X_SZ_def word_sless_alt del: of_nat_diff)
  next
    case b: False
    then show ?thesis using False assms(3,4) by (simp add: c2_def c1_def Let_def VIDEO_X_SZ_def word_sless_alt)
  qed
  then show ?thesis using False assms(2) put_at_wr [of 80 "y - 1" 32 c2] by (simp del: of_nat_diff)
qed

lemma video_putchar_eq:
  assumes "con_ok c" "put_char ch (unat (video_x c), unat (video_y c), video_buffer c) = (x', y', m')"
  shows "video_putchar ch c = update_cursor (of_nat y') (of_nat x')
    (c\<lparr>video_x := of_nat x', video_y := of_nat y', video_buffer := m'\<rparr>)"
proof -
  define x y m where "x = unat (video_x c)" and "y = unat (video_y c)" and "m = video_buffer c"
  have b: "x < 80" "y < 25" using assms(1) by (simp_all add: con_ok_def x_def y_def)
  have v: "video_x c = of_nat x" "video_y c = of_nat y" by (simp_all add: x_def y_def)
  define pre where "pre = (if ch = 10 then (0, y + 1, m)
      else if ch = 9 then ((x + 7) div 8 * 8, y, m)
      else if ch = 8 then (if 0 < x then (x - 1, y, wr 32 (x - 1) y m) else (80, y - 1, wr 32 80 (y - 1) m))
      else (x + 1, y, wr ch x y m))"
  obtain x1 y1 m1 where p: "pre = (x1, y1, m1)" by (cases pre)
  have "(x + 7) div 8 * 8 \<le> 80" using b(1) by presburger
  then have b1: "x1 \<le> 80" "y1 \<le> 25" using b p by (auto simp: pre_def split: if_splits)
  have st: "settle (x1, y1, m1) = (x', y', m')"
    using assms(2) p by (simp add: put_char_def x_def [symmetric] y_def [symmetric] m_def [symmetric] pre_def)
  have sy: "c\<lparr>video_x := k, video_y := of_nat y, video_buffer := n\<rparr> = c\<lparr>video_x := k, video_buffer := n\<rparr>"
    "c\<lparr>video_x := k, video_y := j, video_buffer := m\<rparr> = c\<lparr>video_x := k, video_y := j\<rparr>" for k n j
    by (simp_all add: v(2) [symmetric] m_def)
  note pv = p [symmetric, unfolded pre_def]
  define F where "F c1 = (let c2 = (if VIDEO_X_SZ \<le>s video_x c1 then c1\<lparr>video_x := 0, video_y := video_y c1 + 1\<rparr> else c1);
          c3 = (if VIDEO_Y_SZ \<le>s video_y c2 then (roll_screen c2)\<lparr>video_x := 0, video_y := VIDEO_Y_SZ - 1\<rparr> else c2) in
      update_cursor (video_y c3) (video_x c3) c3)" for c1 :: console
  have F: "F (c\<lparr>video_x := of_nat x1, video_y := of_nat y1, video_buffer := m1\<rparr>) = update_cursor (of_nat y') (of_nat x')
      (c\<lparr>video_x := of_nat x', video_y := of_nat y', video_buffer := m'\<rparr>)"
    unfolding F_def Let_def settle_code [OF b1 st, of c] by simp
  consider "ch = 10" | "ch = 9" | "ch = 8" | "ch \<noteq> 10" "ch \<noteq> 9" "ch \<noteq> 8" by auto
  then show ?thesis
  proof cases
    case 1
    then have "video_putchar ch c = F (c\<lparr>video_x := 0, video_y := video_y c + 1\<rparr>)" by (simp add: video_putchar_def F_def Let_def)
    then show ?thesis using 1 F pv by (simp add: v sy add.commute)
  next
    case 2
    then have "video_putchar ch c = F (c\<lparr>video_x := tab_stop (video_x c)\<rparr>)" by (simp add: video_putchar_def F_def Let_def)
    then show ?thesis using 2 F pv tab_code [OF b(1)] by (simp add: v sy m_def del: of_nat_mult)
  next
    case 3
    then have "video_putchar ch c = F (if 0 < x then c\<lparr>video_x := of_nat (x - 1), video_buffer := wr 32 (x - 1) y m\<rparr>
        else c\<lparr>video_x := of_nat 80, video_y := of_nat (y - 1), video_buffer := wr 32 80 (y - 1) m\<rparr>)"
      using back_code [OF b v] by (simp add: video_putchar_def F_def Let_def m_def)
    then show ?thesis using 3 F pv by (auto simp: sy split: if_splits)
  next
    case 4
    then have "video_putchar ch c = F (c\<lparr>video_buffer := wr ch x y m, video_x := of_nat x + 1\<rparr>)"
      using b put_at_wr [of x y ch c] by (simp add: video_putchar_def F_def Let_def v m_def)
    moreover have "c\<lparr>video_buffer := wr ch x y m, video_x := of_nat x + 1\<rparr> = c\<lparr>video_x := of_nat x + 1, video_buffer := wr ch x y m\<rparr>"
      by (cases c) simp
    ultimately have "video_putchar ch c = F (c\<lparr>video_x := of_nat x + 1, video_buffer := wr ch x y m\<rparr>)" by (simp only:)
    then show ?thesis using 4 F pv by (simp add: sy add.commute)
  qed
qed

lemma put_char_pos:
  assumes "x < 80" "y < 25" "put_char ch (x, y, m) = (x', y', m')"
  shows "x' < 80" "y' < 25" "4000 \<le> unat a \<Longrightarrow> m' a = m a"
proof -
  have "(x + 7) div 8 * 8 \<le> 80" using assms(1) by presburger
  then show "x' < 80" "y' < 25"
    using assms by (auto simp: put_char_def settle_def Let_def split: if_splits)
  have w: "4000 \<le> unat a \<Longrightarrow> wr c k l m a = m a" if "k + 80 * l < 2000" for c k l m
    using that by (auto simp: wr_def)
  have s: "4000 \<le> unat a \<Longrightarrow> scrolled m a = m a" for m by (simp add: scrolled_def)
  show "4000 \<le> unat a \<Longrightarrow> m' a = m a"
    using assms by (auto simp: put_char_def settle_def Let_def w s split: if_splits)
qed

section \<open>The screen as rows of text\<close>

definition screen :: "(u32 \<Rightarrow> u8) \<Rightarrow> (u8 \<times> u8) list list" where
  "screen m = map (\<lambda>y. map (\<lambda>x. (m (of_nat (2 * (x + 80 * y))), m (of_nat (2 * (x + 80 * y) + 1)))) [0..<80]) [0..<25]"

type_synonym text_state = "nat \<times> nat \<times> (u8 \<times> u8) list list"

definition set_text :: "u8 \<Rightarrow> nat \<Rightarrow> nat \<Rightarrow> (u8 \<times> u8) list list \<Rightarrow> (u8 \<times> u8) list list" where
  "set_text ch x y rows = rows[y := (rows ! y)[x := (ch, 0x0F)]]"

text \<open>What printing a character means on the rows: a line that is full goes on in the next one,
  and after the last line the first one is dropped.\<close>

definition next_line :: "text_state \<Rightarrow> text_state" where
  "next_line = (\<lambda>(x, y, rows). let (x, y) = (if x = 80 then (0, y + 1) else (x, y)) in
     if y = 25 then (0, 24, tl rows @ [replicate 80 (32, 0x0F)]) else (x, y, rows))"

definition print_text :: "u8 \<Rightarrow> text_state \<Rightarrow> text_state" where
  "print_text ch = (\<lambda>(x, y, rows). next_line
     (if ch = 10 then (0, y + 1, rows)
      else if ch = 9 then ((x + 7) div 8 * 8, y, rows)
      else if ch = 8 then
        (if 0 < x then (x - 1, y, set_text 32 (x - 1) y rows) else (80, y - 1, set_text 32 0 (y - 1 + 1) rows))
      else (x + 1, y, set_text ch x y rows)))"

definition text_of :: "console \<Rightarrow> text_state" where
  "text_of c = (unat (video_x c), unat (video_y c), screen (video_buffer c))"

lemma length_screen [simp]: "length (screen m) = 25" "y < 25 \<Longrightarrow> length (screen m ! y) = 80"
  by (simp_all add: screen_def)

lemma screen_nth: "y < 25 \<Longrightarrow> x < 80 \<Longrightarrow>
    screen m ! y ! x = (m (of_nat (2 * (x + 80 * y))), m (of_nat (2 * (x + 80 * y) + 1)))"
  by (simp add: screen_def)

lemma screen_eqI:
  assumes "length rows = 25" "\<And>y. y < 25 \<Longrightarrow> length (rows ! y) = 80"
    and "\<And>x y. x < 80 \<Longrightarrow> y < 25 \<Longrightarrow> screen m ! y ! x = rows ! y ! x"
  shows "screen m = rows"
  by (rule nth_equalityI) (use assms in \<open>auto intro!: nth_equalityI\<close>)

lemma unat_cell: "x < 80 \<Longrightarrow> y < 25 \<Longrightarrow> unat (of_nat (2 * (x + 80 * y)) :: u32) = 2 * (x + 80 * y)"
  "x < 80 \<Longrightarrow> y < 25 \<Longrightarrow> unat (of_nat (2 * (x + 80 * y) + 1) :: u32) = 2 * (x + 80 * y) + 1"
  by (rule unat_of_nat_u32, simp)+

lemma cell_inj: "x < 80 \<Longrightarrow> x' < 80 \<Longrightarrow> x + 80 * y = x' + 80 * y' \<longleftrightarrow> x = x' \<and> y = (y' :: nat)"
proof
  assume a: "x < 80" "x' < 80" "x + 80 * y = x' + 80 * y'"
  then have "(x + 80 * y) div 80 = (x' + 80 * y') div 80" by (simp only:)
  then have "y = y'" using a(1,2) by simp
  with a(3) show "x = x' \<and> y = y'" by simp
qed simp

lemma screen_wr:
  assumes "x < 80" "y < 25"
  shows "screen (wr ch x y m) = set_text ch x y (screen m)"
proof (rule screen_eqI)
  fix x' y' :: nat assume b: "x' < 80" "y' < 25"
  have "2 * (x' + 80 * y') = 2 * (x + 80 * y) \<longleftrightarrow> x' + 80 * y' = x + 80 * y"
    by (simp only: mult_cancel1) simp
  then have "2 * (x' + 80 * y') = 2 * (x + 80 * y) \<longleftrightarrow> x' = x \<and> y' = y" unfolding cell_inj [OF b(1) assms(1)] .
  moreover from this have "2 * (x' + 80 * y') + 1 = 2 * (x + 80 * y) + 1 \<longleftrightarrow> x' = x \<and> y' = y" by (simp only: add_right_cancel)
  moreover have "2 * (x' + 80 * y') + 1 \<noteq> 2 * (x + 80 * y)" "2 * (x' + 80 * y') \<noteq> 2 * (x + 80 * y) + 1" by presburger+
  ultimately show "screen (wr ch x y m) ! y' ! x' = set_text ch x y (screen m) ! y' ! x'"
    unfolding screen_nth [OF b(2,1)] wr_def unat_cell [OF b]
    using assms b by (simp add: set_text_def nth_list_update screen_nth del: of_nat_mult of_nat_add)
qed (use assms in \<open>simp_all add: set_text_def nth_list_update\<close>)

lemma wr_row_end: "wr ch 80 y m = wr ch 0 (y + 1) m"
  by (simp add: wr_def cong: if_cong)

lemma screen_scrolled: "screen (scrolled m) = tl (screen m) @ [replicate 80 (32, 0x0F)]"
proof (rule screen_eqI)
  fix x y :: nat assume b: "x < 80" "y < 25"
  show "screen (scrolled m) ! y ! x = (tl (screen m) @ [replicate 80 (32, 0x0F)]) ! y ! x"
  proof (cases "y < 24")
    case True
    then have "x < 80" "Suc y < 25" using b by simp_all
    have e: "of_nat (2 * (x + 80 * y)) + 160 = (of_nat (2 * (x + 80 * Suc y)) :: u32)"
      "of_nat (2 * (x + 80 * y) + 1) + 160 = (of_nat (2 * (x + 80 * Suc y) + 1) :: u32)" by simp_all
    have "2 * (x + 80 * y) + 1 < 3840" using True b by simp
    then show ?thesis unfolding screen_nth [OF b(2,1)] scrolled_def unat_cell [OF b] e
      using True b by (simp add: nth_append nth_tl screen_nth del: of_nat_mult of_nat_add of_nat_Suc)
  next
    case False
    then have y: "y = 24" using b by simp
    have k: "\<not> 2 * (x + 80 * 24) < 3840" "2 * (x + 80 * 24) < 4000" "even (2 * (x + 80 * 24))"
      "\<not> 2 * (x + 80 * 24) + 1 < 3840" "2 * (x + 80 * 24) + 1 < 4000" "odd (2 * (x + 80 * 24) + 1)" using b by simp_all
    have y25: "24 < (25 :: nat)" by simp
    show ?thesis unfolding y screen_nth [OF y25 b(1)] scrolled_def unat_cell [OF b(1) y25]
      using b(1) k by (simp add: nth_append)
  qed
qed (auto simp: nth_append nth_tl)

lemma text_put_char:
  assumes "x < 80" "y < 25" "put_char ch (x, y, m) = (x', y', m')"
  shows "print_text ch (x, y, screen m) = (x', y', screen m')"
proof -
  have s: "next_line (k, l, screen n) = (case settle (k, l, n) of (k, l, n) \<Rightarrow> (k, l, screen n))" if "k \<le> 80" "l < 24 \<or> k < 80 \<and> l \<le> 25 \<or> l = 24" for k l n
    using that by (auto simp: next_line_def settle_def Let_def screen_scrolled)
  have t: "(x + 7) div 8 * 8 \<le> 80" using assms(1) by presburger
  consider "ch = 10" | "ch = 9" | "ch = 8" "0 < x" | "ch = 8" "x = 0" | "ch \<noteq> 10" "ch \<noteq> 9" "ch \<noteq> 8" by auto
  then show ?thesis
  proof cases
    case 1
    then show ?thesis using assms s [of 0 "y + 1" m] by (simp add: print_text_def put_char_def)
  next
    case 2
    have "y < 24 \<or> y = 24" using assms(2) by linarith
    then show ?thesis using 2 assms t s [of "(x + 7) div 8 * 8" y m] by (simp add: print_text_def put_char_def) force
  next
    case 3
    have "x - 1 \<le> 80" "x - 1 < 80" using assms(1) by linarith+
    then show ?thesis using 3 assms s [of "x - 1" y "wr 32 (x - 1) y m"] screen_wr [of "x - 1" y 32 m]
      by (simp add: print_text_def put_char_def)
  next
    case 4
    then have "y - 1 + 1 < 25" using assms(2) by simp
    then show ?thesis using 4 assms s [of 80 "y - 1" "wr 32 80 (y - 1) m"] screen_wr [of 0 "y - 1 + 1" 32 m]
      by (simp add: print_text_def put_char_def wr_row_end)
  next
    case 5
    have "y < 24 \<or> y = 24" using assms(2) by linarith
    then show ?thesis using 5 assms s [of "x + 1" y "wr ch x y m"] screen_wr [of x y ch m]
      by (auto simp: print_text_def put_char_def)
  qed
qed

lemma update_cursor_simps [simp]:
  "video_x (update_cursor r k c) = video_x c" "video_y (update_cursor r k c) = video_y c"
  "video_buffer (update_cursor r k c) = video_buffer c"
  by (simp_all add: update_cursor_def outb_def Let_def)

lemma video_putchar_text:
  assumes "con_ok c"
  shows "con_ok (video_putchar ch c) \<and> text_of (video_putchar ch c) = print_text ch (text_of c)"
proof -
  have b: "unat (video_x c) < 80" "unat (video_y c) < 25" using assms by (simp_all add: con_ok_def)
  obtain x y m where p: "put_char ch (unat (video_x c), unat (video_y c), video_buffer c) = (x, y, m)"
    by (cases "put_char ch (unat (video_x c), unat (video_y c), video_buffer c)")
  note q = put_char_pos [OF b p]
  show ?thesis
    using text_put_char [OF b p] q(1,2)
    by (simp add: text_of_def con_ok_def video_putchar_eq [OF assms p] unat_of_nat_u32)
qed

lemma video_putchar_texts:
  "con_ok c \<Longrightarrow> con_ok (fold video_putchar cs c) \<and> text_of (fold video_putchar cs c) = fold print_text cs (text_of c)"
  by (induction cs arbitrary: c) (simp_all add: video_putchar_text)

text \<open>The registers of the video controller: a write to port \<open>0x3D4\<close> selects one, port \<open>0x3D5\<close> reads and
  writes the one selected.\<close>

fun crtc_index :: "(u32 \<times> u8) list \<Rightarrow> u8" where
  "crtc_index [] = 0"
| "crtc_index ((p, v) # ps) = (if p = 0x3D4 then v else crtc_index ps)"

fun crtc_reg :: "(u8 \<Rightarrow> u8) \<Rightarrow> (u32 \<times> u8) list \<Rightarrow> u8 \<Rightarrow> u8" where
  "crtc_reg r [] i = r i"
| "crtc_reg r ((p, v) # ps) i = (if p = 0x3D5 \<and> crtc_index ps = i then v else crtc_reg r ps i)"

definition crtc :: "((u32 \<times> u8) list \<Rightarrow> u32 \<Rightarrow> u8) \<Rightarrow> (u8 \<Rightarrow> u8) \<Rightarrow> bool" where
  "crtc inb r \<longleftrightarrow> (\<forall>ps. inb ps 0x3D5 = crtc_reg r ps (crtc_index ps))"

lemma get_cursor_after:
  assumes "crtc inb r" "ports c = [(0x3D5, hi), (0x3D4, 0x0E), (0x3D5, lo), (0x3D4, 0x0F)] @ ps"
  shows "fst (get_cursor inb c) = of_nat (256 * unat lo + unat hi)"
proof -
  have "inb (ports (outb 0x3D4 0x0F c)) 0x3D5 = lo" "inb (ports (outb 0x3D4 0x0E (outb 0x3D4 0x0F c))) 0x3D5 = hi"
    using assms by (simp_all add: crtc_def outb_def)
  then show ?thesis by (simp add: get_cursor_def Let_def push_bit_eq_mult)
qed



text \<open>C35: the console implements rows of text. On the 25 rows of 80 cells that the memory
  stands for, \<open>video_putchar\<close> writes the character at the cursor and moves on, starts a line
  at a newline or at the end of a row, moves to the next tab stop, takes a character back,
  and drops the first row when the last one is left. (A backspace in the first column of a
  row stays there, and in the first row it goes down to the second.)\<close>

theorem video_putchar_refines_text:
  assumes "con_ok c"
  shows "text_of (video_putchar ch c) = print_text ch (text_of c)"
  using video_putchar_text [OF assms] by simp

theorem video_putchar_refines_text_witness:
  "let c = \<lparr>video_x = 0, video_y = 0, video_buffer = (\<lambda>_. 65), ports = []\<rparr> in
     fst (text_of (video_putchar 8 c)) = 0 \<and> fst (snd (text_of (video_putchar 8 c))) = 1"
proof -
  have "con_ok \<lparr>video_x = 0, video_y = 0, video_buffer = (\<lambda>_. 65), ports = []\<rparr>" by (simp add: con_ok_def)
  note video_putchar_refines_text [OF this, of 8]
  then show ?thesis by (simp add: Let_def print_text_def next_line_def text_of_def)
qed

end
