(* ===== verification/Vsprintf.thy ===== *)
theory Vsprintf
  imports Prelude
begin

text \<open>
  Formatted output (kernel/vsprintf.c). A function returns the characters it writes to
  \<open>dest\<close>; \<open>text_at\<close> gives the string at an address, for \<open>%s\<close>, and the arguments are the
  words \<open>va_arg\<close> takes from the stack. Reading an argument that was not passed is
  \<open>Out_of_bounds\<close>, like an index outside of an array.
\<close>

section \<open>Operations\<close>

definition digits :: "u8 list" where
  "digits = map of_char ''0123456789ABCDEF''"

text \<open>The loop that fills \<open>buf\<close>, with \<open>n\<close> of its 50 entries left; the entries filled so far
  are \<open>ds\<close>, the last one first, which is the order they are copied to \<open>dest\<close> in.\<close>

fun num_digits :: "nat \<Rightarrow> u32 \<Rightarrow> u32 \<Rightarrow> u8 list \<Rightarrow> kerror + u8 list" where
  "num_digits 0 num base ds = (if num = 0 then Inr ds else Inl Out_of_bounds)"
| "num_digits (Suc n) num base ds =
     (if num = 0 then Inr ds
      else
        let d = c_mod num base in
        if d <s 0 \<or> 16 \<le>s d then Inl Out_of_bounds
        else num_digits n (c_div num base) base (digits ! unat d # ds))"

definition sprintnum :: "u32 \<Rightarrow> u32 \<Rightarrow> u32 \<Rightarrow> kerror + u8 list" where
  "sprintnum num base sign =
     (let minus = (if sign \<noteq> 0 \<and> num <s 0 then [45] else []);
          num = (if sign \<noteq> 0 \<and> num <s 0 then - num else num) in
      if num = 0 then Inr (minus @ [48])
      else kbind (num_digits 50 num base []) (\<lambda>ds. Inr (minus @ ds)))"

text \<open>One conversion \<open>%c\<close>: what it writes, and the arguments that are left.\<close>

definition next_arg :: "u32 list \<Rightarrow> kerror + u32 \<times> u32 list" where
  "next_arg args = (case args of [] \<Rightarrow> Inl Out_of_bounds | a # as \<Rightarrow> Inr (a, as))"

definition conversion :: "(u32 \<Rightarrow> u8 list) \<Rightarrow> u8 \<Rightarrow> u32 list \<Rightarrow> kerror + u8 list \<times> u32 list" where
  "conversion text_at c args =
     (if c = of_char CHR ''d'' then kbind (next_arg args) (\<lambda>(a, as). kbind (sprintnum a 10 1) (\<lambda>out. Inr (out, as)))
      else if c = of_char CHR ''u'' then kbind (next_arg args) (\<lambda>(a, as). kbind (sprintnum a 10 0) (\<lambda>out. Inr (out, as)))
      else if c = of_char CHR ''x'' then kbind (next_arg args) (\<lambda>(a, as). kbind (sprintnum a 16 0) (\<lambda>out. Inr (out, as)))
      else if c = of_char CHR ''s'' then kbind (next_arg args) (\<lambda>(a, as). Inr (text_at a, as))
      else if c = of_char CHR ''c'' then kbind (next_arg args) (\<lambda>(a, as). Inr ([ucast a], as))
      else if c = of_char CHR ''%'' then Inr ([of_char CHR ''%''], args)
      else Inr ([], args))"

fun vsprintf :: "(u32 \<Rightarrow> u8 list) \<Rightarrow> u8 list \<Rightarrow> u32 list \<Rightarrow> kerror + u8 list" where
  "vsprintf text_at [] args = Inr []"
| "vsprintf text_at [c] args = Inr (if c \<noteq> of_char CHR ''%'' then [c] else [])"
| "vsprintf text_at (c # c' # fmt) args =
     (if c \<noteq> of_char CHR ''%'' then kbind (vsprintf text_at (c' # fmt) args) (\<lambda>out. Inr (c # out))
      else kbind (conversion text_at c' args) (\<lambda>(out, as).
             kbind (vsprintf text_at fmt as) (\<lambda>rest. Inr (out @ rest))))"

section \<open>Numbers\<close>

lemma smod_nat: "int a smod int b = int (a mod b)"
  by (auto simp: smod_int_alt_def zmod_int sgn_if)

lemma c_div_mod_nonneg:
  assumes "unat a < 2147483648" "unat b < 2147483648"
  shows "c_div a b = of_nat (unat a div unat b)" "c_mod a b = of_nat (unat a mod unat b)"
  using assms by (simp_all only: c_div_def c_mod_def sint_nonneg sdiv_int smod_nat of_int_of_nat_eq)

text \<open>The digits of a number, most significant first.\<close>

function numeral_of :: "nat \<Rightarrow> nat \<Rightarrow> nat list" where
  "numeral_of b n = (if b < 2 \<or> n < b then [n] else numeral_of b (n div b) @ [n mod b])"
  by pat_completeness auto
termination by (relation "measure snd") (auto intro: div_less_dividend)

declare numeral_of.simps [simp del]

lemma length_numeral_of: "2 \<le> b \<Longrightarrow> 0 < k \<Longrightarrow> n < b ^ k \<Longrightarrow> length (numeral_of b n) \<le> k"
proof (induction k arbitrary: n)
  case (Suc k)
  show ?case
  proof (cases "n < b")
    case True
    then show ?thesis by (simp add: numeral_of.simps [of b n])
  next
    case False
    then have "0 < k" using Suc.prems(3) by (cases k) auto
    moreover have "n div b < b ^ k" using Suc.prems(3) by (simp add: less_mult_imp_div_less mult.commute)
    ultimately show ?thesis using Suc.IH [of "n div b"] Suc.prems(1) False by (simp add: numeral_of.simps [of b n])
  qed
qed simp

lemma num_digits_eq:
  assumes "2 \<le> unat base" "unat base \<le> 16"
  shows "0 < unat num \<Longrightarrow> unat num < 2147483648 \<Longrightarrow> length (numeral_of (unat base) (unat num)) \<le> n \<Longrightarrow>
    num_digits n num base ds = Inr (map (\<lambda>d. digits ! d) (numeral_of (unat base) (unat num)) @ ds)"
proof (induction n arbitrary: num ds)
  case 0
  then show ?case by (simp add: numeral_of.simps [of _ "unat num"] split: if_splits)
next
  case (Suc n)
  let ?b = "unat base" and ?v = "unat num"
  have b: "?b < 2147483648" using assms(2) by simp
  have m: "?v mod ?b < 16" using assms by (meson le_trans mod_less_divisor less_le_trans zero_less_numeral)
  have d: "unat (c_mod num base) = ?v mod ?b" "\<not> c_mod num base <s 0" "\<not> 16 \<le>s c_mod num base"
    using m by (simp_all add: c_div_mod_nonneg [OF Suc.prems(2) b] unat_of_nat_u32 word_sless_alt word_sle_eq sint_of_nat_small)
  have le: "?v div ?b \<le> ?v" by (rule div_le_dividend)
  have q: "unat (c_div num base) = ?v div ?b"
    using Suc.prems(2) le unfolding c_div_mod_nonneg [OF Suc.prems(2) b] by (intro unat_of_nat_u32) linarith
  have nz: "num \<noteq> 0" using Suc.prems(1) by auto
  have st: "num_digits (Suc n) num base ds = num_digits n (c_div num base) base (digits ! (?v mod ?b) # ds)"
    using nz d by (simp add: Let_def)
  show ?case
  proof (cases "?v < ?b")
    case True
    then have "c_div num base = 0" using q by (simp add: unat_eq_0 [symmetric])
    then have "num_digits n (c_div num base) base (digits ! (?v mod ?b) # ds) = Inr (digits ! (?v mod ?b) # ds)"
      by (cases n) simp_all
    with st True show ?thesis by (simp add: numeral_of.simps [of _ ?v])
  next
    case False
    then have "0 < ?v div ?b" using assms(1) by (simp add: div_greater_zero_iff)
    moreover have "numeral_of ?b ?v = numeral_of ?b (?v div ?b) @ [?v mod ?b]" using False assms(1) by (simp add: numeral_of.simps [of _ ?v])
    moreover from this have "length (numeral_of ?b (?v div ?b)) \<le> n" using Suc.prems(3) by simp
    ultimately show ?thesis using Suc.IH [of "c_div num base"] q le Suc.prems(2) st by simp
  qed
qed

lemma num_digits_negative:
  assumes "2 \<le> unat base" "unat base \<le> 16"
  shows "num <s 0 \<Longrightarrow> num_digits n num base ds = Inl Out_of_bounds"
proof (induction n arbitrary: num ds)
  case 0
  then show ?case by (auto simp: word_sless_alt)
next
  case (Suc n)
  have b: "sint base = int (unat base)" using assms(2) by (simp add: sint_nonneg)
  have neg: "sint num < 0" using Suc.prems by (simp add: word_sless_alt)
  have nz: "num \<noteq> 0" using neg by auto
  define r where "r = sint num smod sint base"
  have r: "r = - (\<bar>sint num\<bar> mod sint base)" using neg by (simp add: r_def smod_int_alt_def b)
  have rb: "0 \<le> \<bar>sint num\<bar> mod sint base" "\<bar>sint num\<bar> mod sint base < sint base"
  proof -
    have "0 < sint base" using assms(1) unfolding b by linarith
    then show "0 \<le> \<bar>sint num\<bar> mod sint base" "\<bar>sint num\<bar> mod sint base < sint base"
      by (rule pos_mod_sign, rule pos_mod_bound)
  qed
  have s: "sint (c_mod num base) = r"
    unfolding c_mod_def r_def [symmetric] by (rule sint_of_int_small) (use rb b r assms(2) in linarith)+
  show ?case
  proof (cases "r < 0")
    case True
    then have "c_mod num base <s 0" by (simp add: word_sless_alt s)
    then show ?thesis using nz by (simp add: Let_def)
  next
    case False
    then have z: "\<bar>sint num\<bar> mod sint base = 0" using r rb(1) by linarith
    define q where "q = sint num sdiv sint base"
    have q: "q = - (\<bar>sint num\<bar> div sint base)" proof -
      have "0 < sint base" using assms(1) unfolding b by linarith
      then show ?thesis using neg by (simp add: q_def signed_divide_int_def)
    qed
    have p: "0 < \<bar>sint num\<bar> div sint base"
    proof -
      have "\<bar>sint num\<bar> = sint base * (\<bar>sint num\<bar> div sint base)" using z by (metis add.right_neutral mult_div_mod_eq)
      then have "\<bar>sint num\<bar> div sint base \<noteq> 0" using neg by auto
      moreover have "0 \<le> \<bar>sint num\<bar> div sint base" proof -
        have "0 < sint base" using assms(1) unfolding b by linarith
        then show ?thesis by (simp add: pos_imp_zdiv_nonneg_iff)
      qed
      ultimately show ?thesis by linarith
    qed
    have "\<bar>sint num\<bar> \<le> 2147483648" using sint_ge [of num] sint_lt [of num] by simp
    moreover have "\<bar>sint num\<bar> div sint base \<le> \<bar>sint num\<bar>" proof -
      have "1 \<le> sint base" using assms(1) unfolding b by linarith
      then show ?thesis using zdiv_mono2 [of "\<bar>sint num\<bar>" 1 "sint base"] by simp
    qed
    ultimately have "- 2147483648 \<le> q" "q < 0" using q p by linarith+
    then have "sint (c_div num base) = q"
      unfolding c_div_def q_def [symmetric] by (intro sint_of_int_small) simp_all
    then have "c_div num base <s 0" using \<open>q < 0\<close> by (simp add: word_sless_alt)
    then have "num_digits n (c_div num base) base ds' = Inl Out_of_bounds" for ds' by (rule Suc.IH)
    then show ?thesis using nz by (simp add: Let_def)
  qed
qed

text \<open>C36: printing numbers. In base 10 or 16 a number that is not negative is printed as its
  usual numeral, and with a sign a negative one as a minus and the numeral of its absolute
  value. But without a sign (\<open>%u\<close> and \<open>%x\<close>) a number with the top bit set, and with a sign
  the least number, makes \<open>digits\<close> be read at a negative index.\<close>

theorem sprintnum_correct:
  assumes "base = 10 \<or> base = 16"
  shows "(0 \<le> sint num \<longrightarrow> sprintnum num base sign = Inr (map (\<lambda>d. digits ! d) (numeral_of (unat base) (unat num)))) \<and>
    (sign \<noteq> 0 \<and> - 2147483648 < sint num \<and> sint num < 0 \<longrightarrow>
       sprintnum num base sign = Inr (45 # map (\<lambda>d. digits ! d) (numeral_of (unat base) (nat (- sint num))))) \<and>
    (sint num < 0 \<and> (sign = 0 \<or> sint num = - 2147483648) \<longrightarrow> sprintnum num base sign = Inl Out_of_bounds)"
proof -
  have b: "2 \<le> unat base" "unat base \<le> 16" using assms by auto
  have dig: "num_digits 50 n base [] = Inr (map (\<lambda>d. digits ! d) (numeral_of (unat base) (unat n)))"
    if n: "n \<noteq> 0" "unat n < 2147483648" for n
  proof -
    have "unat n < 2 ^ 50" using n(2) by simp
    also have "(2 :: nat) ^ 50 \<le> unat base ^ 50" using b(1) by (rule power_mono) simp
    finally have "length (numeral_of (unat base) (unat n)) \<le> 50" using length_numeral_of [OF b(1), of 50] by simp
    then show ?thesis using num_digits_eq [OF b, of n 50 "[]"] n by (simp add: unat_gt_0)
  qed
  have z: "numeral_of (unat base) 0 = [0]" "digits ! 0 = 48" using b by (simp_all add: numeral_of.simps digits_def)
  have i: "int (unat num) = (if sint num < 0 then sint num + 4294967296 else sint num)" by (rule unat_sint)
  have 1: "sprintnum num base sign = Inr (map (\<lambda>d. digits ! d) (numeral_of (unat base) (unat num)))" if "0 \<le> sint num"
  proof -
    have "int (unat num) = sint num" using i that by (simp only: if_False not_less [symmetric] not_le simp_thms)
    moreover have "sint num < 2147483648" using sint_lt [of num] by simp
    ultimately have "unat num < 2147483648" by linarith
    then show ?thesis using that dig [of num] z by (cases "num = 0") (simp_all add: sprintnum_def Let_def word_sless_alt)
  qed
  have 2: "sprintnum num base sign = Inr (45 # map (\<lambda>d. digits ! d) (numeral_of (unat base) (nat (- sint num))))"
    if c: "sign \<noteq> 0" "- 2147483648 < sint num" "sint num < 0"
  proof -
    have nz: "num \<noteq> 0" using c(3) by auto
    have m: "sint (- num) = - sint num"
      using c by (simp add: sint_word_ariths signed_take_bit_int_eq_self)
    then have "int (unat (- num)) = - sint num"
    proof -
      have "\<not> - sint num < 0" using c(3) by linarith
      then show ?thesis using unat_sint [of "- num"] by (simp only: m if_False)
    qed
    then have "unat (- num) = nat (- sint num)" by linarith
    then show ?thesis using c nz dig [of "- num"] by (simp add: sprintnum_def Let_def word_sless_alt)
  qed
  have 3: "sprintnum num base sign = Inl Out_of_bounds" if c: "sint num < 0" "sign = 0 \<or> sint num = - 2147483648"
  proof -
    define n where "n = (if sign \<noteq> 0 \<and> num <s 0 then - num else num)"
    have "n <s 0"
    proof (cases "sign = 0")
      case False
      then have "sint num = - 2147483648" using c(2) by simp
      then have "num = 0x80000000" by (intro signed_word_eqI) simp
      then show ?thesis by (simp add: n_def word_sless_alt)
    qed (use c(1) in \<open>simp add: n_def word_sless_alt\<close>)
    moreover from this have "n \<noteq> 0" by (auto simp: word_sless_alt)
    ultimately show ?thesis
      using num_digits_negative [OF b, of n 50 "[]"] by (simp add: sprintnum_def Let_def n_def)
  qed
  show ?thesis using 1 2 3 by blast
qed

theorem sprintnum_correct_witness:
  "sprintnum 2024 10 1 = Inr [50, 48, 50, 52] \<and> sprintnum (- 7) 10 1 = Inr [45, 55] \<and>
   sprintnum 0xfffff000 16 0 = Inl Out_of_bounds"
proof -
  have n: "numeral_of 10 2024 = [2, 0, 2, 4]" "numeral_of 10 7 = [7]" by (simp_all add: numeral_of.simps)
  have d: "digits ! 2 = 50" "digits ! 0 = 48" "digits ! 4 = 52" "digits ! 7 = 55" by (simp_all add: digits_def)
  show ?thesis
    using sprintnum_correct [of 10 2024 1] sprintnum_correct [of 10 "- 7" 1] sprintnum_correct [of 16 "0xfffff000" 0]
    by (simp add: n d)
qed

end
