(* ===== verification/Tty_Io.thy ===== *)
theory Tty_Io
  imports Signal Tty_Queue Vga Vsprintf
begin

text \<open>
  The terminal (kernel/chr_drv/tty_io.c, kernel/chr_drv/do_keyboard.c, \<open>con_write\<close> of
  kernel/chr_drv/vga_console.c, kernel/printk.c): keys go through the queue \<open>read_q\<close> into the
  queue \<open>buffer\<close> that a task reads, and are echoed through \<open>write_q\<close> to the console, where
  also the output of tasks and of the kernel goes. Interrupts are off while an interrupt
  handler runs, so each operation here is one step unless it sleeps.
\<close>

section \<open>State\<close>

text \<open>The static variables of \<open>do_keyboard_interrupt\<close>.\<close>

record keyboard =
  caps :: u8
  lshift :: u8
  rshift :: u8
  lctrl :: u8
  rctrl :: u8
  lalt :: u8
  ralt :: u8
  cap_out :: u8

text \<open>\<open>tty_table[0]\<close>, the only terminal; \<open>write_fn\<close> tells whether \<open>tty_init\<close> has set the pointer
  \<open>write\<close> to \<open>con_write\<close> (it is null before).\<close>

record tty_kern = kern +
  write_fn :: bool
  tty_flags :: u32
  read_q :: tty_queue
  write_q :: tty_queue
  buffer :: tty_queue
  con :: console
  kbd :: keyboard

datatype tty_q = Read_q | Write_q | Buffer

fun get_q :: "tty_q \<Rightarrow> 'a tty_kern_scheme \<Rightarrow> tty_queue" where
  "get_q Read_q s = read_q s"
| "get_q Write_q s = write_q s"
| "get_q Buffer s = buffer s"

fun set_q :: "tty_q \<Rightarrow> tty_queue \<Rightarrow> 'a tty_kern_scheme \<Rightarrow> 'a tty_kern_scheme" where
  "set_q Read_q q s = s\<lparr>read_q := q\<rparr>"
| "set_q Write_q q s = s\<lparr>write_q := q\<rparr>"
| "set_q Buffer q s = s\<lparr>buffer := q\<rparr>"

definition TTY_ECHO :: u32 where
  "TTY_ECHO = 1"

section \<open>Operations\<close>

text \<open>The loop of \<open>sleep_if_empty\<close>.\<close>

partial_function (option) wait_nonempty ::
    "'a tty_kern_ext env \<Rightarrow> tty_q \<Rightarrow> 'a tty_kern_scheme \<Rightarrow> (kerror + 'a tty_kern_scheme) option" where
  "wait_nonempty others q s =
     (if signal (tstruct s (current s)) = 0 \<and> tty_isempty_q (get_q q s) then
        let r = interruptible_sleep_on others (wait_proc (get_q q s)) s in
        if isl r then Some r else wait_nonempty others q (projr r)
      else Some (Inr s))"

definition sleep_if_empty :: "'a tty_kern_ext env \<Rightarrow> tty_q \<Rightarrow> 'a tty_kern_scheme \<Rightarrow> kerror + 'a tty_kern_scheme" where
  "sleep_if_empty others q s = (case wait_nonempty others q s of None \<Rightarrow> Inl Hang | Some r \<Rightarrow> r)"

text \<open>The loop of \<open>sleep_if_full\<close>.\<close>

partial_function (option) wait_not_full ::
    "'a tty_kern_ext env \<Rightarrow> tty_q \<Rightarrow> 'a tty_kern_scheme \<Rightarrow> (kerror + 'a tty_kern_scheme) option" where
  "wait_not_full others q s =
     (if signal (tstruct s (current s)) = 0 \<and> tty_isfull_q (get_q q s) then
        let r = interruptible_sleep_on others (wait_proc (get_q q s)) s in
        if isl r then Some r else wait_not_full others q (projr r)
      else Some (Inr s))"

definition sleep_if_full :: "'a tty_kern_ext env \<Rightarrow> tty_q \<Rightarrow> 'a tty_kern_scheme \<Rightarrow> kerror + 'a tty_kern_scheme" where
  "sleep_if_full others q s = (case wait_not_full others q s of None \<Rightarrow> Inl Hang | Some r \<Rightarrow> r)"

definition tty_pop_q :: "'a tty_kern_ext env \<Rightarrow> tty_q \<Rightarrow> 'a tty_kern_scheme \<Rightarrow> kerror + u8 \<times> 'a tty_kern_scheme" where
  "tty_pop_q others q s =
     kbind (sleep_if_empty others q s) (\<lambda>s1.
       case take_char (get_q q s1) of (ch, q1) \<Rightarrow> Inr (ch, set_q q q1 s1))"

definition push_q :: "tty_q \<Rightarrow> u8 \<Rightarrow> 'a tty_kern_scheme \<Rightarrow> 'a tty_kern_scheme" where
  "push_q q ch s = set_q q (snd (tty_push_q (get_q q s) ch)) s"

definition push_q_front :: "tty_q \<Rightarrow> u8 \<Rightarrow> 'a tty_kern_scheme \<Rightarrow> 'a tty_kern_scheme" where
  "push_q_front q ch s = set_q q (snd (tty_push_q_front (get_q q s) ch)) s"

partial_function (option) con_drain ::
    "'a tty_kern_ext env \<Rightarrow> 'a tty_kern_scheme \<Rightarrow> (kerror + 'a tty_kern_scheme) option" where
  "con_drain others s =
     (if tty_isempty_q (write_q s) then Some (Inr s)
      else
        let r = tty_pop_q others Write_q s in
        if isl r then Some (Inl (projl r))
        else con_drain others ((snd (projr r))\<lparr>con := video_putchar (fst (projr r)) (con (snd (projr r)))\<rparr>))"

definition con_write :: "'a tty_kern_ext env \<Rightarrow> 'a tty_kern_scheme \<Rightarrow> kerror + 'a tty_kern_scheme" where
  "con_write others s = (case con_drain others s of None \<Rightarrow> Inl Hang | Some r \<Rightarrow> r)"

definition tty_write :: "'a tty_kern_ext env \<Rightarrow> 'a tty_kern_scheme \<Rightarrow> kerror + 'a tty_kern_scheme" where
  "tty_write others s = (if write_fn s then con_write others s else Inl Null_deref)"

text \<open>The body of the loop of \<open>copy_to_buffer\<close>, for the character \<open>ch\<close> it popped.\<close>

definition copy_char :: "'a tty_kern_ext env \<Rightarrow> u8 \<Rightarrow> 'a tty_kern_scheme \<Rightarrow> kerror + 'a tty_kern_scheme" where
  "copy_char others ch s =
     (let echo = (\<lambda>s. if tty_flags s OR TTY_ECHO \<noteq> 0 then tty_write others (push_q Write_q ch s) else Inr s) in
      if ch = 8 then
        if \<not> tty_isempty_q (buffer s) then
          if tty_queue_tail (buffer s) = 10 then Inr s
          else echo (s\<lparr>buffer := (buffer s)\<lparr>tail := (tail (buffer s) - 1) mod TTY_BUF_SIZE\<rparr>\<rparr>)
        else Inr s
      else if ch = -1 \<or> ch = 10 then
        let s1 = push_q Buffer ch s in echo (wake_up (wait_proc (buffer s1)) s1)
      else echo (if \<not> tty_isfull_q (buffer s) then push_q Buffer ch s else s))"

partial_function (option) copy_loop ::
    "'a tty_kern_ext env \<Rightarrow> 'a tty_kern_scheme \<Rightarrow> (kerror + 'a tty_kern_scheme) option" where
  "copy_loop others s =
     (if tty_isempty_q (read_q s) then Some (Inr s)
      else
        let r = kbind (tty_pop_q others Read_q s) (\<lambda>(ch, s1). copy_char others ch s1) in
        if isl r then Some r else copy_loop others (projr r))"

definition copy_to_buffer :: "'a tty_kern_ext env \<Rightarrow> 'a tty_kern_scheme \<Rightarrow> kerror + 'a tty_kern_scheme" where
  "copy_to_buffer others s = (case copy_loop others s of None \<Rightarrow> Inl Hang | Some r \<Rightarrow> r)"

text \<open>The inner loop of \<open>tty_read\<close>, up to its \<open>break\<close>: the next address, the characters read, how
  many are still wanted, and the characters set aside in \<open>tmpbuf\<close>.\<close>

partial_function (option) read_line ::
    "'a tty_kern_ext env \<Rightarrow> u32 \<Rightarrow> u32 \<Rightarrow> u32 \<Rightarrow> u8 list \<Rightarrow> 'a tty_kern_scheme \<Rightarrow>
     (kerror + u32 \<times> u32 \<times> u32 \<times> u8 list \<times> 'a tty_kern_scheme) option" where
  "read_line others p len nr tmp s =
     (let r = tty_pop_q others Buffer s in
      if isl r then Some (Inl (projl r))
      else
        let ch = fst (projr r); s1 = snd (projr r) in
        if nr \<le>s 0 then
          if 1024 \<le> length tmp then Some (Inl Out_of_bounds)
          else if ch = 10 \<or> ch = -1
          then Some (Inr (p, len, nr, tmp @ [ch], fold (push_q_front Buffer) (rev (tmp @ [ch])) s1))
          else read_line others p len nr (tmp @ [ch]) s1
        else
          let r2 = put_fs_byte ch p s1 in
          if isl r2 then Some (Inl (projl r2))
          else if ch = 10 \<or> ch = -1 then Some (Inr (p + 1, len + 1, nr - 1, tmp, projr r2))
          else read_line others (p + 1) (len + 1) (nr - 1) tmp (projr r2))"

partial_function (option) read_lines ::
    "'a tty_kern_ext env \<Rightarrow> u32 \<Rightarrow> u32 \<Rightarrow> u32 \<Rightarrow> u8 list \<Rightarrow> 'a tty_kern_scheme \<Rightarrow>
     (kerror + u32 \<times> 'a tty_kern_scheme) option" where
  "read_lines others p len nr tmp s =
     (case read_line others p len nr tmp s of
        None \<Rightarrow> None
      | Some r \<Rightarrow>
          if isl r then Some (Inl (projl r))
          else
            let p1 = fst (projr r); len1 = fst (snd (projr r)); nr1 = fst (snd (snd (projr r)));
                tmp1 = fst (snd (snd (snd (projr r)))); s1 = snd (snd (snd (snd (projr r)))) in
            if nr1 \<le>s 0 then Some (Inr (len1, s1)) else read_lines others p1 len1 nr1 tmp1 s1)"

definition tty_read :: "'a tty_kern_ext env \<Rightarrow> u32 \<Rightarrow> u32 \<Rightarrow> u32 \<Rightarrow> 'a tty_kern_scheme \<Rightarrow>
    kerror + u32 \<times> 'a tty_kern_scheme" where
  "tty_read others channel dst nr s =
     (if nr <s 0 then Inr (-1, s)
      else case read_lines others dst 0 nr [] s of None \<Rightarrow> Inl Hang | Some r \<Rightarrow> r)"

text \<open>The loop of \<open>_user_tty_write\<close>, over \<open>n\<close> characters from \<open>a\<close> on.\<close>

fun push_user :: "nat \<Rightarrow> u32 \<Rightarrow> 'a tty_kern_scheme \<Rightarrow> kerror + 'a tty_kern_scheme" where
  "push_user 0 a s = Inr s"
| "push_user (Suc n) a s =
     kbind (get_fs_byte a s) (\<lambda>(c, s1). push_user n (a + 1) (push_q Write_q c s1))"

definition user_tty_write :: "'a tty_kern_ext env \<Rightarrow> u32 \<Rightarrow> u32 \<Rightarrow> u32 \<Rightarrow> 'a tty_kern_scheme \<Rightarrow>
    kerror + u32 \<times> 'a tty_kern_scheme" where
  "user_tty_write others channel src nr s =
     kbind (push_user (if 0 <s nr then unat nr else 0) src s) (\<lambda>s1.
     kbind (tty_write others s1) (\<lambda>s2. Inr (nr, s2)))"

text \<open>kernel/printk.c. The text is built in \<open>buf\<close>, 1024 zero bytes, without a check of its
  length: a longer text is written past the end, and when it fills \<open>buf\<close> without a zero
  byte, the loop over it reads past the end.\<close>

definition printk :: "'a tty_kern_ext env \<Rightarrow> (u32 \<Rightarrow> u8 list) \<Rightarrow> u8 list \<Rightarrow> u32 list \<Rightarrow> 'a tty_kern_scheme \<Rightarrow>
    kerror + 'a tty_kern_scheme" where
  "printk others text_at fmt args s =
     kbind (vsprintf text_at fmt args) (\<lambda>out.
       if 1024 < length out \<or> (length out = 1024 \<and> 0 \<notin> set out) then Inl Out_of_bounds
       else tty_write others (fold (push_q Write_q) (takeWhile (\<lambda>c. c \<noteq> 0) out) s))"

text \<open>kernel/chr_drv/do_keyboard.c\<close>

definition scancode_table :: "u8 list" where
  "scancode_table = map of_char (''..1234567890-='' @ [CHR 0x08] @ ''.qwertyuiop[]'' @ [CHR 0x0A] @ ''.asdfghjkl;'' @
     [CHR 0x27, CHR 0x60, CHR 0x2E, CHR 0x5C] @ ''zxcvbnm,./.*. .............7894561230......'') @ [0]"

definition shift_scancode_table :: "u8 list" where
  "shift_scancode_table = map of_char (''..!@#$%^&*()_+'' @ [CHR 0x08] @ ''.QWERTYUIOP{}'' @ [CHR 0x0A] @ ''.ASDFGHJKL:'' @
     [CHR 0x22, CHR 0x7E, CHR 0x2E, CHR 0x7C] @ ''ZXCVBNM<>?.*. .............7894561230......'') @ [0]"

definition toupper :: "u8 \<Rightarrow> u8" where
  "toupper ch = (if 97 \<le>s ch \<and> ch \<le>s 122 then ch - 97 + 65 else ch)"

text \<open>The character of a key that is pressed.\<close>

definition key_char :: "u16 \<Rightarrow> keyboard \<Rightarrow> kerror + u8" where
  "key_char scancode k =
     (let upper = (\<lambda>ch. if cap_out k \<noteq> 0 then toupper ch else ch) in
      if lshift k \<noteq> 0 \<or> rshift k \<noteq> 0 then
        if unat scancode < length shift_scancode_table then Inr (upper (shift_scancode_table ! unat scancode)) else Inl Out_of_bounds
      else if lctrl k \<noteq> 0 \<or> rctrl k \<noteq> 0 then Inr 32
      else if lalt k \<noteq> 0 \<or> ralt k \<noteq> 0 then Inr 32
      else if unat scancode < length scancode_table then Inr (upper (scancode_table ! unat scancode)) else Inl Out_of_bounds)"

definition do_keyboard_interrupt :: "'a tty_kern_ext env \<Rightarrow> u16 \<Rightarrow> 'a tty_kern_scheme \<Rightarrow> kerror + 'a tty_kern_scheme" where
  "do_keyboard_interrupt others scancode s =
     (let k = kbd s in
      if scancode AND 0x80 \<noteq> 0 then
        let k = (if scancode = 0x9D then k\<lparr>lctrl := 0\<rparr> else k);
            k = (if scancode = 0xB8 then k\<lparr>lalt := 0\<rparr> else k);
            k = (if scancode = 0xAA then k\<lparr>lshift := 0\<rparr> else k) in
        Inr (s\<lparr>kbd := k\<rparr>)
      else if scancode = 0x1D then Inr (s\<lparr>kbd := k\<lparr>lctrl := 1\<rparr>\<rparr>)
      else if scancode = 0x38 then Inr (s\<lparr>kbd := k\<lparr>lalt := 1\<rparr>\<rparr>)
      else if scancode = 0x2A then Inr (s\<lparr>kbd := k\<lparr>lshift := 1\<rparr>\<rparr>)
      else if scancode = 0x3A then Inr (s\<lparr>kbd := k\<lparr>caps := if caps k = 0 then 1 else 0\<rparr>\<rparr>)
      else
        let shift = (lshift k \<noteq> 0 \<or> rshift k \<noteq> 0);
            k1 = k\<lparr>cap_out := if (if caps k \<noteq> 0 then \<not> shift else shift) then 1 else 0\<rparr> in
        kbind (key_char scancode k1) (\<lambda>ch. copy_to_buffer others (push_q Read_q ch (s\<lparr>kbd := k1\<rparr>))))"

text \<open>The interrupt handler of kernel/chr_drv/keyboard.s: it takes the scan code from the keyboard
  controller and acknowledges the interrupt first.\<close>

definition keyboard_interrupt :: "((u32 \<times> u8) list \<Rightarrow> u32 \<Rightarrow> u8) \<Rightarrow> 'a tty_kern_ext env \<Rightarrow> 'a tty_kern_scheme \<Rightarrow> kerror + 'a tty_kern_scheme" where
  "keyboard_interrupt inb others s =
     (let scancode = inb (outs s) 0x60 in do_keyboard_interrupt others (ucast scancode) (port_out 0x20 0x20 s))"

text \<open>The start of the terminal. The address of \<open>keyboard_interrupt\<close> is set by the linker.\<close>

definition con_init :: "((u32 \<times> u8) list \<Rightarrow> u32 \<Rightarrow> u8) \<Rightarrow> u32 \<Rightarrow> 'a tty_kern_scheme \<Rightarrow> 'a tty_kern_scheme" where
  "con_init inb keyboard_entry s =
     (let s1 = s\<lparr>idt := set_trap_gate 0x21 keyboard_entry (idt s), con := video_init (con s)\<rparr>;
          s2 = port_out 0x21 (inb (outs s1) 0x21 AND 0xfd) s1;
          a = inb (outs s2) 0x61 in
      port_out 0x61 a (port_out 0x61 (a OR 0x80) s2))"

definition tty_init :: "((u32 \<times> u8) list \<Rightarrow> u32 \<Rightarrow> u8) \<Rightarrow> u32 \<Rightarrow> 'a tty_kern_scheme \<Rightarrow> 'a tty_kern_scheme" where
  "tty_init inb keyboard_entry s = con_init inb keyboard_entry (s\<lparr>write_fn := True\<rparr>)"

section \<open>Draining the output queue\<close>

lemma sleep_if_nonempty: "\<not> tty_isempty_q (get_q q s) \<Longrightarrow> sleep_if_empty others q s = Inr s"
  by (subst sleep_if_empty_def, subst wait_nonempty.simps) simp

text \<open>A task comes back from either sleep when a signal waits for it, or the queue is as it should be.\<close>

lemma wait_nonempty_result:
  assumes "wait_nonempty others q s = Some (Inr s')"
  shows "signal (tstruct s' (current s')) \<noteq> 0 \<or> \<not> tty_isempty_q (get_q q s')"
proof -
  have "\<forall>s'. r = Inr s' \<longrightarrow> signal (tstruct s' (current s')) \<noteq> 0 \<or> \<not> tty_isempty_q (get_q q s')" if "wait_nonempty others q s = Some r" for r
    by (rule wait_nonempty.raw_induct [where P = "\<lambda>others q s r. \<forall>s'. r = Inr s' \<longrightarrow> signal (tstruct s' (current s')) \<noteq> 0 \<or>
        \<not> tty_isempty_q (get_q q s')", OF _ that]) (auto simp: Let_def split: if_splits)
  with assms show ?thesis by blast
qed

lemma wait_not_full_result:
  assumes "wait_not_full others q s = Some (Inr s')"
  shows "signal (tstruct s' (current s')) \<noteq> 0 \<or> \<not> tty_isfull_q (get_q q s')"
proof -
  have "\<forall>s'. r = Inr s' \<longrightarrow> signal (tstruct s' (current s')) \<noteq> 0 \<or> \<not> tty_isfull_q (get_q q s')" if "wait_not_full others q s = Some r" for r
    by (rule wait_not_full.raw_induct [where P = "\<lambda>others q s r. \<forall>s'. r = Inr s' \<longrightarrow> signal (tstruct s' (current s')) \<noteq> 0 \<or>
        \<not> tty_isfull_q (get_q q s')", OF _ that]) (auto simp: Let_def split: if_splits)
  with assms show ?thesis by blast
qed

lemma sleep_if_empty_result:
  "sleep_if_empty others q s = Inr s' \<Longrightarrow> signal (tstruct s' (current s')) \<noteq> 0 \<or> \<not> tty_isempty_q (get_q q s')"
  by (auto simp: sleep_if_empty_def dest: wait_nonempty_result split: option.splits)

lemma sleep_if_full_result:
  "sleep_if_full others q s = Inr s' \<Longrightarrow> signal (tstruct s' (current s')) \<noteq> 0 \<or> \<not> tty_isfull_q (get_q q s')"
  by (auto simp: sleep_if_full_def dest: wait_not_full_result split: option.splits)

lemma pop_char:
  assumes "queue_ok (get_q q s)" "chars (get_q q s) = ch # cs"
  shows "\<exists>q'. tty_pop_q others q s = Inr (ch, set_q q q' s) \<and> queue_ok q' \<and> chars q' = cs \<and>
    wait_proc q' = wait_proc (get_q q s) \<and> tail q' = tail (get_q q s) \<and>
    q'\<lparr>head := tail q'\<rparr> = (get_q q s)\<lparr>head := tail (get_q q s)\<rparr>"
proof -
  have ne: "\<not> tty_isempty_q (get_q q s)" using ring.empty [OF assms(1)] assms(2) by simp
  have p: "tty_pop_q others q s = Inr (ch, set_q q (snd (take_char (get_q q s))) s)"
    using ring.pop [OF assms] sleep_if_nonempty [OF ne] by (simp add: tty_pop_q_def case_prod_beta)
  have "wait_proc (snd (take_char (get_q q s))) = wait_proc (get_q q s)" "tail (snd (take_char (get_q q s))) = tail (get_q q s)"
    "(snd (take_char (get_q q s)))\<lparr>head := tail (snd (take_char (get_q q s)))\<rparr> = (get_q q s)\<lparr>head := tail (get_q q s)\<rparr>"
    by (simp_all add: take_char_def)
  then show ?thesis using p ring.pop [OF assms] by blast
qed

definition emptied :: "tty_queue \<Rightarrow> tty_queue" where
  "emptied q = q\<lparr>head := tail q\<rparr>"

lemma emptied_ok: "queue_ok q \<Longrightarrow> queue_ok (emptied q) \<and> chars (emptied q) = []"
  by (simp add: emptied_def queue_ok_def chars_def used_def)

lemma con_drain_eq:
  "queue_ok (write_q s) \<Longrightarrow> chars (write_q s) = cs \<Longrightarrow>
     con_drain others s = Some (Inr (s\<lparr>write_q := emptied (write_q s), con := fold video_putchar cs (con s)\<rparr>))"
proof (induction cs arbitrary: s)
  case Nil
  then have "head (write_q s) = tail (write_q s)" using ring.empty [of "write_q s"] by (simp add: tty_isempty_q_def)
  then show ?case by (subst con_drain.simps) (simp add: tty_isempty_q_def emptied_def)
next
  case (Cons ch cs)
  obtain q' where q: "tty_pop_q others Write_q s = Inr (ch, s\<lparr>write_q := q'\<rparr>)" "queue_ok q'" "chars q' = cs"
    "q'\<lparr>head := tail q'\<rparr> = (write_q s)\<lparr>head := tail (write_q s)\<rparr>"
    using pop_char [of Write_q s ch cs] Cons.prems by auto
  have "\<not> tty_isempty_q (write_q s)" using ring.empty [OF Cons.prems(1)] Cons.prems(2) by simp
  then have "con_drain others s = con_drain others (s\<lparr>write_q := q', con := video_putchar ch (con s)\<rparr>)"
    by (subst con_drain.simps) (simp add: q(1))
  also have "\<dots> = Some (Inr (s\<lparr>write_q := emptied (write_q s), con := fold video_putchar (ch # cs) (con s)\<rparr>))"
    using Cons.IH [of "s\<lparr>write_q := q', con := video_putchar ch (con s)\<rparr>"] q(2-4) by (simp add: emptied_def)
  finally show ?case .
qed

lemma tty_write_eq:
  assumes "write_fn s" "queue_ok (write_q s)"
  shows "tty_write others s =
    Inr (s\<lparr>write_q := emptied (write_q s), con := fold video_putchar (chars (write_q s)) (con s)\<rparr>)"
  using assms by (simp add: tty_write_def con_write_def con_drain_eq)

section \<open>Output of a task\<close>

lemma tty_mem [simp]:
  fixes s :: "'a tty_kern_scheme"
  shows "walk (s\<lparr>write_q := q\<rparr>) = walk s" "load_byte y (s\<lparr>write_q := q\<rparr>) = load_byte y s"
    "walk (s\<lparr>buffer := q\<rparr>) = walk s" "load_byte y (s\<lparr>buffer := q\<rparr>) = load_byte y s"
    "user_ok own (s\<lparr>buffer := q\<rparr>) = user_ok own s" "user_page (s\<lparr>buffer := q\<rparr>) y = user_page s y"
    "private_page (s\<lparr>buffer := q\<rparr>) y = private_page s y"
  by (rule user_mem_cong; simp)+

lemma get_fs_byte_present:
  fixes s :: "'a kern_scheme"
  assumes "walk s (data_base s + a) \<noteq> None" "unat a < unat (get_limit (ldt (tstruct s (current s)) 2) - 1) + 1"
  shows "get_fs_byte a s = Inr (load_byte (data_base s + a) s, s)"
  using assms by (auto simp: get_fs_byte_def fs_linear_def touch_def Let_def)

lemma push_user_eq:
  fixes s :: "'a tty_kern_scheme"
  assumes "unat a + n \<le> unat (get_limit (ldt (tstruct s (current s)) 2) - 1) + 1"
    and "\<And>k. k < n \<Longrightarrow> walk s (data_base s + a + of_nat k) \<noteq> None"
  shows "push_user n a s = Inr (s\<lparr>write_q := fold (\<lambda>x q. snd (tty_push_q q x))
    (map (\<lambda>k. load_byte (data_base s + a + of_nat k) s) [0..<n]) (write_q s)\<rparr>)"
  using assms
proof (induction n arbitrary: a s)
  case (Suc n)
  let ?s = "push_q Write_q (load_byte (data_base s + a) s) s"
  have g: "get_fs_byte a s = Inr (load_byte (data_base s + a) s, s)"
    using Suc.prems(2) [of 0] Suc.prems(1) by (intro get_fs_byte_present) simp_all
  have a: "unat (a + 1) \<le> unat a + 1" by (simp add: unat_word_ariths)
  have w: "walk s (data_base s + (a + 1) + of_nat k) \<noteq> None" if "k < n" for k
    using Suc.prems(2) [of "Suc k"] that by (simp add: algebra_simps)
  have m: "map f [0..<Suc n] = f 0 # map (\<lambda>k. f (Suc k)) [0..<n]" for f :: "nat \<Rightarrow> u8"
    by (simp add: upt_conv_Cons map_Suc_upt [symmetric] del: upt_Suc)
  have "push_user n (a + 1) ?s = Inr (?s\<lparr>write_q := fold (\<lambda>x q. snd (tty_push_q q x))
    (map (\<lambda>k. load_byte (data_base ?s + (a + 1) + of_nat k) ?s) [0..<n]) (write_q ?s)\<rparr>)"
    using Suc.prems(1) a w by (intro Suc.IH) (simp_all add: push_q_def)
  then show ?case using g by (simp add: push_q_def m algebra_simps del: upt_Suc)
qed simp

text \<open>What a task writes to the terminal. The call takes the bytes at the given address of
  the task's memory, behind what the queue still held, and prints them on the console through
  the text model of C35; it leaves the queue empty and nothing else changed. It always
  returns the length asked for, also when the bytes past the 1023 that fit were dropped.\<close>

theorem user_tty_write_prints:
  fixes s :: "'a tty_kern_scheme" and src nr :: u32
  defines "bytes \<equiv> map (\<lambda>k. load_byte (data_base s + src + of_nat k) s) [0..<unat nr]"
  defines "printed \<equiv> chars (write_q s) @ take (1023 - length (chars (write_q s))) bytes"
  assumes "write_fn s" and "queue_ok (write_q s)" and "con_ok (con s)" and "\<not> nr <s 0"
    and "unat src + unat nr \<le> unat (get_limit (ldt (tstruct s (current s)) 2) - 1) + 1"
    and "\<forall>k < unat nr. walk s (data_base s + src + of_nat k) \<noteq> None"
  shows "\<exists>q c. user_tty_write others channel src nr s = Inr (nr, s\<lparr>write_q := q, con := c\<rparr>) \<and>
    queue_ok q \<and> chars q = [] \<and> con_ok c \<and> text_of c = fold print_text printed (text_of (con s))"
proof -
  define q where "q = fold (\<lambda>x q. snd (tty_push_q q x)) bytes (write_q s)"
  have n: "(if 0 <s nr then unat nr else 0) = unat nr"
    using assms(6) by (auto simp: word_sless_alt sint_0_iff)
  have p: "push_user (unat nr) src s = Inr (s\<lparr>write_q := q\<rparr>)"
    unfolding q_def bytes_def by (rule push_user_eq) (use assms(7,8) in auto)
  have q: "queue_ok q \<and> chars q = printed"
    using ring.push_all [OF assms(4), of bytes] by (simp only: q_def printed_def)
  then have w: "tty_write others (s\<lparr>write_q := q\<rparr>) = Inr (s\<lparr>write_q := emptied q, con := fold video_putchar printed (con s)\<rparr>)"
    using tty_write_eq [of "s\<lparr>write_q := q\<rparr>" others] assms(3) by simp
  have "user_tty_write others channel src nr s = Inr (nr, s\<lparr>write_q := emptied q, con := fold video_putchar printed (con s)\<rparr>)"
    by (simp add: user_tty_write_def n p w)
  then show ?thesis using emptied_ok [of q] q video_putchar_texts [OF assms(5), of printed] by blast
qed

text \<open>A terminal with empty queues, for the task of \<open>signal_kern\<close>.\<close>

definition queue_of :: "u32 \<Rightarrow> u8 list \<Rightarrow> tty_queue" where
  "queue_of p cs = \<lparr>buf = cs @ replicate (1024 - length cs) 0, wait_proc = p, head = 0, tail = of_nat (length cs)\<rparr>"

definition terminal :: "u8 list \<Rightarrow> keyboard \<Rightarrow> tty_kern" where
  "terminal cs k = kern.extend signal_kern (tty_kern.fields True TTY_ECHO (queue_of 0x5000 []) (queue_of 0x5800 [])
     (queue_of 0x6000 cs) \<lparr>video_x = 79, video_y = 24, video_buffer = (\<lambda>_. 32), ports = []\<rparr> k)"

lemma terminal_simps [simp]:
  "HIGH_MEMORY (terminal cs k) = HIGH_MEMORY signal_kern" "mem_map (terminal cs k) = mem_map signal_kern"
  "phys (terminal cs k) = phys signal_kern" "current (terminal cs k) = current signal_kern"
  "tstruct (terminal cs k) = tstruct signal_kern" "write_fn (terminal cs k)" "read_q (terminal cs k) = queue_of 0x5000 []"
  "write_q (terminal cs k) = queue_of 0x5800 []" "buffer (terminal cs k) = queue_of 0x6000 cs" "kbd (terminal cs k) = k"
  "con (terminal cs k) = \<lparr>video_x = 79, video_y = 24, video_buffer = (\<lambda>_. 32), ports = []\<rparr>"
  "cell (terminal cs k) = cell signal_kern" "init_task (terminal cs k) = init_task signal_kern"
  by (simp_all add: terminal_def kern.defs tty_kern.defs)

lemmas terminal_mem = user_mem_cong [OF terminal_simps(1-3)]

lemma queue_of_ok:
  assumes "length cs < 1024"
  shows "queue_ok (queue_of p cs)" "chars (queue_of p cs) = cs"
proof -
  have u: "unat (of_nat (length cs) :: u32) = length cs" using assms by (simp add: unat_of_nat_u32)
  with assms show "queue_ok (queue_of p cs)" by (simp add: queue_ok_def queue_of_def)
  have "used (queue_of p cs) = length cs" using assms u by (simp add: used_def queue_of_def)
  then show "chars (queue_of p cs) = cs"
    using assms by (auto simp: chars_def queue_of_def nth_append intro!: nth_equalityI)
qed

lemma terminal_con [simp]: "con_ok \<lparr>video_x = 79, video_y = 24, video_buffer = (\<lambda>_. 32), ports = []\<rparr>"
  by (simp add: con_ok_def)

definition no_keys :: keyboard where
  "no_keys = \<lparr>caps = 0, lshift = 0, rshift = 0, lctrl = 0, rctrl = 0, lalt = 0, ralt = 0, cap_out = 0\<rparr>"

theorem user_tty_write_prints_witness:
  "\<exists>s'. user_tty_write Inr 0 0x2000 2 (terminal [] no_keys) = Inr (2, s') \<and> chars (write_q s') = []"
proof -
  let ?s = "terminal [] no_keys"
  have w: "walk ?s (data_base ?s + 0x2000 + of_nat j) \<noteq> None" if "j < unat (2 :: u32)" for j
    using signal_kern_page(1) [of j] that by (simp add: terminal_mem(5) signal_kern_simps algebra_simps)
  have "\<exists>q c. user_tty_write Inr 0 0x2000 2 ?s = Inr (2, ?s\<lparr>write_q := q, con := c\<rparr>) \<and>
    queue_ok q \<and> chars q = [] \<and> con_ok c \<and>
    text_of c = fold print_text (chars (write_q ?s) @ take (1023 - length (chars (write_q ?s)))
      (map (\<lambda>k. load_byte (data_base ?s + 0x2000 + of_nat k) ?s) [0..<unat (2 :: u32)])) (text_of (con ?s))"
    by (rule user_tty_write_prints) (use w queue_of_ok(1) [of "[]" "0x5800"] in \<open>simp_all add: signal_kern_simps word_sless_alt\<close>)
  then show ?thesis by fastforce
qed

section \<open>Keys\<close>

text \<open>The terminal between two interrupts.\<close>

definition tty_idle :: "'a tty_kern_scheme \<Rightarrow> bool" where
  "tty_idle s \<longleftrightarrow> write_fn s \<and> queue_ok (read_q s) \<and> chars (read_q s) = [] \<and> queue_ok (write_q s) \<and>
     chars (write_q s) = [] \<and> queue_ok (buffer s) \<and> con_ok (con s)"

text \<open>The character a key stands for: with a shift key that of the second table, whatever Caps
  Lock says; with Control or Alt a blank; else that of the first table, as a capital under Caps Lock.\<close>

definition key_meaning :: "u16 \<Rightarrow> keyboard \<Rightarrow> u8" where
  "key_meaning scancode k =
     (if lshift k \<noteq> 0 \<or> rshift k \<noteq> 0 then shift_scancode_table ! unat scancode
      else if lctrl k \<noteq> 0 \<or> rctrl k \<noteq> 0 \<or> lalt k \<noteq> 0 \<or> ralt k \<noteq> 0 then 32
      else if caps k \<noteq> 0 then toupper (scancode_table ! unat scancode) else scancode_table ! unat scancode)"

lemma length_tables: "length scancode_table = 88" "length shift_scancode_table = 88"
  by (simp_all add: scancode_table_def shift_scancode_table_def)

lemma toupper_shifted: "n < 88 \<Longrightarrow> toupper (shift_scancode_table ! n) = shift_scancode_table ! n"
proof -
  have "list_all (\<lambda>c. toupper c = c) shift_scancode_table"
    by (simp add: shift_scancode_table_def toupper_def word_sle_eq)
  then show "n < 88 \<Longrightarrow> toupper (shift_scancode_table ! n) = shift_scancode_table ! n"
    by (simp add: list_all_length length_tables)
qed

lemma key_char_meaning:
  assumes "unat scancode < 88"
  shows "key_char scancode (k\<lparr>cap_out := if (if caps k \<noteq> 0 then \<not> (lshift k \<noteq> 0 \<or> rshift k \<noteq> 0)
    else (lshift k \<noteq> 0 \<or> rshift k \<noteq> 0)) then 1 else 0\<rparr>) = Inr (key_meaning scancode k)"
  using assms toupper_shifted [OF assms]
  by (auto simp: key_char_def key_meaning_def Let_def length_tables)

lemma wake_up_tty [simp]:
  "wake_up p (s\<lparr>buffer := b\<rparr>) = (wake_up p s)\<lparr>buffer := b\<rparr>" "wake_up p (s\<lparr>read_q := r\<rparr>) = (wake_up p s)\<lparr>read_q := r\<rparr>"
  "wake_up p (s\<lparr>kbd := k\<rparr>) = (wake_up p s)\<lparr>kbd := k\<rparr>" "buffer (wake_up p s) = buffer s" "write_q (wake_up p s) = write_q s"
  "read_q (wake_up p s) = read_q s" "con (wake_up p s) = con s" "kbd (wake_up p s) = kbd s" "write_fn (wake_up p s) = write_fn s"
  for s :: "'a tty_kern_scheme"
  by (simp_all add: wake_up_def set_cell_def upd_task_def)

lemma push_wait_proc [simp]: "wait_proc (snd (tty_push_q q ch)) = wait_proc q"
  by (simp add: tty_push_q_def)

lemma echo_on [simp]: "x OR TTY_ECHO \<noteq> 0"
proof
  assume "x OR TTY_ECHO = 0"
  then have "bit (x OR TTY_ECHO) 0 = bit (0 :: u32) 0" by (rule arg_cong)
  then show False by (simp add: TTY_ECHO_def bit_simps)
qed

text \<open>What the body of \<open>copy_to_buffer\<close> makes of a character: the lines typed so far, and whether it is echoed.\<close>

definition edited :: "u8 \<Rightarrow> tty_queue \<Rightarrow> tty_queue" where
  "edited ch b =
     (if ch = 8 then
        if chars b = [] \<or> tty_queue_tail b = 10 then b else b\<lparr>tail := (tail b - 1) mod TTY_BUF_SIZE\<rparr>
      else snd (tty_push_q b ch))"

definition refused :: "u8 \<Rightarrow> tty_queue \<Rightarrow> bool" where
  "refused ch b \<longleftrightarrow> ch = 8 \<and> (chars b = [] \<or> tty_queue_tail b = 10)"

lemma edited_ok:
  assumes "queue_ok b"
  shows "queue_ok (edited ch b) \<and> chars (edited ch b) =
    (if ch = 8 then if refused ch b then chars b else butlast (chars b) else take 1023 (chars b @ [ch]))"
  using assms chars_untail [of b] ring.push_step [of b ch] ring.bounded [of b]
  by (simp add: edited_def refused_def)

lemma echo_eq:
  assumes "write_fn s" "queue_ok q" "chars q = []"
  shows "tty_write others (s\<lparr>write_q := snd (tty_push_q q ch)\<rparr>) =
    Inr (s\<lparr>write_q := emptied (snd (tty_push_q q ch)), con := video_putchar ch (con s)\<rparr>)"
  using tty_write_eq [of "s\<lparr>write_q := snd (tty_push_q q ch)\<rparr>" others] ring.push_step [OF assms(2), of ch] assms by simp

lemma copy_char_eq:
  assumes "write_fn s" "queue_ok (write_q s)" "chars (write_q s) = []" "queue_ok (buffer s)"
  shows "copy_char others ch s =
    (let s1 = (if ch = 10 \<or> ch = -1 then wake_up (wait_proc (buffer s)) s else s)\<lparr>buffer := edited ch (buffer s)\<rparr> in
     if refused ch (buffer s) then Inr s1
     else Inr (s1\<lparr>write_q := emptied (snd (tty_push_q (write_q s) ch)), con := video_putchar ch (con s)\<rparr>))"
proof -
  note e = ring.empty [OF assms(4)] ring.full [OF assms(4)] ring.push_full [of "buffer s"]
  have "(if \<not> tty_isfull_q (buffer s) then push_q Buffer ch s else s) = s\<lparr>buffer := snd (tty_push_q (buffer s) ch)\<rparr>"
    using e by (simp add: push_q_def)
  then show ?thesis
    using assms e by (auto simp: copy_char_def Let_def echo_eq edited_def refused_def push_q_def)
qed

lemma copy_one:
  assumes "queue_ok (read_q s)" "chars (read_q s) = [ch]" "write_fn s" "queue_ok (write_q s)" "chars (write_q s) = []"
    and "queue_ok (buffer s)"
  shows "\<exists>r w. queue_ok r \<and> chars r = [] \<and> queue_ok w \<and> chars w = [] \<and> copy_to_buffer others s =
    Inr ((if ch = 10 \<or> ch = -1 then wake_up (wait_proc (buffer s)) s else s)\<lparr>read_q := r, write_q := w, buffer := edited ch (buffer s),
      con := if refused ch (buffer s) then con s else video_putchar ch (con s)\<rparr>)"
proof -
  obtain r where r: "tty_pop_q others Read_q s = Inr (ch, s\<lparr>read_q := r\<rparr>)" "queue_ok r" "chars r = []"
    using pop_char [of Read_q s ch "[]"] assms(1,2) by auto
  define w where "w = (if refused ch (buffer s) then write_q s else emptied (snd (tty_push_q (write_q s) ch)))"
  define s1 where "s1 = (if ch = 10 \<or> ch = -1 then wake_up (wait_proc (buffer s)) s else s)\<lparr>read_q := r, write_q := w,
    buffer := edited ch (buffer s), con := if refused ch (buffer s) then con s else video_putchar ch (con s)\<rparr>"
  have w: "queue_ok w" "chars w = []"
    using assms(4,5) emptied_ok [of "snd (tty_push_q (write_q s) ch)"] ring.push_step [OF assms(4), of ch]
    by (auto simp: w_def)
  have "copy_char others ch (s\<lparr>read_q := r\<rparr>) = Inr s1"
    using copy_char_eq [of "s\<lparr>read_q := r\<rparr>" others ch] assms by (simp add: s1_def w_def Let_def)
  moreover have "tty_isempty_q (read_q s1)" "\<not> tty_isempty_q (read_q s)"
    using ring.empty [OF r(2)] r(3) ring.empty [OF assms(1)] assms(2) by (simp_all add: s1_def)
  moreover from this(1) have "copy_loop others s1 = Some (Inr s1)" by (subst copy_loop.simps) simp
  ultimately have "copy_loop others s = Some (Inr s1)" by (subst copy_loop.simps) (simp add: r(1))
  then show ?thesis using w r(2,3) unfolding copy_to_buffer_def s1_def by auto
qed

text \<open>C38: a key that is pressed, for the 88 codes the tables have. At an idle terminal the
  interrupt always returns to an idle terminal: the character the key means is appended to
  the line buffer if there is room, or takes back the last one for a backspace, unless the
  buffer is empty or the byte at its tail index is a newline; the console prints it unless it
  was a backspace without effect, also when the buffer was full; a newline wakes the task
  that waits for the buffer. Caps Lock makes no difference while a shift key is down.\<close>

theorem key_press:
  fixes s :: "'a tty_kern_scheme" and scancode :: u16
  defines "ch \<equiv> key_meaning scancode (kbd s)" and "b \<equiv> buffer s"
  assumes "tty_idle s" and "scancode AND 0x80 = 0" and "scancode \<notin> {0x1D, 0x38, 0x2A, 0x3A}" and "unat scancode < 88"
  shows "\<exists>s'. do_keyboard_interrupt others scancode s = Inr s' \<and> tty_idle s' \<and>
    chars (buffer s') = (if ch = 8 then if refused ch b then chars b else butlast (chars b) else take 1023 (chars b @ [ch])) \<and>
    text_of (con s') = (if refused ch b then text_of (con s) else print_text ch (text_of (con s))) \<and>
    tstruct s' = tstruct (if ch = 10 \<or> ch = -1 then wake_up (wait_proc b) s else s)"
proof -
  define k where "k = (kbd s)\<lparr>cap_out := if (if caps (kbd s) \<noteq> 0 then \<not> (lshift (kbd s) \<noteq> 0 \<or> rshift (kbd s) \<noteq> 0)
    else (lshift (kbd s) \<noteq> 0 \<or> rshift (kbd s) \<noteq> 0)) then 1 else 0\<rparr>"
  have ok: "write_fn s" "queue_ok (read_q s)" "chars (read_q s) = []" "queue_ok (write_q s)" "chars (write_q s) = []"
    "queue_ok (buffer s)" "con_ok (con s)" using assms(3) by (simp_all add: tty_idle_def)
  let ?s = "push_q Read_q ch (s\<lparr>kbd := k\<rparr>)"
  have rd: "queue_ok (read_q ?s)" "chars (read_q ?s) = [ch]"
    using ring.push_step [OF ok(2), of ch] ok(3) by (simp_all add: push_q_def)
  obtain r w where c: "queue_ok r" "chars r = []" "queue_ok w" "chars w = []" "copy_to_buffer others ?s =
    Inr ((if ch = 10 \<or> ch = -1 then wake_up (wait_proc (buffer ?s)) ?s else ?s)\<lparr>read_q := r, write_q := w,
      buffer := edited ch (buffer ?s), con := if refused ch (buffer ?s) then con ?s else video_putchar ch (con ?s)\<rparr>)"
    using copy_one [of ?s ch others, OF rd] ok by (auto simp: push_q_def)
  have "key_char scancode k = Inr ch" unfolding k_def ch_def by (rule key_char_meaning [OF assms(6)])
  then have "do_keyboard_interrupt others scancode s = copy_to_buffer others ?s"
    using assms(4,5) unfolding do_keyboard_interrupt_def Let_def k_def [symmetric] by simp
  moreover note edited_ok [OF ok(6), of ch] video_putchar_text [OF ok(7)]
  ultimately show ?thesis using c ok by (simp add: push_q_def b_def tty_idle_def)
qed

theorem key_press_witness:
  "let k = \<lparr>caps = 1, lshift = 1, rshift = 0, lctrl = 0, rctrl = 0, lalt = 0, ralt = 0, cap_out = 0\<rparr> in
     \<exists>s'. do_keyboard_interrupt Inr 0x1E (terminal [] k) = Inr s' \<and> chars (buffer s') = [65]"
proof -
  let ?k = "\<lparr>caps = 1, lshift = 1, rshift = 0, lctrl = 0, rctrl = 0, lalt = 0, ralt = 0, cap_out = 0\<rparr>"
  have i: "tty_idle (terminal [] ?k)" by (simp add: tty_idle_def queue_of_ok)
  have m: "key_meaning 0x1E (kbd (terminal [] ?k)) = 65" by (simp add: key_meaning_def shift_scancode_table_def)
  show ?thesis
    using key_press [OF i, of "0x1E" Inr, unfolded m] by (auto simp: queue_of_ok)
qed

section \<open>Reading a line\<close>

definition after_line :: "'a tty_kern_ext env \<Rightarrow> (kerror + u32 \<times> u32 \<times> u32 \<times> u8 list \<times> 'a tty_kern_scheme) option \<Rightarrow>
    (kerror + u32 \<times> 'a tty_kern_scheme) option" where
  "after_line others r = (case r of None \<Rightarrow> None
     | Some (Inl e) \<Rightarrow> Some (Inl e)
     | Some (Inr (p, len, nr, tmp, s)) \<Rightarrow> if nr \<le>s 0 then Some (Inr (len, s)) else read_lines others p len nr tmp s)"

lemma read_lines_after: "read_lines others p len nr tmp s = after_line others (read_line others p len nr tmp s)"
  by (subst read_lines.simps) (auto simp: after_line_def Let_def split: option.splits sum.splits)

lemma fold_push_front: "fold (push_q_front Buffer) cs s = s\<lparr>buffer := fold (\<lambda>x q. snd (tty_push_q_front q x)) cs (buffer s)\<rparr>"
  by (induction cs arbitrary: s) (simp_all add: push_q_front_def)

lemma tty_rest:
  fixes s s' :: "'a tty_kern_scheme"
  assumes "mm.more s' = mm.more s"
  shows "buffer s' = buffer s" "write_q s' = write_q s" "read_q s' = read_q s" "con s' = con s" "kbd s' = kbd s"
    "write_fn s' = write_fn s"
  using kern_rest(12) [OF assms]
  by (insert assms, cases s, cases s', simp only: kern.simps tty_kern.simps tty_kern.ext_inject)+

lemma more_buffer:
  fixes s s' :: "'a tty_kern_scheme"
  assumes "mm.more s' = mm.more (s\<lparr>buffer := q\<rparr>)"
  shows "mm.more (s'\<lparr>buffer := buffer s\<rparr>) = mm.more s"
  using assms
  by (insert assms, cases s, cases s', simp only: mm.simps kern.simps kern.ext_inject tty_kern.simps tty_kern.ext_inject)

lemma writes_buffer:
  fixes s :: "'a tty_kern_scheme"
  assumes "writes own (s\<lparr>buffer := q\<rparr>) f s'"
  shows "writes own s f (s'\<lparr>buffer := buffer s\<rparr>)"
  using assms more_buffer [where s = s and s' = s' and q = q] by (simp add: writes_def writable_page_def)

text \<open>What the read of \<open>n\<close> characters does to a line buffer with the characters \<open>cs\<close>, when it holds \<open>tmp\<close>.\<close>

definition line_read :: "'a tty_kern_ext env \<Rightarrow> (u32 \<Rightarrow> nat) \<Rightarrow> u32 \<Rightarrow> u32 \<Rightarrow> u32 \<Rightarrow> nat \<Rightarrow> u8 list \<Rightarrow> u8 list \<Rightarrow> 'a tty_kern_scheme \<Rightarrow> bool" where
  "line_read others own p len nr n tmp cs s \<longleftrightarrow>
     (\<exists>q s'. after_line others (read_line others p len nr tmp s) = Some (Inr (len + nr, s'\<lparr>buffer := q\<rparr>)) \<and>
       queue_ok q \<and> chars q = tmp @ drop n cs \<and>
       writes own s (write_bytes (data_base s + p) (take n cs) (\<lambda>y. load_byte y s)) s')"

text \<open>The characters asked for are read: the rest of the line is put back.\<close>

lemma read_put_back:
  fixes s :: "'a tty_kern_scheme"
  assumes q: "tty_pop_q others Buffer s = Inr (ch, s\<lparr>buffer := q\<rparr>)" "queue_ok q" "chars q = cs"
    and u: "user_ok own s" and l: "length tmp + length cs < 1023" and np: "nr \<le>s 0" "unat nr = 0"
    and ih: "ch \<noteq> 10 \<and> ch \<noteq> -1 \<Longrightarrow> line_read others own p len nr 0 (tmp @ [ch]) cs (s\<lparr>buffer := q\<rparr>)"
  shows "line_read others own p len nr 0 tmp (ch # cs) s"
proof (cases "ch = 10 \<or> ch = -1")
  case True
  let ?q = "fold (\<lambda>x q. snd (tty_push_q_front q x)) (rev (tmp @ [ch])) q"
  have "read_line others p len nr tmp s = Some (Inr (p, len, nr, tmp @ [ch], s\<lparr>buffer := ?q\<rparr>))"
    using True np l by (subst read_line.simps) (simp add: q(1) fold_push_front push_q_front_def Let_def)
  then have "after_line others (read_line others p len nr tmp s) = Some (Inr (len + nr, s\<lparr>buffer := ?q\<rparr>))"
    using np by (simp add: after_line_def unat_eq_0)
  moreover have "queue_ok ?q \<and> chars ?q = (tmp @ [ch]) @ cs"
    using ring.push_back [OF q(2), of "tmp @ [ch]"] q(3) l by simp
  ultimately show ?thesis unfolding line_read_def using writes_refl [OF u] by fastforce
next
  case False
  then obtain q' s' where r: "after_line others (read_line others p len nr (tmp @ [ch]) (s\<lparr>buffer := q\<rparr>)) =
      Some (Inr (len + nr, s'\<lparr>buffer := q'\<rparr>))" "queue_ok q'" "chars q' = tmp @ ch # cs"
    "writes own (s\<lparr>buffer := q\<rparr>) (\<lambda>y. load_byte y s) s'"
    using ih by (auto simp: line_read_def)
  have "read_line others p len nr tmp s = read_line others p len nr (tmp @ [ch]) (s\<lparr>buffer := q\<rparr>)"
    using False np l by (subst read_line.simps) (simp add: q(1) Let_def)
  then have "after_line others (read_line others p len nr tmp s) = Some (Inr (len + nr, (s'\<lparr>buffer := buffer s\<rparr>)\<lparr>buffer := q'\<rparr>))"
    using r(1) by simp
  then show ?thesis unfolding line_read_def using r(2,3) writes_buffer [OF r(4)] by fastforce
qed

text \<open>A character that is asked for goes to the task's memory.\<close>

lemma read_char:
  fixes s :: "'a tty_kern_scheme"
  assumes q: "tty_pop_q others Buffer s = Inr (ch, s\<lparr>buffer := q\<rparr>)" and u: "user_ok own s"
    and x: "private_page s (data_base s + p)" "walk s (data_base s + p) \<noteq> None"
    and p: "unat p < unat (get_limit (ldt (tstruct s (current s)) 2) - 1) + 1" and n: "unat nr = Suc m" "m < 1024"
  obtains s1 where "writes own (s\<lparr>buffer := q\<rparr>) ((\<lambda>y. load_byte y s)(data_base s + p := ch)) s1"
    "\<And>y. 4 \<le> dir_index y \<Longrightarrow> walk s1 y = walk s y"
    "after_line others (read_line others p len nr tmp s) =
       (if (ch = 10 \<or> ch = -1) \<and> m = 0 then Some (Inr (len + 1, s1))
        else after_line others (read_line others (p + 1) (len + 1) (nr - 1) tmp s1))"
proof -
  let ?x = "data_base s + p" and ?s = "s\<lparr>buffer := q\<rparr>"
  let ?s1 = "store_byte ?x ch ?s"
  have pf: "put_fs_byte ch p ?s = Inr ?s1"
    using x(2) p by (auto simp: put_fs_byte_def fs_linear_def touch_def Let_def)
  have ok: "user_ok own ?s" "private_page ?s ?x" "walk ?s ?x \<noteq> None" using u x by simp_all
  have "writes own ?s ((\<lambda>y. load_byte y s)(?x := ch)) ?s1" using store_byte_writes [OF ok, of ch] by simp
  moreover have "walk ?s1 y = walk s y" if "4 \<le> dir_index y" for y
    using store_byte_spec [OF user_okD(1) [OF ok(1)] ok(2,3), of ch] that by simp
  moreover have "after_line others (read_line others p len nr tmp s) =
      (if (ch = 10 \<or> ch = -1) \<and> m = 0 then Some (Inr (len + 1, ?s1))
       else after_line others (read_line others (p + 1) (len + 1) (nr - 1) tmp ?s1))"
  proof -
    have un: "unat (nr - 1) = m" using n(1) by (metis diff_Suc_1 unat_minus_one nat.distinct(1) unat_0)
    have "\<not> nr \<le>s 0" "nr - 1 \<le>s 0 \<longleftrightarrow> m = 0" using un n by (simp_all add: word_sle_eq sint_nonneg)
    then show ?thesis
      by (subst read_line.simps) (auto simp: q pf Let_def after_line_def [of others "Some _"] read_lines_after)
  qed
  ultimately show thesis by (rule that)
qed

lemma read_lines_spec:
  fixes s :: "'a tty_kern_scheme"
  assumes "queue_ok (buffer s)" and "chars (buffer s) = cs" and "user_ok own s" and "length tmp + length cs \<le> 1023"
    and "\<exists>j < length cs. n \<le> Suc j \<and> (cs ! j = 10 \<or> cs ! j = -1)" and "unat nr = n" and "0 < n \<longrightarrow> tmp = []"
    and "unat p + n \<le> unat (get_limit (ldt (tstruct s (current s)) 2) - 1) + 1"
    and "\<And>k. k < n \<Longrightarrow> private_page s (data_base s + p + of_nat k) \<and> walk s (data_base s + p + of_nat k) \<noteq> None"
  shows "line_read others own p len nr n tmp cs s"
  using assms
proof (induction cs arbitrary: p len nr n tmp s)
  case Nil
  then show ?case by simp
next
  case (Cons ch cs)
  obtain q where q: "tty_pop_q others Buffer s = Inr (ch, s\<lparr>buffer := q\<rparr>)" "queue_ok q" "chars q = cs"
    using pop_char [of Buffer s ch cs] Cons.prems(1,2) by auto
  have later: "\<exists>j < length cs. m \<le> Suc j \<and> (cs ! j = 10 \<or> cs ! j = -1)"
    if "\<not> ((ch = 10 \<or> ch = -1) \<and> m = 0)" "m = n - 1" for m
  proof -
    obtain j where "j < length (ch # cs)" "n \<le> Suc j" "(ch # cs) ! j = 10 \<or> (ch # cs) ! j = -1" using Cons.prems(5) by blast
    with that show ?thesis by (cases j) auto
  qed
  show ?case
  proof (cases n)
    case 0
    have ih: "line_read others own p len nr 0 (tmp @ [ch]) cs (s\<lparr>buffer := q\<rparr>)" if "ch \<noteq> 10 \<and> ch \<noteq> -1"
      using Cons.IH [of "s\<lparr>buffer := q\<rparr>" "tmp @ [ch]" 0 nr p len] later [of 0] Cons.prems(3,4,6,8) q(2,3) that 0 by simp
    have "nr = 0" using Cons.prems(6) 0 by (simp add: unat_eq_0)
    then show ?thesis
      unfolding 0 using Cons.prems(4) by (intro read_put_back [OF q Cons.prems(3) _ _ _ ih]) (simp_all add: word_sle_eq)
  next
    case (Suc m)
    let ?x = "data_base s + p" and ?s = "s\<lparr>buffer := q\<rparr>"
    have t: "tmp = []" "m < 1024" using Cons.prems(4,5,7) Suc by auto
    obtain s1 where w1: "writes own ?s ((\<lambda>y. load_byte y s)(?x := ch)) s1" and wk: "\<And>y. 4 \<le> dir_index y \<Longrightarrow> walk s1 y = walk s y"
      and line: "after_line others (read_line others p len nr tmp s) = (if (ch = 10 \<or> ch = -1) \<and> m = 0 then Some (Inr (len + 1, s1))
        else after_line others (read_line others (p + 1) (len + 1) (nr - 1) tmp s1))"
      by (rule read_char [OF q(1) Cons.prems(3), of p nr m len tmp]) (use Cons.prems(6,8) Cons.prems(9) [of 0] Suc t(2) in simp_all)
    note w = writesD [OF w1] and k1 = kern_rest(3,4) [OF writesD(2) [OF w1]] and r1 = tty_rest(1) [OF writesD(2) [OF w1]]
    have un: "unat (nr - 1) = m" using Cons.prems(6) Suc by (metis diff_Suc_1 unat_minus_one nat.distinct(1) unat_0)
    show ?thesis
    proof (cases "(ch = 10 \<or> ch = -1) \<and> m = 0")
      case True
      then have "nr = 1" using un Cons.prems(6) Suc by (simp add: word_unat_eq_iff)
      then have "after_line others (read_line others p len nr tmp s) = Some (Inr (len + nr, (s1\<lparr>buffer := buffer s\<rparr>)\<lparr>buffer := q\<rparr>))"
        using True line r1 by simp
      moreover have "writes own s (write_bytes ?x (take n (ch # cs)) (\<lambda>y. load_byte y s)) (s1\<lparr>buffer := buffer s\<rparr>)"
        using writes_buffer [OF w1] Suc True by simp
      ultimately show ?thesis unfolding line_read_def using q(2,3) Suc True t(1) by fastforce
    next
      case False
      have "private_page s1 (data_base s1 + (p + 1) + of_nat k) \<and> walk s1 (data_base s1 + (p + 1) + of_nat k) \<noteq> None" if "k < m" for k
      proof -
        have pw: "private_page s (data_base s + (p + 1) + of_nat k)" "walk s (data_base s + (p + 1) + of_nat k) \<noteq> None"
          using Cons.prems(9) [of "Suc k"] that Suc by (simp_all add: algebra_simps)
        then have "4 \<le> dir_index (data_base s + (p + 1) + of_nat k)" by (simp add: private_page_def)
        with pw show ?thesis using wk w(6) [of "data_base s + (p + 1) + of_nat k"] by (simp add: k1)
      qed
      moreover have "unat (p + 1) \<le> unat p + 1" by (simp add: unat_word_ariths)
      ultimately have "line_read others own (p + 1) (len + 1) (nr - 1) m tmp cs s1"
        using Cons.IH [of s1 tmp m "nr - 1" "p + 1" "len + 1"] later [OF False] w(1) q(2,3) r1 un t Cons.prems(4,8) Suc by (simp add: k1)
      then obtain q' s' where r: "after_line others (read_line others (p + 1) (len + 1) (nr - 1) tmp s1) =
          Some (Inr (len + nr, s'\<lparr>buffer := q'\<rparr>))" "queue_ok q'" "chars q' = tmp @ drop m cs"
        "writes own s1 (write_bytes (data_base s1 + (p + 1)) (take m cs) (\<lambda>y. load_byte y s1)) s'"
        by (auto simp: line_read_def)
      have "writes own ?s (write_bytes ?x (take n (ch # cs)) (\<lambda>y. load_byte y s)) s'"
        by (rule writes_trans [OF w1 r(4)]) (simp add: k1 Suc add.assoc, rule write_bytes_cong, simp add: w(5))
      then have "writes own s (write_bytes ?x (take n (ch # cs)) (\<lambda>y. load_byte y s)) (s'\<lparr>buffer := buffer s\<rparr>)" by (rule writes_buffer)
      moreover have "after_line others (read_line others p len nr tmp s) = Some (Inr (len + nr, (s'\<lparr>buffer := buffer s\<rparr>)\<lparr>buffer := q'\<rparr>))"
        using line False r(1) by simp
      ultimately show ?thesis unfolding line_read_def using r(2,3) t(1) Suc by fastforce
    qed
  qed
qed

lemma tty_read_present:
  fixes s :: "'a tty_kern_scheme" and dst nr :: u32
  defines "c \<equiv> chars (buffer s)" and "n \<equiv> unat nr"
  assumes "queue_ok (buffer s)" and "user_ok own s" and "\<exists>j < length c. n \<le> Suc j \<and> (c ! j = 10 \<or> c ! j = -1)"
    and "unat dst + n \<le> unat (get_limit (ldt (tstruct s (current s)) 2) - 1) + 1"
    and "\<forall>k < n. private_page s (data_base s + dst + of_nat k) \<and> walk s (data_base s + dst + of_nat k) \<noteq> None"
  obtains q s' where "tty_read others channel dst nr s = Inr (nr, s'\<lparr>buffer := q\<rparr>)" "queue_ok q" "chars q = drop n c"
    "writes own s (write_bytes (data_base s + dst) (take n c) (\<lambda>y. load_byte y s)) s'"
proof -
  have n: "n \<le> length c" "length c \<le> 1023" using assms(5) ring.bounded [OF assms(3)] by (auto simp: c_def)
  then have "\<not> nr <s 0" by (simp add: negative_word n_def)
  then have t: "tty_read others channel dst nr s =
      (case after_line others (read_line others dst 0 nr [] s) of None \<Rightarrow> Inl Hang | Some r \<Rightarrow> r)"
    by (simp add: tty_read_def read_lines_after)
  have "\<exists>q s'. after_line others (read_line others dst 0 nr [] s) = Some (Inr (0 + nr, s'\<lparr>buffer := q\<rparr>)) \<and>
      queue_ok q \<and> chars q = [] @ drop n c \<and> writes own s (write_bytes (data_base s + dst) (take n c) (\<lambda>y. load_byte y s)) s'"
    by (rule read_lines_spec [unfolded line_read_def, OF assms(3) c_def [THEN meta_eq_to_obj_eq, symmetric] assms(4)])
       (use n(2) assms(5-7) n_def in simp_all)
  then show thesis using that unfolding t by fastforce
qed

text \<open>Reading from the terminal, when the line buffer holds as many characters as asked for
  and a newline or end of file not before the last of them. The call does not sleep; it takes
  those characters, over as many lines as they make up, to the task's memory and returns
  their number. The rest of the line, which it had to take out of the buffer to find its
  end, is back in the buffer in the same order. The pages of the destination must be present
  and the task's own, since the code does not verify them.\<close>

theorem tty_read_lines:
  fixes s :: "'a tty_kern_scheme" and dst nr :: u32
  defines "c \<equiv> chars (buffer s)" and "n \<equiv> unat nr"
  assumes "queue_ok (buffer s)" and "user_ok own s" and "\<exists>j < length c. n \<le> Suc j \<and> (c ! j = 10 \<or> c ! j = -1)"
    and "unat dst + n \<le> unat (get_limit (ldt (tstruct s (current s)) 2) - 1) + 1"
    and "\<forall>k < n. private_page s (data_base s + dst + of_nat k) \<and> walk s (data_base s + dst + of_nat k) \<noteq> None"
  shows "\<exists>s'. tty_read others channel dst nr s = Inr (nr, s') \<and> queue_ok (buffer s') \<and> chars (buffer s') = drop n c \<and>
    user_ok own s' \<and> tstruct s' = tstruct s \<and> con s' = con s \<and>
    (\<forall>k < n. load_byte (data_base s + dst + of_nat k) s' = c ! k) \<and>
    (\<forall>y. user_page s y \<and> (\<forall>k < n. y \<noteq> data_base s + dst + of_nat k) \<longrightarrow> load_byte y s' = load_byte y s)"
proof -
  obtain q s1 where r: "tty_read others channel dst nr s = Inr (nr, s1\<lparr>buffer := q\<rparr>)" "queue_ok q" "chars q = drop n c"
    "writes own s (write_bytes (data_base s + dst) (take n c) (\<lambda>y. load_byte y s)) s1"
    using tty_read_present [OF assms(3,4) assms(5-7) [unfolded c_def n_def]] unfolding c_def n_def by blast
  have n: "n \<le> length c" "length c \<le> 1023" using assms(5) ring.bounded [OF assms(3)] by (auto simp: c_def)
  note w = writesD [OF r(4)]
  have up: "user_page s (data_base s + dst + of_nat k)" if "k < n" for k
    using private_user_page [OF user_okD(1) [OF assms(4)]] assms(7) that by blast
  have "\<forall>k < n. load_byte (data_base s + dst + of_nat k) (s1\<lparr>buffer := q\<rparr>) = c ! k"
    using w(5) [OF up] n by (simp add: write_bytes_at)
  moreover have "\<forall>y. user_page s y \<and> (\<forall>k < n. y \<noteq> data_base s + dst + of_nat k) \<longrightarrow> load_byte y (s1\<lparr>buffer := q\<rparr>) = load_byte y s"
    by (auto simp: w(5) intro!: write_bytes_other)
  ultimately show ?thesis using r(1-3) w(1) kern_rest(3) [OF w(2)] tty_rest(4) [OF w(2)] by (intro exI [of _ "s1\<lparr>buffer := q\<rparr>"]) simp
qed

theorem tty_read_lines_witness:
  "\<exists>s'. tty_read Inr 0 0x2000 3 (terminal [65, 10, 66, 67, 10, 68] no_keys) = Inr (3, s') \<and>
     chars (buffer s') = [67, 10, 68] \<and> load_byte 0x4002002 s' = 66"
proof -
  let ?s = "terminal [65, 10, 66, 67, 10, 68] no_keys"
  have q: "queue_ok (buffer ?s)" "chars (buffer ?s) = [65, 10, 66, 67, 10, 68]" by (simp_all add: queue_of_ok)
  have u: "user_ok (\<lambda>_. 0) ?s" using signal_kern_ok by (simp add: terminal_mem(1))
  have u3: "unat (3 :: u32) = 3" by simp
  have pg: "private_page ?s (data_base ?s + 0x2000 + of_nat j)" "walk ?s (data_base ?s + 0x2000 + of_nat j) \<noteq> None" if "j < 3" for j
    using signal_kern_page [of j] that by (simp_all add: terminal_mem(4,5) signal_kern_simps algebra_simps)
  have "\<exists>j < length (chars (buffer ?s)). 3 \<le> Suc j \<and> (chars (buffer ?s) ! j = 10 \<or> chars (buffer ?s) ! j = -1)"
    unfolding q(2) by (rule exI [of _ 4]) simp
  from tty_read_lines [OF q(1) u, of 3 "0x2000" Inr 0, unfolded u3, OF this] pg
  obtain s' where s': "tty_read Inr 0 0x2000 3 ?s = Inr (3, s')" "chars (buffer s') = drop 3 (chars (buffer ?s))"
    "\<forall>j < 3. load_byte (data_base ?s + 0x2000 + of_nat j) s' = chars (buffer ?s) ! j"
    by (auto simp: signal_kern_simps)
  then show ?thesis using s'(3) [THEN spec, of 2] by (simp add: queue_of_ok signal_kern_simps)
qed

end
