(* ===== verification/Traps.thy ===== *)
theory Traps
  imports Tty_Io
begin

text \<open>
  The processor's exceptions (kernel/traps.c): the gates of the IDT and the handlers they end
  in. The entry points of kernel/asm.s and mm/page.s save the registers and call the handler;
  their addresses are set by the linker, a parameter \<open>addr\<close>.
\<close>

section \<open>Handlers\<close>

text \<open>What the processor has pushed: the words \<open>esp[0]\<close> to \<open>esp[4]\<close> of a handler, and their address.\<close>

record trap_frame =
  t_at :: u32
  t_eip :: u32
  t_cs :: u32
  t_eflags :: u32
  t_esp :: u32
  t_ss :: u32

definition c_text :: "string \<Rightarrow> u8 list" where
  "c_text = map of_char"

abbreviation nl :: char where
  "nl \<equiv> CHR 0x0A"

abbreviation tab :: char where
  "tab \<equiv> CHR 0x09"

abbreviation print_at :: "'a tty_kern_ext env \<Rightarrow> string \<Rightarrow> u32 list \<Rightarrow> 'a tty_kern_scheme \<Rightarrow> kerror + 'a tty_kern_scheme" where
  "print_at others fmt args s \<equiv> printk others (\<lambda>_. []) (c_text fmt) args s"

text \<open>\<open>die\<close> prints a report and stops. Selector \<open>0x17\<close> is entry 2 of the LDT of the current task.\<close>

definition die :: "'a tty_kern_ext env \<Rightarrow> string \<Rightarrow> trap_frame \<Rightarrow> u32 \<Rightarrow> 'a tty_kern_scheme \<Rightarrow> kerror + 'a tty_kern_scheme" where
  "die others str esp nr s =
     kbind (printk others (\<lambda>_. c_text str) (c_text (''%s: %x'' @ [nl])) [0, nr AND 0xffff] s) (\<lambda>s1.
     kbind (print_at others (''EIP: 0x%x:0x%x'' @ nl # '' EFLAGS: 0x%x'' @ nl # '' ESP 0x%x:0x%x'' @ [nl])
       [t_cs esp, t_eip esp, t_eflags esp, t_ss esp, t_esp esp] s1) (\<lambda>s2.
     kbind (print_at others (''base 0x%x, limit 0x%x'' @ [nl])
       [get_base (ldt (tstruct s2 (current s2)) 1), get_limit (ldt (tstruct s2 (current s2)) 2)] s2) (\<lambda>s3.
     kbind (print_at others (''No Process now, System HALT!   :('' @ [nl]) [] s3) (\<lambda>_. Inl (Halt str)))))"

text \<open>\<open>panic\<close> of kernel/panic.c: the message, then a loop for ever, which is the outcome \<open>Panic\<close>.\<close>

definition panic :: "'a tty_kern_ext env \<Rightarrow> string \<Rightarrow> 'a tty_kern_scheme \<Rightarrow> kerror + 'a tty_kern_scheme" where
  "panic others str s =
     kbind (printk others (\<lambda>_. c_text str) (c_text (''Kernel Panic: %s'' @ [nl])) [0] s) (\<lambda>_. Inl (Panic str))"

definition do_double_fault :: "'a tty_kern_ext env \<Rightarrow> trap_frame \<Rightarrow> u32 \<Rightarrow> 'a tty_kern_scheme \<Rightarrow> kerror + 'a tty_kern_scheme" where
  "do_double_fault others = die others ''double fault''"

definition do_general_protection :: "'a tty_kern_ext env \<Rightarrow> trap_frame \<Rightarrow> u32 \<Rightarrow> 'a tty_kern_scheme \<Rightarrow> kerror + 'a tty_kern_scheme" where
  "do_general_protection others = die others ''general protection''"

definition do_divide_error :: "'a tty_kern_ext env \<Rightarrow> trap_frame \<Rightarrow> u32 \<Rightarrow> 'a tty_kern_scheme \<Rightarrow> kerror + 'a tty_kern_scheme" where
  "do_divide_error others = die others ''divide error''"

text \<open>The registers \<open>no_error_code\<close> has pushed; \<open>tr\<close> is the task register.\<close>

record trap_regs =
  r_fs :: u32
  r_es :: u32
  r_ds :: u32
  r_ebp :: u32
  r_esi :: u32
  r_edi :: u32
  r_edx :: u32
  r_ecx :: u32
  r_ebx :: u32
  r_eax :: u32

definition do_int3 :: "'a tty_kern_ext env \<Rightarrow> u32 \<Rightarrow> trap_frame \<Rightarrow> u32 \<Rightarrow> trap_regs \<Rightarrow> 'a tty_kern_scheme \<Rightarrow>
    kerror + 'a tty_kern_scheme" where
  "do_int3 others tr esp error_code r s =
     kbind (print_at others (''eax'' @ tab # ''ebx'' @ tab # ''ecx'' @ tab # ''edx'' @ tab # nl # ''%x'' @ tab # ''%x'' @ tab # ''%x'' @ tab # ''%x'' @ [nl])
       [r_eax r, r_ebx r, r_ecx r, r_edx r] s) (\<lambda>s1.
     kbind (print_at others (''esi'' @ tab # ''edi'' @ tab # ''ebp'' @ tab # ''esp'' @ tab # nl # ''%x'' @ tab # ''%x'' @ tab # ''%x'' @ tab # ''%x'' @ [nl])
       [r_esi r, r_edi r, r_ebp r, t_at esp] s1) (\<lambda>s2.
     kbind (print_at others (''ds'' @ tab # ''es'' @ tab # ''fs'' @ tab # ''tr'' @ nl # ''%x'' @ tab # ''%x'' @ tab # ''%x'' @ tab # ''%x'' @ [nl])
       [r_ds r, r_es r, r_fs r, tr] s2) (\<lambda>s3.
     kbind (print_at others ''EIP: %x    CS:%x     EFLAGS: %x'' [t_eip esp, t_cs esp, t_eflags esp] s3) (\<lambda>s4.
     print_at others ''errno = %d'' [error_code] s4))))"

definition do_nmi :: "'a tty_kern_ext env \<Rightarrow> trap_frame \<Rightarrow> u32 \<Rightarrow> 'a tty_kern_scheme \<Rightarrow> kerror + 'a tty_kern_scheme" where
  "do_nmi others = die others ''nmi''"

definition do_debug :: "'a tty_kern_ext env \<Rightarrow> trap_frame \<Rightarrow> u32 \<Rightarrow> 'a tty_kern_scheme \<Rightarrow> kerror + 'a tty_kern_scheme" where
  "do_debug others = die others ''debug''"

definition do_overflow :: "'a tty_kern_ext env \<Rightarrow> trap_frame \<Rightarrow> u32 \<Rightarrow> 'a tty_kern_scheme \<Rightarrow> kerror + 'a tty_kern_scheme" where
  "do_overflow others = die others ''overflow''"

definition do_bounds :: "'a tty_kern_ext env \<Rightarrow> trap_frame \<Rightarrow> u32 \<Rightarrow> 'a tty_kern_scheme \<Rightarrow> kerror + 'a tty_kern_scheme" where
  "do_bounds others = die others ''bounds''"

definition do_invalid_op :: "'a tty_kern_ext env \<Rightarrow> trap_frame \<Rightarrow> u32 \<Rightarrow> 'a tty_kern_scheme \<Rightarrow> kerror + 'a tty_kern_scheme" where
  "do_invalid_op others = die others ''invalid operand''"

definition do_device_not_available :: "'a tty_kern_ext env \<Rightarrow> trap_frame \<Rightarrow> u32 \<Rightarrow> 'a tty_kern_scheme \<Rightarrow> kerror + 'a tty_kern_scheme" where
  "do_device_not_available others = die others ''device not available''"

definition do_coprocessor_segment_overrun :: "'a tty_kern_ext env \<Rightarrow> trap_frame \<Rightarrow> u32 \<Rightarrow> 'a tty_kern_scheme \<Rightarrow> kerror + 'a tty_kern_scheme" where
  "do_coprocessor_segment_overrun others = die others ''coprocessor segment overrun''"

definition do_invalid_TSS :: "'a tty_kern_ext env \<Rightarrow> trap_frame \<Rightarrow> u32 \<Rightarrow> 'a tty_kern_scheme \<Rightarrow> kerror + 'a tty_kern_scheme" where
  "do_invalid_TSS others = die others ''invalid TSS''"

definition do_segment_not_present :: "'a tty_kern_ext env \<Rightarrow> trap_frame \<Rightarrow> u32 \<Rightarrow> 'a tty_kern_scheme \<Rightarrow> kerror + 'a tty_kern_scheme" where
  "do_segment_not_present others = die others ''segment not present''"

definition do_stack_segment :: "'a tty_kern_ext env \<Rightarrow> trap_frame \<Rightarrow> u32 \<Rightarrow> 'a tty_kern_scheme \<Rightarrow> kerror + 'a tty_kern_scheme" where
  "do_stack_segment others = die others ''stack segment''"

definition do_coprocessor_error :: "'a tty_kern_ext env \<Rightarrow> trap_frame \<Rightarrow> u32 \<Rightarrow> 'a tty_kern_scheme \<Rightarrow> kerror + 'a tty_kern_scheme" where
  "do_coprocessor_error others = die others ''coprocessor error''"

definition do_reserved :: "'a tty_kern_ext env \<Rightarrow> trap_frame \<Rightarrow> u32 \<Rightarrow> 'a tty_kern_scheme \<Rightarrow> kerror + 'a tty_kern_scheme" where
  "do_reserved others = die others ''reserved(15, 17-47)error''"

definition do_stub :: "'a tty_kern_ext env \<Rightarrow> trap_frame \<Rightarrow> u32 \<Rightarrow> 'a tty_kern_scheme \<Rightarrow> kerror + 'a tty_kern_scheme" where
  "do_stub others esp error_code s = print_at others (''stub interrupt! %x, %x'' @ [nl]) [t_at esp, error_code] s"

section \<open>Gates\<close>

datatype entry = Divide_error | Debug | Nmi | Int3 | Overflow | Bounds | Double_fault | Device_not_available |
  Coprocessor_segment_overrun | Invalid_TSS | Segment_not_present | Stack_segment | General_protection |
  Page_fault | Reserved | Coprocessor_error | Irq13 | Parallel_interrupt

definition trap_init :: "((u32 \<times> u8) list \<Rightarrow> u32 \<Rightarrow> u8) \<Rightarrow> (entry \<Rightarrow> u32) \<Rightarrow> 'a kern_scheme \<Rightarrow> 'a kern_scheme" where
  "trap_init inb addr s =
     (let s1 = s\<lparr>idt := set_trap_gate 45 (addr Irq13)
       (fold (\<lambda>i. set_trap_gate i (addr Reserved)) [17..<48]
       (set_trap_gate 16 (addr Coprocessor_error) (set_trap_gate 15 (addr Reserved)
       (set_trap_gate 14 (addr Page_fault) (set_trap_gate 13 (addr General_protection)
       (set_trap_gate 12 (addr Stack_segment) (set_trap_gate 11 (addr Segment_not_present)
       (set_trap_gate 10 (addr Invalid_TSS) (set_trap_gate 9 (addr Coprocessor_segment_overrun)
       (set_trap_gate 8 (addr Double_fault) (set_trap_gate 7 (addr Device_not_available)
       (set_trap_gate 6 (addr Double_fault) (set_system_gate 5 (addr Bounds) (set_system_gate 4 (addr Overflow)
       (set_system_gate 3 (addr Int3) (set_trap_gate 2 (addr Nmi) (set_trap_gate 1 (addr Debug)
       (set_trap_gate 0 (addr Divide_error) (idt s)))))))))))))))))))\<rparr>;
          s2 = port_out 0x21 (inb (outs s1) 0x21 AND 0xfb) s1;
          s3 = port_out 0xA1 (inb (outs s2) 0xA1 AND 0xdf) s2 in
      s3\<lparr>idt := set_trap_gate 39 (addr Parallel_interrupt) (idt s3)\<rparr>)"

section \<open>What the gates lead to\<close>

text \<open>The entry point of a vector, and whether user mode may use it with an \<open>int\<close> instruction.\<close>

definition vector_entry :: "nat \<Rightarrow> entry" where
  "vector_entry v =
     (if v < 17 then [Divide_error, Debug, Nmi, Int3, Overflow, Bounds, Double_fault, Device_not_available, Double_fault,
        Coprocessor_segment_overrun, Invalid_TSS, Segment_not_present, Stack_segment, General_protection, Page_fault,
        Reserved, Coprocessor_error] ! v
      else if v = 39 then Parallel_interrupt else if v = 45 then Irq13 else Reserved)"

definition user_vector :: "nat \<Rightarrow> bool" where
  "user_vector v \<longleftrightarrow> 3 \<le> v \<and> v \<le> 5"

lemma fold_gates: "fold (\<lambda>i. set_trap_gate i a) [m..<n] t = (\<lambda>v. if m \<le> v \<and> v < n then set_gate 0xF 0 a else t v)"
  by (induction n) (auto simp: set_trap_gate_def fun_eq_iff not_less_eq_eq less_Suc_eq)

lemma trap_init_idt:
  "idt (trap_init inb addr s) v =
     (if v < 48 then set_gate 0xF (if user_vector v then 3 else 0) (addr (vector_entry v)) else idt s v)"
proof -
  have c: "v < 17 \<longleftrightarrow> v = 0 \<or> v = 1 \<or> v = 2 \<or> v = 3 \<or> v = 4 \<or> v = 5 \<or> v = 6 \<or> v = 7 \<or> v = 8 \<or> v = 9 \<or> v = 10 \<or> v = 11 \<or>
    v = 12 \<or> v = 13 \<or> v = 14 \<or> v = 15 \<or> v = 16" by presburger
  show ?thesis
  proof (cases "v < 17")
    case True
    then show ?thesis
      unfolding c trap_init_def Let_def fold_gates by (elim disjE) (simp_all add: set_trap_gate_def set_system_gate_def vector_entry_def user_vector_def)
  next
    case False
    then show ?thesis
      unfolding trap_init_def Let_def fold_gates by (auto simp: set_trap_gate_def set_system_gate_def vector_entry_def user_vector_def)
  qed
qed

lemma trap_init_frame: "trap_init inb addr s = s\<lparr>idt := idt (trap_init inb addr s), outs :=
    (let os = (0x21, inb (outs s) 0x21 AND 0xfb) # outs s in (0xA1, inb os 0xA1 AND 0xdf) # os)\<rparr>"
  by (simp add: trap_init_def port_out_def Let_def)

lemma die_never_returns: "\<not> (\<exists>s'. die others str esp nr s = Inr s')"
  by (simp add: die_def kbind_elim)

lemma panic_never_returns: "\<not> (\<exists>s'. panic others str s = Inr s')"
  by (simp add: panic_def kbind_elim)

end
