(* ===== verification/Syscalls.thy ===== *)
theory Syscalls
  imports Fork Tty_Io
begin

text \<open>
  System calls (\<open>system_call\<close> of kernel/system_call.s, the table of include/linux/sys.h,
  \<open>stub_syscall\<close> of kernel/sys.c, the numbers of include/unistd.h): a call is dispatched
  on the number in \<open>eax\<close>, its result replaces \<open>eax\<close> in the frame, another task is run when
  the caller cannot go on, and a pending signal is delivered on the way out.
\<close>

section \<open>Operations\<close>

datatype sys_fn = Tty_read | Stub_syscall | Sys_fork | User_tty_write | Sys_sleep | Sys_pause | Sys_kill |
  Sys_sigaction | Sys_sgetmask | Sys_ssetmask | Serial_debugstr

definition sys_call_table :: "sys_fn list" where
  "sys_call_table = [Tty_read, Stub_syscall, Sys_fork, User_tty_write] @ replicate 6 Stub_syscall @ [Sys_sleep] @
     replicate 18 Stub_syscall @ [Sys_pause] @ replicate 7 Stub_syscall @ [Sys_kill] @ replicate 29 Stub_syscall @
     [Sys_sigaction, Sys_sgetmask, Sys_ssetmask, Stub_syscall, Stub_syscall, Serial_debugstr]"

definition nr_system_calls :: nat where
  "nr_system_calls = 73"

text \<open>The numbers the user's side passes.\<close>

definition NR_user_tty_read :: u32 where
  "NR_user_tty_read = 0"

definition NR_fork :: u32 where
  "NR_fork = 2"

definition NR_user_tty_write :: u32 where
  "NR_user_tty_write = 3"

definition NR_sleep :: u32 where
  "NR_sleep = 10"

definition NR_pause :: u32 where
  "NR_pause = 29"

definition NR_kill :: u32 where
  "NR_kill = 37"

definition NR_sigaction :: u32 where
  "NR_sigaction = 67"

definition NR_sgetmask :: u32 where
  "NR_sgetmask = 68"

definition NR_ssetmask :: u32 where
  "NR_ssetmask = 69"

definition NR_sys_debug :: u32 where
  "NR_sys_debug = 72"

definition stub_syscall :: u32 where
  "stub_syscall = 0"

text \<open>The registers of the caller that \<open>system_call\<close> does not save, and what \<open>sys_fork\<close> makes of them.\<close>

record cpu =
  c_ebp :: u32
  c_esi :: u32
  c_edi :: u32
  c_gs :: u32

definition fork_registers :: "cpu \<Rightarrow> frame \<Rightarrow> registers" where
  "fork_registers r c = \<lparr>reg_ebp = c_ebp r, reg_edi = c_edi r, reg_esi = c_esi r, reg_gs = c_gs r, reg_ebx = f_ebx c,
     reg_ecx = f_ecx c, reg_edx = f_edx c, reg_fs = f_fs c, reg_es = f_es c, reg_ds = f_ds c, reg_eip = f_eip c,
     reg_cs = f_cs c, reg_eflags = f_eflags c, reg_esp = f_esp c, reg_ss = f_ss c\<rparr>"

text \<open>The function called, with \<open>ebx\<close>, \<open>ecx\<close> and \<open>edx\<close> as its arguments. \<open>serial_debugstr\<close> only
  writes to the serial line.\<close>

definition call_function :: "'a tty_kern_ext env \<Rightarrow> cpu \<Rightarrow> sys_fn \<Rightarrow> frame \<Rightarrow> 'a tty_kern_scheme \<Rightarrow>
    kerror + u32 \<times> 'a tty_kern_scheme" where
  "call_function others r f c s = (case f of
     Tty_read \<Rightarrow> tty_read others (f_ebx c) (f_ecx c) (f_edx c) s
   | Stub_syscall \<Rightarrow> Inr (stub_syscall, s)
   | Sys_fork \<Rightarrow> sys_fork (fork_registers r c) s
   | User_tty_write \<Rightarrow> user_tty_write others (f_ebx c) (f_ecx c) (f_edx c) s
   | Sys_sleep \<Rightarrow> sys_sleep others (f_ebx c) s
   | Sys_pause \<Rightarrow> sys_pause others s
   | Sys_kill \<Rightarrow> Inr (sys_kill (f_ebx c) (f_ecx c) s)
   | Sys_sigaction \<Rightarrow> sys_sigaction (f_ebx c) (f_ecx c) (f_edx c) s
   | Sys_sgetmask \<Rightarrow> Inr (sys_sgetmask s)
   | Sys_ssetmask \<Rightarrow> Inr (sys_ssetmask (f_ebx c) s)
   | Serial_debugstr \<Rightarrow> Inr (0, s))"

text \<open>\<open>reschedule\<close>: \<open>schedule\<close> is called when the caller does not run any more or has used up its slice.\<close>

definition reschedule :: "'a tty_kern_ext env \<Rightarrow> 'a tty_kern_scheme \<Rightarrow> kerror + 'a tty_kern_scheme" where
  "reschedule others s =
     (if state (tstruct s (current s)) \<noteq> 0 \<or> counter (tstruct s (current s)) = 0 then schedule others s else Inr s)"

definition system_call :: "'a tty_kern_ext env \<Rightarrow> cpu \<Rightarrow> frame \<Rightarrow> 'a tty_kern_scheme \<Rightarrow>
    kerror + frame \<times> 'a tty_kern_scheme" where
  "system_call others r c s =
     (if nr_system_calls - 1 < unat (f_eax c) then Inr (c\<lparr>f_eax := -1\<rparr>, s)
      else kbind (call_function others r (sys_call_table ! unat (f_eax c)) c s) (\<lambda>(res, s1).
           kbind (reschedule others s1) (\<lambda>s2. ret_from_syscall (c\<lparr>f_eax := res\<rparr>) s2)))"

section \<open>The table\<close>

lemma table_numbers:
  "length sys_call_table = nr_system_calls"
  "sys_call_table ! unat NR_user_tty_read = Tty_read" "sys_call_table ! unat NR_fork = Sys_fork"
  "sys_call_table ! unat NR_user_tty_write = User_tty_write" "sys_call_table ! unat NR_sleep = Sys_sleep"
  "sys_call_table ! unat NR_pause = Sys_pause" "sys_call_table ! unat NR_kill = Sys_kill"
  "sys_call_table ! unat NR_sigaction = Sys_sigaction" "sys_call_table ! unat NR_sgetmask = Sys_sgetmask"
  "sys_call_table ! unat NR_ssetmask = Sys_ssetmask" "sys_call_table ! unat NR_sys_debug = Serial_debugstr"
  by (simp_all add: sys_call_table_def nr_system_calls_def NR_user_tty_read_def NR_fork_def NR_user_tty_write_def
      NR_sleep_def NR_pause_def NR_kill_def NR_sigaction_def NR_sgetmask_def NR_ssetmask_def NR_sys_debug_def nth_append)

section \<open>A signal to oneself\<close>

lemma kill_self:
  fixes s :: "'a kern_scheme"
  defines "me \<equiv> tstruct s (current s)"
  assumes "0 <s pid me" "valid_sig sig" "in_table 63 s (current s)"
    and "\<forall>q. in_table 63 s q \<and> pid (tstruct s q) = pid me \<longrightarrow> q = current s"
  shows "sys_kill (pid me) sig s = (0, upd_task (current s) (raised sig) s)"
proof -
  have "(\<lambda>q. if in_table 63 s q \<and> pid (tstruct s q) = pid me then raised sig (tstruct s q) else tstruct s q) =
      (tstruct s)(current s := raised sig me)"
    using assms(4,5) by (auto simp: fun_eq_iff me_def)
  then show ?thesis
    using assms(2,3) by (simp add: sys_kill_def kill_tasks_eq NR_TASKS_def upd_task_def me_def)
qed



end
