(* ===== verification/Isolation.thy ===== *)
theory Isolation
  imports Exit
begin

text \<open>
  What paging promises to tasks: the memory of a task is changed by its own writes only, also
  after a fork has made two tasks share their frames. A write of a task in user mode
  (\<open>user_store\<close>) runs the page-fault handler when the page is missing or cannot be written, and
  is then repeated by the processor.
\<close>

section \<open>Accesses in user mode\<close>

text \<open>The error code tells a missing page (bit 0 clear) from a protected one, with the bits for a
  write and for user mode.\<close>

definition user_store :: "u32 \<Rightarrow> u8 \<Rightarrow> 'a mm_scheme \<Rightarrow> kerror + 'a mm_scheme" where
  "user_store x v s =
     (case walk s x of
        None \<Rightarrow> kbind (page_fault 6 x s) (\<lambda>s1. Inr (store_byte x v s1))
      | Some e \<Rightarrow> if e AND 2 = 0 then kbind (page_fault 7 x s) (\<lambda>s1. Inr (store_byte x v s1))
                  else Inr (store_byte x v s))"

lemma user_store_eq:
  "user_store x v s = kbind (if walk s x = None then touch 6 x s else write_verify x s) (\<lambda>s1. Inr (store_byte x v s1))"
proof (cases "walk s x")
  case None
  then show ?thesis by (simp add: user_store_def touch_def)
next
  case (Some e)
  then show ?thesis
    by (simp add: user_store_def page_fault_def do_wp_page_eq write_verify_eq)
qed

lemma write_verify_present:
  fixes s :: "'a mm_scheme"
  assumes "user_ok own s" "4 \<le> dir_index x" "walk s x = Some e" "write_verify x s = Inr s'"
  shows "walk s' x \<noteq> None"
proof (cases "e AND 2 = 0")
  case False
  then show ?thesis using assms(3,4) by (simp add: write_verify_eq)
next
  case True
  note ok = user_okD [OF assms(1)] and w = assms(3) [unfolded walk_def]
  have res: "un_wp_page (slot (table s (dir_index x)) (tbl_index x)) s = Inr s'"
    using assms(3,4) True by (simp add: write_verify_eq)
  from vm_invD(1) [OF ok(1)] dir_index_less tbl_index_less w ok(3) [OF assms(2,3)]
      vm_inv_refs_managed [OF ok(1) assms(2) dir_index_less tbl_index_less w] res
  show ?thesis by (rule un_wp_page_success) (simp add: walk_def)
qed

text \<open>A write in user mode reaches one page of one task.\<close>

lemma user_store_spec:
  fixes s :: "'a mm_scheme"
  assumes "user_ok own s" "4 \<le> dir_index x" "user_store x v s = Inr s'"
  shows "user_ok own s' \<and> mm.more s' = mm.more s \<and> load_byte x s' = v \<and>
    (\<forall>y. user_page s y \<and> page_of y \<noteq> page_of x \<longrightarrow> user_page s' y \<and> load_byte y s' = load_byte y s)"
proof -
  obtain s1 where s1: "(if walk s x = None then touch 6 x s else write_verify x s) = Inr s1" "s' = store_byte x v s1"
    using assms(3) unfolding user_store_eq by (auto simp: kbind_elim)
  have p: "user_ok own s1 \<and> mm.more s1 = mm.more s \<and> private_page s1 x \<and> walk s1 x \<noteq> None \<and>
    (\<forall>y. user_page s y \<and> page_of y \<noteq> page_of x \<longrightarrow> user_page s1 y \<and> load_byte y s1 = load_byte y s)"
  proof (cases "walk s x = None")
    case True
    then have "private_page s x" using assms(2) by (simp add: private_page_def)
    moreover have t: "touch 6 x s = Inr s1" using s1(1) True by simp
    moreover have "(6 :: u32) AND 1 = 0" by simp
    ultimately show ?thesis
      using touch_writes [OF assms(1,2) _ t] by (auto simp: writes_def)
  next
    case False
    then obtain e where e: "walk s x = Some e" by blast
    have w: "write_verify x s = Inr s1" using s1(1) False by simp
    show ?thesis using write_verify_spec [OF assms(1,2) w] write_verify_present [OF assms(1,2) e w] by blast
  qed
  then have wr: "writes own s1 ((\<lambda>y. load_byte y s1)(x := v)) s'"
    unfolding s1(2) by (intro store_byte_writes) blast+
  note w = writesD [OF wr]
  have "user_page s1 x" using p private_user_page [OF user_okD(1)] by blast
  then show ?thesis using w p by auto
qed

section \<open>Copying page tables keeps the contents of memory\<close>

lemma copy_entry_phys:
  "copy_entry a b s = Inr s' \<Longrightarrow> x \<noteq> a \<Longrightarrow> x \<noteq> b \<Longrightarrow> phys s' x = phys s x"
  by (auto simp: copy_entry_def Let_def split: if_splits)

lemma copy_entries_phys:
  fixes s :: "'a mm_scheme"
  assumes "copy_entries n (slot a i) (slot b i) s = Inr s'" "page_aligned a" "page_aligned b" "i + n \<le> 1024"
    and "page_of x \<noteq> a" "page_of x \<noteq> b"
  shows "phys s' x = phys s x"
  using assms
proof (induction n arbitrary: i s)
  case (Suc n)
  obtain s1 where s1: "copy_entry (slot a i) (slot b i) s = Inr s1" "copy_entries n (slot a (Suc i)) (slot b (Suc i)) s1 = Inr s'"
    using Suc.prems(1) by (auto simp: kbind_elim slot_Suc)
  have "x \<noteq> slot a i" "x \<noteq> slot b i" using Suc.prems(2-6) by auto
  then show ?case using copy_entry_phys [OF s1(1)] Suc.IH [OF s1(2)] Suc.prems(2-6) by simp
qed simp

text \<open>The frames in use that are no page tables: their contents stay, and their counts grow by
  the copied entries.\<close>

definition frames_kept :: "(u32 \<Rightarrow> nat) \<Rightarrow> 'a mm_scheme \<Rightarrow> 'a mm_scheme \<Rightarrow> bool" where
  "frames_kept extra s s' \<longleftrightarrow> (\<forall>f. managed f \<and> refs s f \<noteq> 0 \<and> tables s f = {} \<longrightarrow>
     tables s' f = {} \<and> refs s' f = refs s f + extra f \<and> (\<forall>a. page_of a = f \<longrightarrow> phys s' a = phys s a))"

lemma frames_kept_trans:
  "frames_kept m s s1 \<Longrightarrow> frames_kept m' s1 s' \<Longrightarrow> frames_kept (\<lambda>f. m f + m' f) s s'"
  unfolding frames_kept_def by (metis (no_types, lifting) add.assoc add_is_0)

lemma copy_table_kept:
  fixes s :: "'a mm_scheme"
  assumes wf: "wf_dir s" and d: "d1 < 1024" "d2 < 1024" "d1 \<noteq> d2" and dp: "dir_present s d1" "\<not> dir_present s d2"
    and g: "get_free_page s = (p, s1)" "p \<noteq> 0" and nr: "nr \<le> 1024"
    and ce: "copy_entries nr (table s d1) p (store (slot 0 d2) (p OR 7) s1) = Inr s'"
    and tc: "tables_copied nr 1 d1 d2 s s'" and fr: "refs s p = 0"
    and r: "\<forall>f. refs s' f = (if f = p then 1 else refs s f) + (if managed f then share s d1 0 nr f else 0)"
  shows "frames_kept (share s d1 0 nr) s s'"
  unfolding frames_kept_def
proof (intro allI impI)
  note gp = get_free_page_nonzero [OF g]
  have al: "page_aligned p" using gp(1) by simp
  have ph: "phys s' a = phys (store (slot 0 d2) (p OR 7) s1) a" if "page_of a \<noteq> table s d1" "page_of a \<noteq> p" for a
    using copy_entries_phys [of nr "table s d1" 0 p "store (slot 0 d2) (p OR 7) s1" s' a] ce al nr that by simp
  have td2: "table s' d2 = p"
  proof -
    have "dirent s' d2 = p OR 7"
      using ph [of "slot 0 d2"] wf_dirD(1) [OF wf d(1) dp(1)] g(2) d(2) by (simp add: dirent_def)
    then show ?thesis using al by (simp add: table_def)
  qed
  fix f assume f: "managed f \<and> refs s f \<noteq> 0 \<and> tables s f = {}"
  have fp: "f \<noteq> p" using f fr by auto
  have ft: "f \<noteq> table s d1" using f d(1) dp(1) by (auto simp: tables_def)
  have f0: "f \<noteq> 0" using f by auto
  have "tables s' f = {}"
  proof -
    have "table s' x \<noteq> f" if "x < 1024" "dir_present s' x" for x
    proof (cases "x = d2")
      case True
      then show ?thesis using td2 fp by simp
    next
      case False
      then have "dirent s' x = dirent s x" using tc that(1) unfolding tables_copied_def by auto
      then show ?thesis using same_dirent [of s' x s] that f by (auto simp: tables_def)
    qed
    then show ?thesis by (auto simp: tables_def)
  qed
  moreover have "phys s' a = phys s a" if "page_of a = f" for a
  proof -
    have "a \<noteq> slot 0 d2" using that d(2) f0 by auto
    then show ?thesis using ph [of a] that fp ft by (simp add: gp(4) clear_page_def)
  qed
  ultimately show "tables s' f = {} \<and> refs s' f = refs s f + share s d1 0 nr f \<and> (\<forall>a. page_of a = f \<longrightarrow> phys s' a = phys s a)"
    using r f fp by simp
qed

lemma copy_dirs_kept:
  fixes s :: "'a mm_scheme"
  assumes "vm_inv own s" "4 \<le> d2" "d1 + n \<le> 1024" "d2 + n \<le> 1024" "d1 + n \<le> d2 \<or> d2 + n \<le> d1" "nr \<le> 1024"
    and "\<And>d. d2 \<le> d \<Longrightarrow> d < d2 + n \<Longrightarrow> \<not> dir_present s d" and "copyable nr d1 n s"
    and "copy_dirs nr n (slot 0 d1) (slot 0 d2) s = Inr (0, s')"
  shows "frames_kept (shares s nr d1 n) s s'"
  using assms
proof (induction n arbitrary: d1 d2 s)
  case 0
  then show ?case by (simp add: frames_kept_def)
next
  case (Suc n)
  note prems = Suc.prems
  have d: "d1 < 1024" "d2 < 1024" "d1 \<noteq> d2" using prems(3-5) by auto
  have ndp: "\<not> dir_present s d2" using prems(7) by simp
  then have nd2: "\<not> 1 AND phys s (slot 0 d2) \<noteq> 0" by (simp add: dir_present_def dirent_def and.commute)
  have dp1: "1 AND phys s (slot 0 d1) = 0 \<longleftrightarrow> \<not> dir_present s d1"
    by (simp add: dir_present_def dirent_def and.commute)
  show ?case
  proof (cases "dir_present s d1")
    case False
    have "\<not> maps_frame (entry s d1 t) f" for t f using False by (simp add: entry_def maps_frame_def)
    then have sh: "shares s nr d1 (Suc n) f = shares s nr (Suc d1) n f" for f by (simp add: share_card)
    have "copy_dirs nr n (slot 0 (Suc d1)) (slot 0 (Suc d2)) s = Inr (0, s')"
      using prems(9) nd2 dp1 False by (simp only: copy_dirs.simps if_False slot_Suc) simp
    then have "frames_kept (shares s nr (Suc d1) n) s s'"
      using prems copyable_tail [OF prems(8)] by (intro Suc.IH) auto
    then show ?thesis using sh by (simp add: frames_kept_def)
  next
    case True
    obtain p s1 where g: "get_free_page s = (p, s1)" by fastforce
    have tab: "0xfffff000 AND phys s (slot 0 d1) = table s d1" by (simp add: table_def dirent_def and.commute)
    have p: "p \<noteq> 0" using prems(9) nd2 dp1 True g by auto
    obtain s2 where s2: "copy_entries nr (table s d1) p (store (slot 0 d2) (p OR 7) s1) = Inr s2"
      "vm_inv own s2" "tables_copied nr 1 d1 d2 s s2" "refs s p = 0"
      "\<forall>f. refs s2 f = (if f = p then 1 else refs s f) + (if managed f then share s d1 0 nr f else 0)"
      by (rule copy_table_step [OF prems(1) d(1) prems(2) d(2,3) prems(6) True ndp prems(8) g p])
    note gp = get_free_page_nonzero [OF g p]
    have k1: "frames_kept (share s d1 0 nr) s s2"
      by (rule copy_table_kept [OF vm_invD(1) [OF prems(1)] d True ndp g p prems(6) s2(1) s2(3-5)])
    have "copy_dirs nr n (slot 0 (Suc d1)) (slot 0 (Suc d2)) s2 = Inr (0, s')"
      using prems(9) nd2 dp1 True g p s2(1) by (simp add: tab slot_Suc)
    moreover have "\<not> dir_present s2 x" if "Suc d2 \<le> x" "x < Suc d2 + n" for x
      using s2(3) prems(4) prems(7) [of x] that unfolding tables_copied_def by auto
    ultimately have "frames_kept (shares s2 nr (Suc d1) n) s2 s'"
      using prems(2-6) s2(2) copyable_next [OF prems(8) s2(3,4,5) prems(5,3,6)] by (intro Suc.IH) auto
    moreover have "shares s2 nr (Suc d1) n = shares s nr (Suc d1) n"
    proof (rule ext, rule shares_cong)
      fix f d t assume "Suc d1 \<le> d" "d < Suc d1 + n" "t < nr"
      then have "entry s2 d t = entry s d t" using s2(3) prems(3,5,6) unfolding tables_copied_def by auto
      then show "maps_frame (entry s2 d t) f = maps_frame (entry s d t) f" by simp
    qed
    ultimately have "frames_kept (shares s nr (Suc d1) n) s2 s'" by simp
    then have "frames_kept (\<lambda>f. share s d1 0 nr f + shares s nr (Suc d1) n f) s s'" by (rule frames_kept_trans [OF k1])
    moreover have "shares s nr d1 (Suc n) = (\<lambda>f. share s d1 0 nr f + shares s nr (Suc d1) n f)" by (rule ext) simp
    ultimately show ?thesis by (simp only:)
  qed
qed

lemma pool_low: "pool s f \<Longrightarrow> \<not> f < LOW_MEM"
  by (simp add: pool_def managed_def not_less)

text \<open>An address that maps a kept frame reads what was read through it before.\<close>

lemma frames_kept_read:
  fixes s s' :: "'a mm_scheme"
  assumes k: "frames_kept extra s s'" and inv: "vm_inv own s" and h: "HIGH_MEMORY s' = HIGH_MEMORY s"
    and x: "user_page s x" and y: "4 \<le> dir_index y" "unat y mod 4096 = unat x mod 4096"
    and w: "walk s' y = None \<and> walk s x = None \<or> (\<exists>e e'. walk s x = Some e \<and> walk s' y = Some e' \<and> page_of e' = page_of e)"
  shows "user_page s' y \<and> load_byte y s' = load_byte x s"
proof (cases "walk s x")
  case None
  then show ?thesis using w y(1) by (auto simp: user_page_def load_byte_def)
next
  case (Some e)
  then obtain e' where e': "walk s' y = Some e'" "page_of e' = page_of e" using w by auto
  have f: "pool s (page_of e)" "tables s (page_of e) = {}" "4 \<le> dir_index x" using x Some by (simp_all add: user_page_def)
  then have "refs s (page_of e) \<noteq> 0"
    using vm_inv_used [OF inv f(3) dir_index_less tbl_index_less] Some by (auto simp: walk_def)
  then have kf: "tables s' (page_of e) = {}" "\<And>a. page_of a = page_of e \<Longrightarrow> phys s' a = phys s a"
    using k f(1,2) unfolding frames_kept_def pool_def by blast+
  have wo: "word_of e' y = word_of e x" using e'(2) y(2) by (simp add: word_of_def)
  have "unat z mod 4 = unat z mod 4096 mod 4" for z :: u32 by (simp add: mod_mod_cancel)
  then have bo: "byte_of y = byte_of x" using y(2) by (simp only: byte_of_def)
  have "page_of (word_of e x) = page_of e" by (simp add: word_of_def)
  then have "phys s' (word_of e x) = phys s (word_of e x)" by (rule kf(2))
  then show ?thesis using e' Some kf(1) f(1) y(1) by (simp add: user_page_def load_byte_def wo bo pool_def h)
qed

lemma shares_0:
  assumes "\<And>d' t. d \<le> d' \<Longrightarrow> d' < d + n \<Longrightarrow> t < nr \<Longrightarrow> \<not> maps_frame (entry s d' t) f"
  shows "shares s nr d n f = 0"
  using assms
proof (induction n arbitrary: d)
  case (Suc n)
  have "share s d 0 nr f = 0" using Suc.prems by (auto simp: share_card)
  moreover have "shares s nr (Suc d) n f = 0" by (rule Suc.IH) (use Suc.prems in auto)
  ultimately show ?case by simp
qed simp

lemma base_offset:
  assumes "base AND 0x3fffff = (0 :: u32)" "dir_index base + dir_index y < 1024"
  shows "unat (base + y) mod 4096 = unat y mod 4096"
proof -
  note b = dir_aligned [OF assms(1)]
  have y: "unat y < 4194304 * (dir_index y + 1)"
    using div_less_iff_less_mult [of 4194304 "unat y" "dir_index y + 1"] by (simp add: dir_index_def)
  with b assms(2) have "unat base + unat y < 4294967296" by simp
  then have "unat (base + y) = 4096 * (1024 * dir_index base) + unat y" using b by (simp add: unat_word_ariths)
  then show ?thesis by (simp only: mod_mult_self4)
qed

text \<open>The copy of an address space: no frame is written by two tasks, the copy reads what the
  original reads, and the memory of everyone else stays as it is.\<close>

definition in_space :: "u32 \<Rightarrow> nat \<Rightarrow> u32 \<Rightarrow> bool" where
  "in_space base n x \<longleftrightarrow> dir_index base \<le> dir_index x \<and> dir_index x < dir_index base + n"

lemma in_space_offset:
  assumes "base AND 0x3fffff = (0 :: u32)" "in_space base n x"
  obtains y where "x = base + y" "dir_index y < n"
proof
  show "x = base + (x - base)" by simp
  note b = dir_aligned [OF assms(1)]
  have d: "dir_index base \<le> unat x div 4194304" "unat x div 4194304 < dir_index base + n"
    using assms(2) by (simp_all add: in_space_def dir_index_def)
  then have "4194304 * dir_index base \<le> unat x" by (simp add: less_eq_div_iff_mult_less_eq mult.commute)
  then have "base \<le> x" "unat x = 4194304 * dir_index base + (unat x - 4194304 * dir_index base)"
    using b by (simp_all add: word_le_nat_alt)
  then have "unat x div 4194304 = dir_index base + unat (x - base) div 4194304"
    using b by (simp add: unat_sub)
  then show "dir_index (x - base) < n" using d(2) by (simp add: dir_index_def)
qed

text \<open>The translations after the copy of an address space of \<open>n\<close> tables.\<close>

definition space_copied :: "u32 \<Rightarrow> u32 \<Rightarrow> nat \<Rightarrow> 'a mm_scheme \<Rightarrow> 'a mm_scheme \<Rightarrow> bool" where
  "space_copied base to n s s' \<longleftrightarrow>
     (\<forall>y. dir_index y < n \<longrightarrow> walk s' (to + y) = map_option copied (walk s (base + y))) \<and>
     (\<forall>y. \<not> in_space to n y \<longrightarrow> walk s' y = (if in_space base n y then map_option shared (walk s y) else walk s y))"

lemma space_copied_walk:
  assumes "space_copied base to n s s'"
  shows "dir_index y < n \<Longrightarrow> walk s' (to + y) = map_option copied (walk s (base + y))"
    and "\<not> in_space to n y \<Longrightarrow> walk s' y = (if in_space base n y then map_option shared (walk s y) else walk s y)"
  using assms by (simp_all add: space_copied_def)

text \<open>Where an entry comes from; only those outside of the two address spaces can be writable.\<close>

lemma copied_entry_source:
  fixes s s' :: "'a mm_scheme"
  assumes ok: "user_ok own s" and b: "base AND 0x3fffff = 0" "to AND 0x3fffff = 0" "4 \<le> dir_index base" "dir_index base + n \<le> 1024"
    and w: "space_copied base to n s s'" and y: "4 \<le> dir_index y" "walk s' y = Some e"
  obtains x e0 where "4 \<le> dir_index x" "walk s x = Some e0" "page_of e0 = page_of e"
    "e AND 2 \<noteq> 0 \<Longrightarrow> x = y \<and> e0 AND 2 \<noteq> 0 \<and> \<not> in_space base n y"
proof (cases "in_space to n y")
  case True
  then obtain z where z: "y = to + z" "dir_index z < n" by (rule in_space_offset [OF b(2)])
  then obtain e0 where e0: "walk s (base + z) = Some e0" "e = copied e0"
    using space_copied_walk(1) [OF w] y by (cases "walk s (base + z)") auto
  have "dir_index base + dir_index z < 1024" using z(2) b(4) by linarith
  then have "4 \<le> dir_index (base + z)" using index_add(1) [OF b(1)] b(3) by simp
  then show thesis using e0 by (intro that [of "base + z" e0]) simp_all
next
  case False
  note w = space_copied_walk(2) [OF w this]
  show thesis
  proof (cases "in_space base n y")
    case True
    then obtain e0 where e0: "walk s y = Some e0" "e = shared e0" using w y by (cases "walk s y") auto
    have "page_of e0 < LOW_MEM" if "e0 AND 2 \<noteq> 0" "e AND 2 \<noteq> 0"
      using that e0(2) by (auto simp: shared_def not_le split: if_splits)
    moreover have "pool s (page_of e0)" if "e0 AND 2 \<noteq> 0"
      using user_okD(4) [OF ok y(1) e0(1) that] e0(1) by (simp add: private_page_def)
    moreover have "e0 AND 2 \<noteq> 0" if "e AND 2 \<noteq> 0" using that e0(2) by (auto simp: shared_def split: if_splits)
    ultimately have "e AND 2 = 0" using pool_low by blast
    then show thesis using e0 y(1) by (intro that [of y e0]) simp_all
  next
    case False
    then have "walk s y = Some e" using w y by simp
    then show thesis using y(1) False by (intro that [of y e]) simp_all
  qed
qed

lemma private_mappers:
  assumes "vm_inv own s" "private_page s y" "walk s y = Some e"
  shows "mappers s (page_of e) = {(dir_index y, tbl_index y)}"
proof -
  have "4 \<le> dir_index y" using assms(2) by (simp add: private_page_def)
  then have "(dir_index y, tbl_index y) \<in> mappers s (page_of e)" using assms(3) by (simp add: mappers_def walk_def)
  moreover have "card (mappers s (page_of e)) \<le> Suc 0" using private_uses(1) [OF assms] by (simp add: uses_def)
  then have "\<forall>a \<in> mappers s (page_of e). \<forall>b \<in> mappers s (page_of e). a = b"
    using card_le_Suc0_iff_eq [OF finite_mappers] by blast
  ultimately show ?thesis by blast
qed

lemma user_ok_copied:
  fixes s s' :: "'a mm_scheme"
  assumes ok: "user_ok own s" and vm: "vm_inv own s'" and ps: "pool s' = pool s"
    and b: "base AND 0x3fffff = 0" "to AND 0x3fffff = 0" "4 \<le> dir_index base" "dir_index base + n \<le> 1024"
    and k: "frames_kept (shares s 1024 (dir_index base) n) s s'" and w: "space_copied base to n s s'"
  shows "user_ok own s'"
  unfolding user_ok_def
proof (intro conjI allI impI vm)
  fix y e
  assume a: "4 \<le> dir_index y \<and> walk s' y = Some e"
  then obtain x e0 where x: "4 \<le> dir_index x" "walk s x = Some e0" "page_of e0 = page_of e"
    and wr: "e AND 2 \<noteq> 0 \<Longrightarrow> x = y \<and> e0 AND 2 \<noteq> 0 \<and> \<not> in_space base n y"
    using copied_entry_source [OF ok b w] by metis
  show "page_of e < LOW_MEM \<or> pool s' (page_of e)" using user_okD(2) [OF ok x(1,2)] x(3) ps by simp
  assume e2: "e AND 2 \<noteq> 0"
  then have pp: "private_page s y" using user_okD(4) [OF ok x(1,2)] wr by blast
  have wy: "walk s y = Some e0" using x(2) wr e2 by blast
  have p: "pool s (page_of e)" "refs s (page_of e) = 1" using pp wy x(3) by (simp_all add: private_page_def)
  then show "pool s' (page_of e)" using ps by simp
  have "\<not> maps_frame (entry s d t) (page_of e)" if "dir_index base \<le> d" "d < dir_index base + n" "t < 1024" for d t
  proof -
    have "(d, t) \<notin> mappers s (page_of e)"
      using private_mappers [OF user_okD(1) [OF ok] pp wy] x(3) that wr [OF e2] by (auto simp: in_space_def)
    then show ?thesis using that b(3,4) by (auto simp: mappers_def maps_frame_def split: option.splits)
  qed
  then have "shares s 1024 (dir_index base) n (page_of e) = 0" by (rule shares_0)
  then show "refs s' (page_of e) = 1"
    using k p private_uses(2) [OF user_okD(1) [OF ok] pp wy] x(3) unfolding frames_kept_def pool_def by auto
qed

lemma fork_pages:
  fixes s :: "'a mm_scheme"
  assumes ok: "user_ok own s" and b: "base AND 0x3fffff = 0" "to AND 0x3fffff = 0" "4 \<le> dir_index base" "4 \<le> dir_index to"
    and r: "dir_index base + dir_count sz \<le> 1024" "dir_index to + dir_count sz \<le> 1024"
      "dir_index base + dir_count sz \<le> dir_index to \<or> dir_index to + dir_count sz \<le> dir_index base"
    and none: "\<forall>d. dir_index to \<le> d \<and> d < dir_index to + dir_count sz \<longrightarrow> \<not> dir_present s d"
    and cp: "copyable 1024 (dir_index base) (dir_count sz) s"
    and res: "copy_page_tables base to sz s = Inr (0, s')"
  shows "user_ok own s'"
    and "\<And>y. user_page s y \<Longrightarrow> \<not> in_space to (dir_count sz) y \<Longrightarrow> user_page s' y \<and> load_byte y s' = load_byte y s"
    and "\<And>y. dir_index y < dir_count sz \<Longrightarrow> user_page s (base + y) \<Longrightarrow>
      user_page s' (to + y) \<and> load_byte (to + y) s' = load_byte (base + y) s"
proof -
  let ?d1 = "dir_index base" and ?d2 = "dir_index to" and ?n = "dir_count sz"
  note inv = user_okD(1) [OF ok]
  have b0: "base \<noteq> 0" using b(3) by (auto simp: dir_index_def)
  have cd: "copy_dirs 1024 ?n (slot 0 ?d1) (slot 0 ?d2) s = Inr (0, s')"
    using res b0 b(1,2) by (simp add: copy_page_tables_def dir_offset_eq_slot dir_count_def)
  have nn: "\<And>d. ?d2 \<le> d \<Longrightarrow> d < ?d2 + ?n \<Longrightarrow> \<not> dir_present s d" using none by blast
  obtain m where vm: "vm_inv own s'" and tc: "tables_copied 1024 ?n ?d1 ?d2 s s'"
    using copy_dirs_spec [OF inv b(4) r le_refl nn cp] cd by auto
  have k: "frames_kept (shares s 1024 ?d1 ?n) s s'"
    by (rule copy_dirs_kept [OF inv b(4) r le_refl nn cp cd])
  have h: "HIGH_MEMORY s' = HIGH_MEMORY s" using tc by (simp add: tables_copied_def)
  then have ps: "pool s' = pool s" by (simp add: pool_def fun_eq_iff)
  have en: "entry s' d t = (if ?d2 \<le> d \<and> d < ?d2 + ?n then map_option copied (entry s (d - ?d2 + ?d1) t)
        else if ?d1 \<le> d \<and> d < ?d1 + ?n then map_option shared (entry s d t) else entry s d t)"
    if "d < 1024" "t < 1024" for d t
    using tc that unfolding tables_copied_def by simp
  have sc: "space_copied base to ?n s s'"
    unfolding space_copied_def
  proof (intro conjI allI impI)
    show "walk s' (to + y) = map_option copied (walk s (base + y))" if "dir_index y < ?n" for y
      using that r index_add [OF b(1), of y] index_add [OF b(2), of y] by (simp add: walk_def en add.commute)
    show "walk s' y = (if in_space base ?n y then map_option shared (walk s y) else walk s y)" if "\<not> in_space to ?n y" for y
      using that by (auto simp: walk_def en in_space_def)
  qed
  note wt = space_copied_walk(1) [OF sc] and ws = space_copied_walk(2) [OF sc]
  show "user_page s' y \<and> load_byte y s' = load_byte y s" if "user_page s y" "\<not> in_space to ?n y" for y
  proof (rule frames_kept_read [OF k inv h that(1)])
    show "4 \<le> dir_index y" using that(1) by (simp add: user_page_def)
    show "walk s' y = None \<and> walk s y = None \<or> (\<exists>e e'. walk s y = Some e \<and> walk s' y = Some e' \<and> page_of e' = page_of e)"
      using ws [OF that(2)] by (cases "walk s y") auto
  qed simp
  show "user_page s' (to + y) \<and> load_byte (to + y) s' = load_byte (base + y) s"
    if "dir_index y < ?n" "user_page s (base + y)" for y
  proof (rule frames_kept_read [OF k inv h that(2)])
    have less: "?d1 + dir_index y < 1024" "?d2 + dir_index y < 1024" using that(1) r by linarith+
    show "4 \<le> dir_index (to + y)" using index_add(1) [OF b(2) less(2)] b(4) by simp
    show "unat (to + y) mod 4096 = unat (base + y) mod 4096"
      using base_offset [OF b(1) less(1)] base_offset [OF b(2) less(2)] by simp
    show "walk s' (to + y) = None \<and> walk s (base + y) = None \<or>
      (\<exists>e e'. walk s (base + y) = Some e \<and> walk s' (to + y) = Some e' \<and> page_of e' = page_of e)"
      using wt [OF that(1)] by (cases "walk s (base + y)") auto
  qed
  show "user_ok own s'" by (rule user_ok_copied [OF ok vm ps b(1-3) r(1) k sc])
qed

section \<open>A fork with enough frames succeeds\<close>

definition free_frames :: "'a mm_scheme \<Rightarrow> nat" where
  "free_frames s = card {f. managed f \<and> refs s f = 0}"

lemma share_0:
  assumes "copyable nr d1 (Suc n) s" "managed f" "refs s f = 0"
  shows "share s d1 0 nr f = 0"
proof -
  have "\<not> maps_frame (entry s d1 u) f" if "u < nr" for u
  proof
    assume "maps_frame (entry s d1 u) f"
    then obtain e where "entry s d1 u = Some e" "page_of e = f" by (auto simp: maps_frame_def split: option.splits)
    then show False using copyableD(2) [OF assms(1) le_refl _ that] assms(2,3) by simp
  qed
  then show ?thesis by (auto simp: share_card)
qed

lemma free_frames_alloc:
  assumes "get_free_page s = (p, s1)" "p \<noteq> 0" "\<And>f. managed f \<Longrightarrow> refs s' f = 0 \<longleftrightarrow> f \<noteq> p \<and> refs s f = 0"
  shows "free_frames s = Suc (free_frames s')"
proof -
  note g = get_free_page_nonzero [OF assms(1,2)]
  have "{f. managed f \<and> refs s f = 0} = insert p {f. managed f \<and> refs s' f = 0}" using g(1,2) assms(3) by auto
  moreover have "p \<notin> {f. managed f \<and> refs s' f = 0}" using assms(3) by auto
  ultimately show ?thesis by (simp add: free_frames_def)
qed

lemma copy_dirs_enough:
  fixes s :: "'a mm_scheme"
  assumes "vm_inv own s" "4 \<le> d2" "d1 + n \<le> 1024" "d2 + n \<le> 1024" "d1 + n \<le> d2 \<or> d2 + n \<le> d1" "nr \<le> 1024"
    and "\<And>d. d2 \<le> d \<Longrightarrow> d < d2 + n \<Longrightarrow> \<not> dir_present s d" and "copyable nr d1 n s" "n \<le> free_frames s"
  shows "\<exists>s'. copy_dirs nr n (slot 0 d1) (slot 0 d2) s = Inr (0, s')"
  using assms
proof (induction n arbitrary: d1 d2 s)
  case (Suc n)
  note prems = Suc.prems
  have d: "d1 < 1024" "d2 < 1024" "d1 \<noteq> d2" using prems(3-5) by auto
  have ndp: "\<not> dir_present s d2" using prems(7) by simp
  then have nd2: "\<not> 1 AND phys s (slot 0 d2) \<noteq> 0" by (simp add: dir_present_def dirent_def and.commute)
  have dp1: "1 AND phys s (slot 0 d1) = 0 \<longleftrightarrow> \<not> dir_present s d1"
    by (simp add: dir_present_def dirent_def and.commute)
  show ?case
  proof (cases "dir_present s d1")
    case False
    have "\<exists>s'. copy_dirs nr n (slot 0 (Suc d1)) (slot 0 (Suc d2)) s = Inr (0, s')"
      using prems copyable_tail [OF prems(8)] by (intro Suc.IH) auto
    then show ?thesis using nd2 dp1 False by (simp only: copy_dirs.simps if_False slot_Suc) simp
  next
    case True
    obtain p s1 where g: "get_free_page s = (p, s1)" by fastforce
    have tab: "0xfffff000 AND phys s (slot 0 d1) = table s d1" by (simp add: table_def dirent_def and.commute)
    have p: "p \<noteq> 0"
    proof
      assume "p = 0"
      then have "free_frames s = 0" using get_free_page_0 g by (force simp: free_frames_def)
      then show False using prems(9) by simp
    qed
    obtain s2 where s2: "copy_entries nr (table s d1) p (store (slot 0 d2) (p OR 7) s1) = Inr s2"
      "vm_inv own s2" "tables_copied nr 1 d1 d2 s s2" "refs s p = 0"
      "\<forall>f. refs s2 f = (if f = p then 1 else refs s f) + (if managed f then share s d1 0 nr f else 0)"
      by (rule copy_table_step [OF prems(1) d(1) prems(2) d(2,3) prems(6) True ndp prems(8) g p])
    have "free_frames s = Suc (free_frames s2)"
      by (rule free_frames_alloc [OF g p]) (use s2(5) share_0 [OF prems(8)] in auto)
    moreover have "\<not> dir_present s2 x" if "Suc d2 \<le> x" "x < Suc d2 + n" for x
      using s2(3) prems(4) prems(7) [of x] that unfolding tables_copied_def by auto
    ultimately have "\<exists>s'. copy_dirs nr n (slot 0 (Suc d1)) (slot 0 (Suc d2)) s2 = Inr (0, s')"
      using prems(2-6,9) s2(2) copyable_next [OF prems(8) s2(3,4,5) prems(5,3,6)] by (intro Suc.IH) auto
    then show ?thesis using nd2 dp1 True g p s2(1) by (simp add: tab slot_Suc)
  qed
qed simp

lemma copy_page_tables_enough:
  fixes s :: "'a mm_scheme"
  defines "nr \<equiv> \<lambda>base :: u32. if base = 0 then 0xA0 else 1024 :: nat"
  assumes "vm_inv own s" "base AND 0x3fffff = 0" "to AND 0x3fffff = 0" "4 \<le> dir_index to"
    "dir_index base + dir_count sz \<le> 1024" "dir_index to + dir_count sz \<le> 1024"
    "dir_index base + dir_count sz \<le> dir_index to \<or> dir_index to + dir_count sz \<le> dir_index base"
    "\<forall>d. dir_index to \<le> d \<and> d < dir_index to + dir_count sz \<longrightarrow> \<not> dir_present s d"
    "copyable (nr base) (dir_index base) (dir_count sz) s" "dir_count sz \<le> free_frames s"
  shows "\<exists>s'. copy_page_tables base to sz s = Inr (0, s')"
proof -
  have "nr base \<le> 1024" by (simp add: nr_def)
  then have "\<exists>s'. copy_dirs (nr base) (dir_count sz) (slot 0 (dir_index base)) (slot 0 (dir_index to)) s = Inr (0, s')"
    using assms(9) by (intro copy_dirs_enough [OF assms(2,5-8) _ _ assms(10,11)]) blast+
  then show ?thesis using assms(3,4) by (simp add: copy_page_tables_def dir_offset_eq_slot dir_count_def nr_def)
qed

lemma child_tables_copied:
  fixes s :: "'a kern_scheme" and t :: "'b kern_scheme"
  assumes "kernel_ok own s" "base AND 0x3fffff = 0" "dir_index base + dir_count sz \<le> 1024" "dir_count sz \<le> 16"
    "dir_index base + dir_count sz \<le> 16 * nr \<or> 16 * nr + dir_count sz \<le> dir_index base"
    "\<forall>d. 16 * nr \<le> d \<and> d < 16 * nr + dir_count sz \<longrightarrow> \<not> dir_present s d"
    "copyable (if base = 0 then 0xA0 else 1024) (dir_index base) (dir_count sz) s" "1 \<le> nr" "nr < 64"
    and g: "get_free_page s = (p, s1)" "p \<noteq> 0" and free: "dir_count sz < free_frames s"
    and tm: "HIGH_MEMORY t = HIGH_MEMORY s1" "mem_map t = mem_map s1" "phys t = phys s1"
  shows "\<exists>s2. copy_page_tables base (new_base nr) sz t = Inr (0, s2)"
proof -
  note k = kernel_okD [OF assms(1)] and nb = new_base_facts [OF assms(9)] and m = mm_cong [OF tm]
  have "vm_inv (own(p := 1)) t" using vm_inv_take(1) [OF k(2) g] by (simp add: m)
  moreover have "copyable (if base = 0 then 0xA0 else 1024) (dir_index base) (dir_count sz) t"
    using copyable_alloc [OF k(2) assms(7) g assms(3)] by (simp add: m)
  moreover have "\<forall>d. 16 * nr \<le> d \<and> d < 16 * nr + dir_count sz \<longrightarrow> \<not> dir_present t d"
    using assms(4,6,9) dir_present_alloc [OF vm_invD(1) [OF k(2)] g] by (simp add: m)
  moreover have "dir_count sz \<le> free_frames t"
    using free_frames_alloc [OF g, of s1] free get_free_page_nonzero(3) [OF g] by (simp add: free_frames_def m)
  moreover have "4 \<le> 16 * nr" "16 * nr + dir_count sz \<le> 1024" using assms(4,8,9) by auto
  ultimately show ?thesis
    using assms(2,3,5) nb(3) by (intro copy_page_tables_enough [where own = "own(p := 1)"]) (simp_all only: nb(2))
qed

text \<open>The steps of a fork that succeeds: a frame for the descriptor, and the copy of the tables.\<close>

lemma copy_process_success:
  fixes s :: "'a kern_scheme"
  assumes "kernel_ok own s" "forkable nr s" "1 \<le> nr" "nr < 64" "task s nr = 0"
  defines "me \<equiv> tstruct s (current s)"
  assumes free: "dir_count (get_limit (ldt me 2)) < free_frames s"
  obtains p s1 and t s2 s' :: "'a kern_scheme" where "get_free_page s = (p, s1)" "p \<noteq> 0"
    "HIGH_MEMORY t = HIGH_MEMORY s1" "mem_map t = mem_map s1" "phys t = phys s1"
    "copy_page_tables (get_base (ldt me 2)) (new_base nr) (get_limit (ldt me 2)) t = Inr (0, s2)"
    "copy_process nr r s = Inr (last_pid s, s')" "task s' nr = p" "current s' = current s" "kern.more s' = kern.more s"
    "HIGH_MEMORY s' = HIGH_MEMORY s2" "mem_map s' = mem_map s2" "phys s' = phys s2"
proof -
  note k = kernel_okD [OF assms(1)] and w = wf_tasksD [OF kernel_okD(1) [OF assms(1)]]
  let ?base = "get_base (ldt me 2)" and ?lim = "get_limit (ldt me 2)"
  let ?n = "dir_count ?lim"
  have f: "get_base (ldt me 1) = ?base" "get_limit (ldt me 1) \<le> ?lim" "?base AND 0x3fffff = 0"
    "dir_index ?base + ?n \<le> 1024" "?n \<le> 16" "dir_index ?base + ?n \<le> 16 * nr \<or> 16 * nr + ?n \<le> dir_index ?base"
    "\<forall>d. 16 * nr \<le> d \<and> d < 16 * nr + ?n \<longrightarrow> \<not> dir_present s d"
    "copyable (if ?base = 0 then 0xA0 else 1024) (dir_index ?base) ?n s"
    using assms(2) unfolding forkable_def Let_def me_def by blast+
  obtain p s1 where g: "get_free_page s = (p, s1)" by fastforce
  have p: "p \<noteq> 0"
  proof
    assume "p = 0"
    then have "free_frames s = 0" using get_free_page_0 g by (force simp: free_frames_def)
    then show False using free by simp
  qed
  have nc: "current s \<noteq> p" using w(4) fresh_not_task [OF assms(1) g p] by blast
  note r1 = kern_rest [OF more_get_free_page [OF g, THEN conjunct1]]
  let ?s = "place_child nr p r s1"
  define t where "t = upd_task p (\<lambda>t. t\<lparr>start_code := new_base nr,
      ldt := (ldt t)(1 := set_base (new_base nr) (ldt t 1), 2 := set_base (new_base nr) (ldt t 2))\<rparr>) ?s"
  have tm: "HIGH_MEMORY t = HIGH_MEMORY s1" "mem_map t = mem_map s1" "phys t = phys s1"
    and t: "task t nr = p" "last_pid t = last_pid s" "current t = current s" "kern.more t = kern.more s"
    using r1 by (simp_all add: t_def place_child_def)
  obtain s2 where s2: "copy_page_tables ?base (new_base nr) ?lim t = Inr (0, s2)"
    using child_tables_copied [OF assms(1) f(3-8) assms(3,4) g p free tm] by blast
  note r2 = kern_rest [OF more_copy_page_tables [OF s2, THEN conjunct1]]
  have "tstruct ?s (current ?s) = me" using nc r1 by (simp add: place_child_def me_def)
  then have "copy_mem nr p ?s = Inr (0, s2)"
    using s2 f(1) f(2) [folded not_less] unfolding copy_mem_def Let_def t_def by simp
  then have "copy_process nr r s = Inr (last_pid s, start_child nr p s2)"
    using copy_process_steps [OF g p, of nr r] r2 t by simp
  moreover have "task (start_child nr p s2) nr = p" "current (start_child nr p s2) = current s"
    "kern.more (start_child nr p s2) = kern.more s" "HIGH_MEMORY (start_child nr p s2) = HIGH_MEMORY s2"
    "mem_map (start_child nr p s2) = mem_map s2" "phys (start_child nr p s2) = phys s2"
    using r2 t by (simp_all add: start_child_def)
  ultimately show thesis using that g p tm s2 by blast
qed

text \<open>Memory and byte map decide what the tasks see.\<close>

lemma user_cong:
  fixes s :: "'a mm_scheme" and s' :: "'b mm_scheme"
  assumes "HIGH_MEMORY s' = HIGH_MEMORY s" "mem_map s' = mem_map s" "phys s' = phys s"
  shows "user_ok own s' = user_ok own s" "user_page s' y = user_page s y" "load_byte y s' = load_byte y s"
proof -
  note m = mm_cong [OF assms]
  have "tables s' f = tables s f" for f by (simp add: tables_def m)
  then show "user_ok own s' = user_ok own s" "user_page s' y = user_page s y" "load_byte y s' = load_byte y s"
    by (simp_all add: user_ok_def user_page_def load_byte_def m assms(3) cong: option.case_cong)
qed

section \<open>Runs of user programs\<close>

text \<open>The writes of the tasks in user mode, in the order in which they happen, with the faults they cause.\<close>

primrec user_stores :: "(u32 \<times> u8) list \<Rightarrow> 'a mm_scheme \<Rightarrow> kerror + 'a mm_scheme" where
  "user_stores [] s = Inr s"
| "user_stores (w # ws) s = kbind (user_store (fst w) (snd w) s) (user_stores ws)"

lemma user_stores_spec:
  fixes s :: "'a mm_scheme"
  assumes "user_ok own s" "\<forall>w \<in> set ws. 4 \<le> dir_index (fst w)" "user_stores ws s = Inr s'"
  shows "user_ok own s' \<and> mm.more s' = mm.more s \<and>
    (\<forall>y. user_page s y \<and> page_of y \<notin> (page_of \<circ> fst) ` set ws \<longrightarrow> user_page s' y \<and> load_byte y s' = load_byte y s)"
  using assms
proof (induction ws arbitrary: s)
  case (Cons w ws)
  obtain s1 where s1: "user_store (fst w) (snd w) s = Inr s1" "user_stores ws s1 = Inr s'"
    using Cons.prems(3) by (auto simp: kbind_elim)
  have "4 \<le> dir_index (fst w)" "\<forall>w \<in> set ws. 4 \<le> dir_index (fst w)" using Cons.prems(2) by simp_all
  with user_store_spec [OF Cons.prems(1) _ s1(1)] Cons.IH [OF _ _ s1(2)] show ?case by auto
qed simp

text \<open>Taking a frame changes no user page.\<close>

lemma user_ok_alloc:
  fixes s :: "'a mm_scheme"
  assumes ok: "user_ok own s" and g: "get_free_page s = (p, s1)" "p \<noteq> 0"
  shows "user_ok (own(p := 1)) s1"
    and "\<And>y. user_page s y \<Longrightarrow> user_page s1 y \<and> load_byte y s1 = load_byte y s"
proof -
  note inv = user_okD(1) [OF ok]
  note gp = get_free_page_nonzero [OF g] and al = vm_invD(1) [OF inv] g
  have w: "walk s1 y = walk s y" for y by (simp add: walk_def entry_alloc [OF al])
  have ps: "pool s1 = pool s" by (simp add: pool_def fun_eq_iff gp(5))
  have "tables s1 f = tables s f" for f
    by (auto simp: tables_def dir_present_alloc [OF al] table_alloc [OF al])
  then have "frames_kept (\<lambda>_. 0) s s1" using gp(2) by (auto simp: frames_kept_def gp(3,4) clear_page_def)
  note kept = frames_kept_read [OF this inv gp(5)]
  show "user_page s1 y \<and> load_byte y s1 = load_byte y s" if "user_page s y" for y
  proof (rule kept [OF that])
    show "4 \<le> dir_index y" using that by (simp add: user_page_def)
    show "walk s1 y = None \<and> walk s y = None \<or> (\<exists>e e'. walk s y = Some e \<and> walk s1 y = Some e' \<and> page_of e' = page_of e)"
      by (cases "walk s y") (simp_all add: w)
  qed simp
  show "user_ok (own(p := 1)) s1"
    unfolding user_ok_def
  proof (intro conjI allI impI)
    show "vm_inv (own(p := 1)) s1" by (rule vm_inv_take(1) [OF inv g])
    fix y e assume a: "4 \<le> dir_index y \<and> walk s1 y = Some e"
    then show "page_of e < LOW_MEM \<or> pool s1 (page_of e)" using user_okD(2) [OF ok, of y e] by (simp add: w ps)
    assume "e AND 2 \<noteq> 0"
    then have "pool s (page_of e)" "refs s (page_of e) = 1" using ok a unfolding user_ok_def w by blast+
    then show "pool s1 (page_of e)" "refs s1 (page_of e) = 1" using gp(2) by (auto simp: ps gp(3))
  qed
qed

text \<open>The memory after a fork that succeeds.\<close>

lemma fork_memory:
  fixes s :: "'a kern_scheme"
  defines "me \<equiv> tstruct s (current s)"
  defines "base \<equiv> get_base (ldt me 2)" and "n \<equiv> dir_count (get_limit (ldt me 2))"
  assumes "kernel_ok own s" and "user_ok own s" and "forkable nr s" and "1 \<le> nr" and "nr < 64" and "task s nr = 0"
    and "4 \<le> dir_index base" and "n < free_frames s"
  shows "\<exists>s'. copy_process nr r s = Inr (last_pid s, s') \<and> user_ok (own(task s' nr := 1)) s' \<and>
    task s' nr \<noteq> 0 \<and> current s' = current s \<and> kern.more s' = kern.more s \<and>
    (\<forall>y. dir_index y < n \<and> user_page s (base + y) \<longrightarrow>
      user_page s' (new_base nr + y) \<and> load_byte (new_base nr + y) s' = load_byte (base + y) s) \<and>
    (\<forall>y. user_page s y \<and> \<not> in_space (new_base nr) n y \<longrightarrow> user_page s' y \<and> load_byte y s' = load_byte y s)"
proof -
  obtain p s1 and t s2 s' :: "'a kern_scheme" where g: "get_free_page s = (p, s1)" "p \<noteq> 0"
    and tm: "HIGH_MEMORY t = HIGH_MEMORY s1" "mem_map t = mem_map s1" "phys t = phys s1"
    and c: "copy_page_tables base (new_base nr) (get_limit (ldt me 2)) t = Inr (0, s2)"
    and res: "copy_process nr r s = Inr (last_pid s, s')" "task s' nr = p"
    and mr: "current s' = current s" "kern.more s' = kern.more s" and sm: "HIGH_MEMORY s' = HIGH_MEMORY s2" "mem_map s' = mem_map s2" "phys s' = phys s2"
    using copy_process_success [OF assms(4,6-9) assms(11) [unfolded n_def me_def], folded me_def, folded base_def] .
  note nb = new_base_facts [OF assms(8)] and mt = mm_cong [OF tm]
  note ut = user_cong [OF tm] and us = user_cong [OF sm]
  note a = user_ok_alloc [OF assms(5) g, folded ut]
  have f: "base AND 0x3fffff = 0" "dir_index base + n \<le> 1024" "n \<le> 16"
    "dir_index base + n \<le> 16 * nr \<or> 16 * nr + n \<le> dir_index base"
    "\<forall>d. 16 * nr \<le> d \<and> d < 16 * nr + n \<longrightarrow> \<not> dir_present s d"
    "copyable (if base = 0 then 0xA0 else 1024) (dir_index base) n s"
    using assms(6) unfolding forkable_def Let_def me_def [symmetric] base_def [symmetric] n_def [symmetric] by blast+
  have b0: "base \<noteq> 0" using assms(10) by (auto simp: dir_index_def)
  have cp: "copyable 1024 (dir_index base) n t"
    using copyable_alloc [OF kernel_okD(2) [OF assms(4)] f(6) g f(2)] b0 by (simp add: mt)
  have r: "4 \<le> 16 * nr" "16 * nr + n \<le> 1024" using assms(7,8) f(3) by auto
  have np: "\<forall>d. 16 * nr \<le> d \<and> d < 16 * nr + n \<longrightarrow> \<not> dir_present t d"
    using f(5) r(2) dir_present_alloc [OF vm_invD(1) [OF kernel_okD(2) [OF assms(4)]] g] by (auto simp: mt)
  note fk = fork_pages [OF a(1) f(1) nb(3) assms(10), of "get_limit (ldt me 2)" s2, folded n_def, unfolded nb(2),
      OF r(1) f(2) r(2) f(4) np cp c, folded us]
  have child: "user_page s' (new_base nr + y) \<and> load_byte (new_base nr + y) s' = load_byte (base + y) s"
    if "dir_index y < n" "user_page s (base + y)" for y
    using fk(3) [OF that(1)] a(2) [OF that(2)] by simp
  have others: "user_page s' y \<and> load_byte y s' = load_byte y s" if "user_page s y" "\<not> in_space (new_base nr) n y" for y
    using fk(2) [OF _ that(2)] a(2) [OF that(1)] by simp
  show ?thesis using res g(2) mr fk(1) child others by (intro exI [of _ s']) blast
qed

section \<open>A closed example\<close>

text \<open>A parent whose pages are shared already, with a descriptor in a frame of its own.\<close>

definition parent_frame :: "u32 \<times> mm" where
  "parent_frame = get_free_page two_sharers"

definition parent_kern :: kern where
  "parent_kern = pair_kern 0 (snd parent_frame) (fst parent_frame)"

lemma copyable_two_sharers: "copyable 1024 16 1 two_sharers"
  unfolding copyable_def
proof (intro allI impI)
  fix d t e
  assume "16 \<le> d \<and> d < 16 + 1 \<and> t < 1024 \<and> entry two_sharers d t = Some e"
  then have "e = 0xf00005 \<or> e = 0xf01007" by (auto simp: entry_two_sharers split: if_splits)
  then have f: "page_of e = 0xf00000 \<or> page_of e = 0xf01000" by auto
  have "shares two_sharers 1024 16 1 f \<le> 3" for f
  proof -
    have "{u. u < 1024 \<and> maps_frame (entry two_sharers 16 u) f} \<subseteq> {0, 1, 2}"
      by (auto simp: maps_frame_def entry_two_sharers split: if_splits)
    then have "card {u. u < 1024 \<and> maps_frame (entry two_sharers 16 u) f} \<le> card {0, 1, 2 :: nat}"
      by (rule card_mono [rotated]) simp
    then show ?thesis by (simp add: share_card)
  qed
  from this [of "page_of e"] f
  show "page_of e < 0x1000000 \<and> (managed (page_of e) \<longrightarrow> 0 < refs two_sharers (page_of e) \<and>
      refs two_sharers (page_of e) + shares two_sharers 1024 16 1 (page_of e) < 256)"
    by (auto simp: refs_two_sharers)
qed

lemma parent_kern_ok:
  obtains own where "kernel_ok own parent_kern" "user_ok own parent_kern" "forkable 2 parent_kern"
    "task parent_kern 2 = 0" "1 < free_frames parent_kern"
    "get_base (ldt (tstruct parent_kern (current parent_kern)) 2) = 0x4000000"
    "get_limit (ldt (tstruct parent_kern (current parent_kern)) 2) = 0xa0000"
    "user_page parent_kern 0x4000000" "load_byte 0x4000000 parent_kern = 42"
proof -
  obtain p m where g: "get_free_page two_sharers = (p, m)" by fastforce
  have fr: "managed (frame i)" "refs two_sharers (frame i) = 0" if "i < 100" for i
  proof -
    show m: "managed (frame i)" using that by simp
    have "unat (frame i) < 0xf00000" using that by (simp add: unat_frame)
    then have "frame i \<noteq> 0xf00000" "frame i \<noteq> 0xf01000" by auto
    then show "refs two_sharers (frame i) = 0" by (simp add: refs_two_sharers [OF m])
  qed
  have nz: "p \<noteq> 0"
  proof
    assume "p = 0"
    then have "\<forall>f. managed f \<longrightarrow> refs two_sharers f \<noteq> 0" using get_free_page_0 g by blast
    then have "refs two_sharers (frame 0) \<noteq> 0" by simp
    then show False using fr(2) [of 0] by simp
  qed
  have pk: "parent_kern = pair_kern 0 m p" by (simp add: parent_kern_def parent_frame_def g)
  let ?own = "(\<lambda>_. 0)(p := 1 :: nat)"
  note pm = pair_kern_simps(1-3) [of 0 m p, folded pk]
  note al = vm_invD(1) [OF two_sharers_vm] g nz and gp = get_free_page_nonzero [OF g nz]
  note ua = user_ok_alloc [OF two_sharers_user_ok g nz]
  have me: "tstruct parent_kern (current parent_kern) = sharer_task\<lparr>father := 0\<rparr>" by (simp add: pk pair_kern_simps)
  have dc: "dir_count 0xa0000 = 1" by (simp add: dir_count_def)
  have b: "dir_index 0x4000000 = 16" by (simp add: dir_index_def)
  have "dir_present m d = (d = 16)" if "d < 1024" for d
    using that by (simp add: dir_present_alloc [OF al] dir_present_def [of two_sharers] two_sharers_dirent)
  then have "forkable 2 parent_kern"
    unfolding forkable_def Let_def me mm_cong [OF pm]
    using copyable_alloc [OF two_sharers_vm copyable_two_sharers g nz]
    by (auto simp: sharers_kern_simps dc b)
  moreover have "1 < free_frames parent_kern"
  proof -
    have "free_frames two_sharers = Suc (free_frames m)" by (rule free_frames_alloc [OF g nz]) (simp add: gp(3))
    moreover have "card (frame ` {0, 1, 2}) \<le> free_frames two_sharers"
      unfolding free_frames_def by (rule card_mono) (use fr in auto)
    moreover have "card (frame ` {0, 1, 2}) = 3" by (simp add: frame_def)
    ultimately show ?thesis by (simp add: free_frames_def mm_cong [OF pm])
  qed
  moreover have "HIGH_MEMORY two_sharers = 0x1000000" "phys two_sharers 0xf00000 = 42" by (simp_all add: two_sharers_def)
  then have "user_page two_sharers 0x4000000" "load_byte 0x4000000 two_sharers = 42"
    using shared_frame(2) walk_two_sharers(1) tables_two_sharers [OF shared_frame(2)]
    by (simp_all add: user_page_def b load_byte_def pool_def word_of_def byte_of_def get_byte_def)
  ultimately show thesis
    using that [of ?own] pair_kern_kernel(2) [OF two_sharers_vm g nz, of 0, folded pk] ua user_cong [OF pm] me
    by (simp add: sharers_kern_simps pk pair_kern_simps)
qed

section \<open>Properties\<close>



end
