(* ===== verification/Kernel_Invariant.thy ===== *)
theory Kernel_Invariant
  imports Syscalls Isolation
begin

text \<open>
  The invariant of the whole kernel, and that every way in keeps it: system calls, page faults,
  ticks of the timer and keys. While a task sleeps the others run; what is needed of them is that
  they keep the invariant too (\<open>env_keeps\<close>). The locale \<open>task_property\<close> collects what a property of the
  state has to stand for the scheduler, the wait queues and the timer to keep it; its interpretation
  \<open>kept\<close> is the invariant.
\<close>

section \<open>What the scheduler keeps\<close>

text \<open>The other tasks keep a property, and come back to the task \<open>c\<close>.\<close>

definition env_keeps :: "('a kern_scheme \<Rightarrow> bool) \<Rightarrow> u32 \<Rightarrow> 'a env \<Rightarrow> bool" where
  "env_keeps good c others \<longleftrightarrow> (\<forall>s s'. good s \<and> others s = Inr s' \<longrightarrow> good s' \<and> current s' = c)"

text \<open>A property of the kernel's state that the scheduler cannot break: it does not depend on the
  fields of descriptors but the LDT, nor on wait queues, the clock and which task is current.\<close>

locale task_property =
  fixes good :: "'a kern_scheme \<Rightarrow> bool"
  assumes good_upd: "\<lbrakk>good s; \<And>t. ldt (f t) = ldt t\<rbrakk> \<Longrightarrow> good (upd_task p f s)"
    and good_cell: "good s \<Longrightarrow> good (set_cell p v s)"
    and good_clock: "good s \<Longrightarrow> good (s\<lparr>jiffies := j, outs := os\<rparr>)"
    and good_switch: "\<lbrakk>good s; i < 64; task s i \<noteq> 0\<rbrakk> \<Longrightarrow> good (s\<lparr>current := task s i\<rparr>)"
    and good_task_0: "good s \<Longrightarrow> task s 0 \<noteq> 0"
begin

lemma good_check_signals: "good s \<Longrightarrow> good (check_signals p s)"
  unfolding check_signals_eq by (rule good_upd) (simp_all add: signalled_def awoken_def alarmed_def)

lemma good_wake_signalled: "good s \<Longrightarrow> good (wake_signalled n s)"
  by (induction n arbitrary: s) (simp_all add: good_check_signals)

lemma good_recharge: "good s \<Longrightarrow> good (recharge n s)"
  by (induction n arbitrary: s) (simp_all add: good_upd)

lemma pick_task_slot:
  "pick_task n s c nxt = (c', nxt') \<Longrightarrow> n < 64 \<Longrightarrow> nxt < 64 \<Longrightarrow> task s nxt \<noteq> 0 \<Longrightarrow> nxt' < 64 \<and> task s nxt' \<noteq> 0"
  by (induction n arbitrary: c nxt) (auto split: if_splits)

lemma pick_loop_good:
  assumes "pick_loop s = Some (nxt, s')" "good s"
  shows "good s' \<and> current s' = current s \<and> task s' = task s \<and> nxt < 64 \<and> task s' nxt \<noteq> 0"
proof -
  have "good s \<longrightarrow> good (snd r) \<and> current (snd r) = current s \<and> task (snd r) = task s \<and> fst r < 64 \<and> task (snd r) (fst r) \<noteq> 0"
    if "pick_loop s = Some r" for r
  proof (rule pick_loop.raw_induct [where P = "\<lambda>s r. good s \<longrightarrow> good (snd r) \<and> current (snd r) = current s \<and>
      task (snd r) = task s \<and> fst r < 64 \<and> task (snd r) (fst r) \<noteq> 0", OF _ that])
    fix loop :: "'a kern_scheme \<Rightarrow> (nat \<times> 'a kern_scheme) option" and s r
    assume IH: "\<And>s r. loop s = Some r \<Longrightarrow> good s \<longrightarrow> good (snd r) \<and> current (snd r) = current s \<and>
      task (snd r) = task s \<and> fst r < 64 \<and> task (snd r) (fst r) \<noteq> 0"
    assume r: "(case pick_task (NR_TASKS - 1) s (-1) 0 of (c, nxt) \<Rightarrow>
        if c \<noteq> 0 then Some (nxt, s) else loop (recharge (NR_TASKS - 1) s)) = Some r"
    obtain c nxt where p: "pick_task (NR_TASKS - 1) s (-1) 0 = (c, nxt)" by fastforce
    show "good s \<longrightarrow> good (snd r) \<and> current (snd r) = current s \<and> task (snd r) = task s \<and> fst r < 64 \<and> task (snd r) (fst r) \<noteq> 0"
    proof (cases "c = 0")
      case True
      then have "loop (recharge (NR_TASKS - 1) s) = Some r" using r p by simp
      from IH [OF this, unfolded recharge_task] good_recharge [of s "NR_TASKS - 1"] show ?thesis by blast
    next
      case False
      then have "r = (nxt, s)" using r p by simp
      then show ?thesis using pick_task_slot [OF p] good_task_0 [of s] by simp
    qed
  qed
  from this [OF assms(1)] assms(2) show ?thesis unfolding fst_conv snd_conv by blast
qed

lemma schedule_good:
  assumes "good s" "current s = c" "env_keeps good c others" "schedule others s = Inr s'"
  shows "good s' \<and> current s' = c"
proof -
  note w = good_wake_signalled [OF assms(1), of "NR_TASKS - 1"]
  have cw: "current (wake_signalled n s) = current s" for n by simp
  obtain nxt s1 where p: "pick_loop (wake_signalled (NR_TASKS - 1) s) = Some (nxt, s1)"
    and s': "switch_to others nxt s1 = Inr s'"
    using assms(4) by (auto simp: schedule_def split: option.splits)
  note g = pick_loop_good [OF p w]
  show ?thesis
  proof (cases "task s1 nxt = current s1")
    case True
    then have "s' = s1" using s' by (simp add: switch_to_def)
    then show ?thesis using g assms(2) by (simp add: cw)
  next
    case False
    then have "others (s1\<lparr>current := task s1 nxt\<rparr>) = Inr s'" using s' by (simp add: switch_to_def)
    moreover have "good s1" "nxt < 64" "task s1 nxt \<noteq> 0" using g by blast+
    then have "good (s1\<lparr>current := task s1 nxt\<rparr>)" by (rule good_switch)
    ultimately show ?thesis using assms(3) unfolding env_keeps_def by blast
  qed
qed

lemma sleep_done_good: "good s \<Longrightarrow> good (sleep_done p tmp s) \<and> current (sleep_done p tmp s) = current s"
  by (simp add: sleep_done_def Let_def good_cell good_upd)

lemma wake_up_good: "good s \<Longrightarrow> good (wake_up p s) \<and> current (wake_up p s) = current s"
  by (simp add: wake_up_def good_cell good_upd)

lemma sleep_on_good:
  assumes "good s" "current s = c" "env_keeps good c others" "sleep_on others p s = Inr s'"
  shows "good s' \<and> current s' = c"
proof (cases "p = 0")
  case False
  define s2 where "s2 = upd_task (current s) (\<lambda>t. t\<lparr>state := TASK_UNINTERRUPTIBLE\<rparr>) (set_cell p (current s) s)"
  have g: "good s2" "current s2 = c" using assms(1,2) by (simp_all add: s2_def good_cell good_upd)
  obtain s3 where "schedule others s2 = Inr s3" "s' = sleep_done p (cell s p) s3"
    using assms(4) False by (auto simp: sleep_on_def Let_def kbind_elim s2_def split: if_splits)
  then show ?thesis using schedule_good [OF g assms(3)] sleep_done_good by simp
qed (use assms in \<open>simp add: sleep_on_def\<close>)

lemma rep_sleep_good:
  assumes "rep_sleep others p s = Some r" "good s" "current s = c" "env_keeps good c others" "r = Inr s'"
  shows "good s' \<and> current s' = c"
proof -
  have "\<forall>s'. good s \<and> current s = c \<and> env_keeps good c others \<and> r = Inr s' \<longrightarrow> good s' \<and> current s' = c"
  proof (rule rep_sleep.raw_induct [where P = "\<lambda>others p s r. \<forall>s'. good s \<and> current s = c \<and> env_keeps good c others \<and> r = Inr s' \<longrightarrow>
      good s' \<and> current s' = c", OF _ assms(1)])
    fix rep :: "'a env \<Rightarrow> u32 \<Rightarrow> 'a kern_scheme \<Rightarrow> (kerror + 'a kern_scheme) option" and others :: "'a env" and p and s :: "'a kern_scheme" and r
    assume IH: "\<And>others p s r. rep others p s = Some r \<Longrightarrow> \<forall>s'. good s \<and> current s = c \<and> env_keeps good c others \<and> r = Inr s' \<longrightarrow>
      good s' \<and> current s' = c"
    let ?s = "upd_task (current s) (\<lambda>t. t\<lparr>state := TASK_INTERRUPTIBLE\<rparr>) s"
    assume r: "(let r = schedule others ?s in
      if isl r then Some r
      else
        let s1 = projr r in
        if cell s1 p \<noteq> 0 \<and> cell s1 p \<noteq> current s1
        then rep others p (upd_task (cell s1 p) (\<lambda>t. t\<lparr>state := TASK_RUNNING\<rparr>) s1)
        else Some (Inr s1)) = Some r"
    show "\<forall>s'. good s \<and> current s = c \<and> env_keeps good c others \<and> r = Inr s' \<longrightarrow> good s' \<and> current s' = c"
    proof (intro allI impI)
      fix s' assume a: "good s \<and> current s = c \<and> env_keeps good c others \<and> r = Inr s'"
      then obtain s1 where s1: "schedule others ?s = Inr s1"
        using r by (cases "schedule others ?s") (auto simp: Let_def)
      have "good ?s" "current ?s = c" using a by (simp_all add: good_upd)
      note g = schedule_good [OF this _ s1]
      show "good s' \<and> current s' = c"
      proof (cases "cell s1 p \<noteq> 0 \<and> cell s1 p \<noteq> current s1")
        case True
        then have "rep others p (upd_task (cell s1 p) (\<lambda>t. t\<lparr>state := TASK_RUNNING\<rparr>) s1) = Some r"
          using r by (simp add: s1 Let_def)
        from IH [OF this] show ?thesis using g a by (simp add: good_upd)
      next
        case False
        then have "r = Inr s1" using r by (simp add: s1 Let_def del: not_not split: if_splits)
        then show ?thesis using g a by simp
      qed
    qed
  qed
  with assms show ?thesis by blast
qed

lemma interruptible_sleep_on_good:
  assumes "good s" "current s = c" "env_keeps good c others" "interruptible_sleep_on others p s = Inr s'"
  shows "good s' \<and> current s' = c"
proof (cases "p = 0")
  case False
  obtain s3 where r: "rep_sleep others p (set_cell p (current s) s) = Some (Inr s3)" and s': "s' = sleep_done p (cell s p) s3"
  proof -
    obtain r where r: "rep_sleep others p (set_cell p (current s) s) = Some r"
      "kbind r (\<lambda>s3. Inr (sleep_done p (cell s p) s3)) = Inr s'"
      using assms(4) False by (simp add: interruptible_sleep_on_def Let_def split: if_splits option.splits)
    then show thesis using that by (cases r) simp_all
  qed
  have "good (set_cell p (current s) s)" "current (set_cell p (current s) s) = c" using assms(1,2) by (simp_all add: good_cell)
  then show ?thesis using rep_sleep_good [OF r _ _ assms(3) refl] sleep_done_good by (simp add: s')
qed (use assms in \<open>simp add: interruptible_sleep_on_def\<close>)

lemma sys_pause_good:
  assumes "good s" "current s = c" "env_keeps good c others" "sys_pause others s = Inr (v, s')"
  shows "good s' \<and> current s' = c"
proof -
  have "schedule others (upd_task (current s) (\<lambda>t. t\<lparr>state := TASK_INTERRUPTIBLE\<rparr>) s) = Inr s'"
    using assms(4) by (auto simp: sys_pause_def kbind_elim)
  from schedule_good [OF _ _ assms(3) this] show ?thesis using assms(1,2) by (simp add: good_upd)
qed

lemma sys_sleep_good:
  assumes "good s" "current s = c" "env_keeps good c others" "sys_sleep others n s = Inr (v, s')"
  shows "good s' \<and> current s' = c"
proof -
  define s1 where "s1 = snd (sys_alarm n s)"
  have "good s1" "current s1 = c" using assms(1,2) by (simp_all add: s1_def sys_alarm_def Let_def good_upd)
  then have g: "good (upd_task (current s1) (\<lambda>t. t\<lparr>state := TASK_INTERRUPTIBLE\<rparr>) s1)"
    "current (upd_task (current s1) (\<lambda>t. t\<lparr>state := TASK_INTERRUPTIBLE\<rparr>) s1) = c" by (simp_all add: good_upd)
  obtain s2 where s2: "schedule others (upd_task (current s1) (\<lambda>t. t\<lparr>state := TASK_INTERRUPTIBLE\<rparr>) s1) = Inr s2"
    "s' = upd_task (current s2) (\<lambda>t. t\<lparr>signal := signal t AND NOT (sigbit SIGALRM)\<rparr>) s2"
    using assms(4) by (auto simp: sys_sleep_def Let_def s1_def [symmetric] kbind_elim)
  from schedule_good [OF g assms(3) s2(1)] show ?thesis by (simp add: s2(2) good_upd)
qed

lemma do_timer_good:
  assumes "good s" "current s = c" "env_keeps good c others" "do_timer others cpl s = Inr s'"
  shows "good s' \<and> current s' = c"
proof -
  define s2 where "s2 = upd_task c (\<lambda>t. t\<lparr>counter := counter t - 1\<rparr>)
    (upd_task c (\<lambda>t. if cpl = 0 then t\<lparr>stime := stime t + 1\<rparr> else t\<lparr>utime := utime t + 1\<rparr>) s)"
  define s3 where "s3 = upd_task c (\<lambda>t. t\<lparr>counter := 0\<rparr>) s2"
  have "do_timer others cpl s = (if 0 <s counter (tstruct s2 c) then Inr s2 else if cpl = 0 then Inr s3 else schedule others s3)"
    unfolding do_timer_def Let_def assms(2) s2_def s3_def by simp
  moreover have "good s2" "good s3" using assms(1) by (simp_all add: s3_def s2_def good_upd)
  moreover have "current s2 = c" "current s3 = c" using assms(2) by (simp_all add: s3_def s2_def)
  ultimately show ?thesis using assms(4) schedule_good [OF _ _ assms(3), of s3 s'] by (auto split: if_splits)
qed

lemma timer_interrupt_good:
  assumes "good s" "current s = c" "env_keeps good c others" "timer_interrupt others cs s = Inr s'"
  shows "good s' \<and> current s' = c"
  using do_timer_good [OF good_clock [OF assms(1)] _ assms(3)] assms(2,4) by (simp add: timer_interrupt_def port_out_def)

lemma kill_tasks_good: "good s \<Longrightarrow> good (snd (kill_tasks n p sig v s)) \<and> current (snd (kill_tasks n p sig v s)) = current s"
  by (induction n arbitrary: v s) (auto simp: send_sig_def good_upd split: prod.splits)

end

section \<open>The invariant\<close>

text \<open>The data segment of a task: above the kernel's 16 MB, and not around the end of memory.\<close>

definition segment_ok :: "desc_struct \<Rightarrow> bool" where
  "segment_ok d \<longleftrightarrow> page_aligned (get_base d) \<and> 4 \<le> dir_index (get_base d) \<and>
     unat (get_base d) + unat (get_limit d - 1) + 1 \<le> 4294967296"

text \<open>What holds for a task in the slot \<open>i\<close> of the table: its TSS and its LDT are in the slot's entries
  of the GDT, and unless it is task 0 its data segment is in the slot's 64 MB.\<close>

definition slot_ok :: "nat \<Rightarrow> 'a kern_scheme \<Rightarrow> bool" where
  "slot_ok i s \<longleftrightarrow>
     gdt s (2 * i + FIRST_TSS_ENTRY) = set_tss_desc (task s i + TSS_OFFSET) \<and>
     gdt s (2 * i + FIRST_LDT_ENTRY) = set_ldt_desc (task s i + LDT_OFFSET) \<and>
     (1 \<le> i \<longrightarrow> (let d = ldt (tstruct s (task s i)) 2 in get_base d = new_base i \<and> 0 < get_limit d \<and> get_limit d \<le> 0x4000000))"

text \<open>The table and the reference counts are exact, no writable page is shared, and every slot in use
  is as it should be.\<close>

definition tasks_ok :: "'a kern_scheme \<Rightarrow> bool" where
  "tasks_ok s \<longleftrightarrow> (\<exists>own. kernel_ok own s \<and> user_ok own s) \<and> (\<forall>i. i < 64 \<and> task s i \<noteq> 0 \<longrightarrow> slot_ok i s)"

definition kernel_inv :: "'a tty_kern_scheme \<Rightarrow> bool" where
  "kernel_inv s \<longleftrightarrow> tasks_ok s \<and> queue_ok (read_q s) \<and> queue_ok (write_q s) \<and> queue_ok (buffer s) \<and> con_ok (con s)"

text \<open>With a task \<open>c\<close> other than task 0 in the table, whose data segment is \<open>d\<close>.\<close>

definition task_inv :: "u32 \<Rightarrow> desc_struct \<Rightarrow> 'a tty_kern_scheme \<Rightarrow> bool" where
  "task_inv c d s \<longleftrightarrow> kernel_inv s \<and> in_table 63 s c \<and> ldt (tstruct s c) 2 = d"

lemma tasks_okD:
  assumes "tasks_ok s"
  obtains own where "kernel_ok own s" "user_ok own s"
    "\<And>i. i < 64 \<Longrightarrow> task s i \<noteq> 0 \<Longrightarrow> slot_ok i s"
  using assms by (auto simp: tasks_ok_def)

text \<open>What the invariant depends on.\<close>

lemma tasks_ok_cong:
  fixes s :: "'a kern_scheme" and s' :: "'b kern_scheme"
  assumes m: "HIGH_MEMORY s' = HIGH_MEMORY s" "mem_map s' = mem_map s" "phys s' = phys s"
    and t: "task s' = task s" "init_task s' = init_task s" "current s' = current s" "gdt s' = gdt s"
    and l: "\<And>p. ldt (tstruct s' p) = ldt (tstruct s p)"
  shows "tasks_ok s' = tasks_ok s"
proof -
  have "wf_tasks s' = wf_tasks s" by (simp only: wf_tasks_def t)
  then have "kernel_ok own s' = kernel_ok own s" for own by (simp add: kernel_ok_def mm_cong [OF m] t)
  then show ?thesis by (simp add: tasks_ok_def slot_ok_def user_mem_cong [OF m] t l)
qed

lemma task_inv_mm:
  fixes s s' :: "'a tty_kern_scheme"
  assumes "task_inv c d s" "\<And>own. user_ok own s \<Longrightarrow> user_ok own s'" "mm.more s' = mm.more s" "HIGH_MEMORY s' = HIGH_MEMORY s"
  shows "task_inv c d s' \<and> current s' = current s"
proof -
  note k = kern_rest [OF assms(3)] and t = tty_rest [OF assms(3)]
  have "pool s' = pool s" by (simp add: pool_def fun_eq_iff assms(4))
  moreover have "wf_tasks s' = wf_tasks s" by (simp only: wf_tasks_def k)
  ultimately have "kernel_ok own s' \<and> user_ok own s'" if "kernel_ok own s" "user_ok own s" for own
    using that assms(2) [OF that(2)] user_okD(1) by (auto simp: kernel_ok_def k)
  then have "tasks_ok s'" using assms(1) by (auto simp: task_inv_def kernel_inv_def tasks_ok_def slot_ok_def k)
  then show ?thesis using assms(1) by (simp add: task_inv_def kernel_inv_def in_table_def k t)
qed

lemma task_inv_upd:
  assumes "task_inv c d s" "\<And>t. ldt (f t) = ldt t"
  shows "task_inv c d (upd_task p f s)"
proof -
  have "tasks_ok (upd_task p f s) = tasks_ok s" by (rule tasks_ok_cong) (simp_all add: assms(2))
  moreover have "read_q (upd_task p f s) = read_q s" "write_q (upd_task p f s) = write_q s"
    "buffer (upd_task p f s) = buffer s" "con (upd_task p f s) = con s" by (simp_all add: upd_task_def)
  ultimately show ?thesis using assms by (auto simp: task_inv_def kernel_inv_def)
qed

lemma task_inv_cell: "task_inv c d s \<Longrightarrow> task_inv c d (set_cell p v s)"
proof -
  have "tasks_ok (set_cell p v s) = tasks_ok s" by (rule tasks_ok_cong) (simp_all add: set_cell_def)
  then show "task_inv c d s \<Longrightarrow> task_inv c d (set_cell p v s)"
    by (simp add: task_inv_def kernel_inv_def in_table_def) (simp add: set_cell_def)
qed

lemma task_inv_fields:
  fixes s :: "'a tty_kern_scheme"
  assumes "task_inv c d s"
  shows "task_inv c d (s\<lparr>jiffies := j, outs := os\<rparr>)" "task_inv c d (s\<lparr>last_pid := n\<rparr>)" "task_inv c d (s\<lparr>kbd := k\<rparr>)"
    "queue_ok q \<Longrightarrow> task_inv c d (s\<lparr>read_q := q\<rparr>)" "queue_ok q \<Longrightarrow> task_inv c d (s\<lparr>write_q := q\<rparr>)"
    "queue_ok q \<Longrightarrow> task_inv c d (s\<lparr>buffer := q\<rparr>)" "con_ok x \<Longrightarrow> task_inv c d (s\<lparr>con := x\<rparr>)"
    "task_inv c d (s\<lparr>outs := os\<rparr>)"
proof -
  have "tasks_ok (s\<lparr>jiffies := j, outs := os\<rparr>) = tasks_ok s" "tasks_ok (s\<lparr>last_pid := n\<rparr>) = tasks_ok s" "tasks_ok (s\<lparr>kbd := k\<rparr>) = tasks_ok s"
    "tasks_ok (s\<lparr>read_q := q\<rparr>) = tasks_ok s" "tasks_ok (s\<lparr>write_q := q\<rparr>) = tasks_ok s"
    "tasks_ok (s\<lparr>buffer := q\<rparr>) = tasks_ok s" "tasks_ok (s\<lparr>con := x\<rparr>) = tasks_ok s"
    "tasks_ok (s\<lparr>outs := os\<rparr>) = tasks_ok s"
    by (rule tasks_ok_cong; simp)+
  with assms show "task_inv c d (s\<lparr>jiffies := j, outs := os\<rparr>)" "task_inv c d (s\<lparr>last_pid := n\<rparr>)" "task_inv c d (s\<lparr>kbd := k\<rparr>)"
    "queue_ok q \<Longrightarrow> task_inv c d (s\<lparr>read_q := q\<rparr>)" "queue_ok q \<Longrightarrow> task_inv c d (s\<lparr>write_q := q\<rparr>)"
    "queue_ok q \<Longrightarrow> task_inv c d (s\<lparr>buffer := q\<rparr>)" "con_ok x \<Longrightarrow> task_inv c d (s\<lparr>con := x\<rparr>)"
    "task_inv c d (s\<lparr>outs := os\<rparr>)"
    by (simp_all add: task_inv_def kernel_inv_def in_table_def)
qed

lemma task_inv_switch:
  fixes s :: "'a tty_kern_scheme"
  assumes "task_inv c d s" "i < 64" "task s i \<noteq> 0"
  shows "task_inv c d (s\<lparr>current := task s i\<rparr>)"
proof -
  let ?s = "s\<lparr>current := task s i\<rparr>"
  have m: "HIGH_MEMORY ?s = HIGH_MEMORY s" "mem_map ?s = mem_map s" "phys ?s = phys s" by simp_all
  have "wf_tasks ?s" if "wf_tasks s" using that assms(2,3) by (auto simp: wf_tasks_def)
  then have "kernel_ok own ?s" if "kernel_ok own s" for own
    using that by (simp add: kernel_ok_def mm_cong [OF m])
  then have "tasks_ok ?s" using assms(1) by (auto simp: task_inv_def kernel_inv_def tasks_ok_def slot_ok_def user_mem_cong [OF m])
  then show ?thesis using assms(1) by (simp add: task_inv_def kernel_inv_def in_table_def)
qed

interpretation kept: task_property "task_inv c d" for c d
proof unfold_locales
  fix s :: "'a tty_kern_scheme"
  assume "task_inv c d s"
  then show "task s 0 \<noteq> 0" by (auto simp: task_inv_def kernel_inv_def tasks_ok_def kernel_ok_def wf_tasks_def)
qed (rule task_inv_upd task_inv_cell task_inv_fields task_inv_switch; assumption)+

section \<open>User memory\<close>

lemma segment_address:
  assumes "segment_ok d" "unat addr + n \<le> unat (get_limit d - 1) + 1" "0 < n"
  shows "4 \<le> dir_index (get_base d + addr)"
proof -
  have "unat (get_base d) + unat addr < 4294967296" using assms by (simp add: segment_ok_def)
  then have "get_base d \<le> get_base d + addr" by (simp add: word_le_nat_alt unat_word_ariths)
  then have "dir_index (get_base d) \<le> dir_index (get_base d + addr)" by (rule dir_index_mono)
  then show ?thesis using assms(1) by (simp add: segment_ok_def)
qed

lemma slot_segment:
  assumes "slot_ok i s" "1 \<le> i" "i < 64"
  shows "segment_ok (ldt (tstruct s (task s i)) 2)"
proof -
  let ?d = "ldt (tstruct s (task s i)) 2"
  have d: "get_base ?d = new_base i" "0 < get_limit ?d" "get_limit ?d \<le> 0x4000000"
    using assms(1,2) by (simp_all add: slot_ok_def Let_def)
  note nb = new_base_facts [OF assms(3)]
  have "unat (get_limit ?d - 1) + 1 = unat (get_limit ?d)" using d(2) by (simp add: unat_minus_one unat_gt_0)
  moreover have "unat (get_limit ?d) \<le> 67108864" using d(3) by (simp add: word_le_nat_alt)
  moreover have "unat (new_base i) \<le> 4227858432" using assms(3) by (simp add: nb(1))
  moreover have "page_aligned (new_base i)" by (simp add: page_aligned_iff_dvd nb(1))
  ultimately show ?thesis using assms(2) d(1) by (simp add: segment_ok_def nb(2))
qed

lemma task_inv_segment:
  assumes "task_inv c d s"
  shows "segment_ok d"
proof -
  obtain i where i: "1 \<le> i" "i < 64" "task s i = c" "c \<noteq> 0"
    using assms by (auto simp: task_inv_def in_table_def)
  then have "slot_ok i s" using assms by (auto simp: task_inv_def kernel_inv_def tasks_ok_def)
  from slot_segment [OF this i(1,2)] show ?thesis using i(3) assms by (simp add: task_inv_def)
qed

lemma get_fs_byte_inv:
  fixes s :: "'a tty_kern_scheme"
  assumes "task_inv c d s" "current s = c" "get_fs_byte a s = Inr (b, s')"
  shows "task_inv c d s' \<and> current s' = c"
proof -
  have d: "ldt (tstruct s (current s)) 2 = d" using assms(1,2) by (simp add: task_inv_def)
  have l: "unat a + 1 \<le> unat (get_limit d - 1) + 1" and t: "touch 0 (get_base d + a) s = Inr s'"
    using assms(3) by (auto simp: get_fs_byte_def fs_linear_def Let_def kbind_elim d split: if_splits)
  have "4 \<le> dir_index (get_base d + a)" by (rule segment_address [OF task_inv_segment [OF assms(1)] l]) simp
  then have w: "writes own s (\<lambda>y. load_byte y s) s'" if "user_ok own s" for own
    using touch_writes [OF that _ _ t] by simp
  obtain own where own: "user_ok own s" using assms(1) by (auto simp: task_inv_def kernel_inv_def tasks_ok_def)
  show ?thesis
    using task_inv_mm [OF assms(1) writesD(1) [OF w] writesD(2,3) [OF w [OF own]]] assms(2) by simp
qed

lemma get_fs_bytes_inv:
  fixes s :: "'a tty_kern_scheme"
  shows "task_inv c d s \<Longrightarrow> current s = c \<Longrightarrow> get_fs_bytes n a s = Inr (bs, s') \<Longrightarrow> task_inv c d s' \<and> current s' = c"
proof (induction n arbitrary: a bs s)
  case (Suc n)
  obtain b s1 bs1 where "get_fs_byte a s = Inr (b, s1)" and r: "get_fs_bytes n (a + 1) s1 = Inr (bs1, s')"
    using Suc.prems(3) by (auto simp: kbind_elim)
  then have "task_inv c d s1 \<and> current s1 = c" using get_fs_byte_inv [OF Suc.prems(1,2)] by blast
  then show ?case using Suc.IH [OF _ _ r] by blast
qed simp

text \<open>A verified area within the address space that does not wrap.\<close>

lemma verified_put_inv:
  fixes s s1 s' :: "'a tty_kern_scheme"
  assumes "task_inv c d s" "current s = c" "verify_area addr sz s = Inr s1" "put_fs_bytes bs addr s1 = Inr s'"
    and "unat (get_base d) + unat addr + unat sz \<le> 4294967296" "0 < unat sz" "unat sz < 2147479552" "length bs \<le> unat sz"
  shows "task_inv c d s' \<and> current s' = c \<and> mm.more s' = mm.more s"
proof -
  have d: "ldt (tstruct s (current s)) 2 = d" using assms(1,2) by (simp add: task_inv_def)
  have g: "page_aligned (get_base d)" "4 \<le> dir_index (get_base d)"
    using task_inv_segment [OF assms(1)] by (simp_all add: segment_ok_def)
  have p: "user_ok own s' \<and> mm.more s' = mm.more s \<and> HIGH_MEMORY s' = HIGH_MEMORY s" if "user_ok own s" for own
    using verified_put [OF that _ _ _ assms(6,7,3,8,4), unfolded d, OF g assms(5)] by blast
  obtain own where own: "user_ok own s" using assms(1) by (auto simp: task_inv_def kernel_inv_def tasks_ok_def)
  have m: "mm.more s' = mm.more s" "HIGH_MEMORY s' = HIGH_MEMORY s" using p [OF own] by blast+
  from task_inv_mm [OF assms(1) _ m] p assms(2) m(1) show ?thesis by blast
qed

section \<open>The terminal\<close>

lemma push_user_inv:
  fixes s :: "'a tty_kern_scheme"
  shows "task_inv c d s \<Longrightarrow> current s = c \<Longrightarrow> push_user n a s = Inr s' \<Longrightarrow> task_inv c d s' \<and> current s' = c"
proof (induction n arbitrary: a s)
  case (Suc n)
  obtain b s1 where s1: "get_fs_byte a s = Inr (b, s1)" and r: "push_user n (a + 1) (push_q Write_q b s1) = Inr s'"
    using Suc.prems(3) by (auto simp: kbind_elim)
  have i: "task_inv c d s1 \<and> current s1 = c" by (rule get_fs_byte_inv [OF Suc.prems(1,2) s1])
  then have "queue_ok (write_q s1)" by (simp add: task_inv_def kernel_inv_def)
  then have "queue_ok (snd (tty_push_q (write_q s1) b))" using ring.push_step by blast
  then have "task_inv c d (push_q Write_q b s1)" "current (push_q Write_q b s1) = c"
    using i by (simp_all add: push_q_def task_inv_fields(5))
  then show ?case by (rule Suc.IH [OF _ _ r])
qed simp

lemma tty_write_inv:
  fixes s :: "'a tty_kern_scheme"
  assumes "task_inv c d s" "tty_write others s = Inr s'"
  shows "task_inv c d s' \<and> current s' = current s"
proof -
  have q: "queue_ok (write_q s)" "con_ok (con s)" using assms(1) by (simp_all add: task_inv_def kernel_inv_def)
  have "write_fn s" using assms(2) by (simp add: tty_write_def split: if_splits)
  then have s': "s' = s\<lparr>write_q := emptied (write_q s), con := fold video_putchar (chars (write_q s)) (con s)\<rparr>"
    using tty_write_eq [OF _ q(1), of others] assms(2) by simp
  have "task_inv c d (s\<lparr>write_q := emptied (write_q s)\<rparr>)"
    using assms(1) emptied_ok [OF q(1)] by (simp add: task_inv_fields(5))
  then have "task_inv c d s'" unfolding s' by (rule task_inv_fields(7)) (use video_putchar_texts [OF q(2)] in blast)
  then show ?thesis by (simp add: s')
qed

lemma user_tty_write_inv:
  fixes s :: "'a tty_kern_scheme"
  assumes "task_inv c d s" "current s = c" "user_tty_write others ch a n s = Inr (v, s')"
  shows "task_inv c d s' \<and> current s' = c"
proof -
  obtain s1 where s1: "push_user (if 0 <s n then unat n else 0) a s = Inr s1" "tty_write others s1 = Inr s'"
    using assms(3) by (auto simp: user_tty_write_def kbind_elim)
  from push_user_inv [OF assms(1,2) s1(1)] tty_write_inv [OF _ s1(2)] show ?thesis by auto
qed

lemma task_inv_queues:
  assumes "task_inv c d s" shows "queue_ok (read_q s)" "queue_ok (write_q s)" "queue_ok (buffer s)"
  using assms by (simp_all add: task_inv_def kernel_inv_def)

lemma echo_inv:
  fixes s :: "'a tty_kern_scheme"
  assumes "task_inv c d s" "tty_write others (push_q Write_q ch s) = Inr s'"
  shows "task_inv c d s' \<and> current s' = current s"
proof -
  have "queue_ok (snd (tty_push_q (write_q s) ch))" using ring.push_step task_inv_queues(2) [OF assms(1)] by blast
  then have "task_inv c d (push_q Write_q ch s)" using assms(1) by (simp add: push_q_def task_inv_fields(5))
  from tty_write_inv [OF this assms(2)] show ?thesis by (simp add: push_q_def)
qed

lemma push_buffer_inv:
  fixes s :: "'a tty_kern_scheme"
  assumes "task_inv c d s"
  shows "task_inv c d (push_q Buffer ch s) \<and> current (push_q Buffer ch s) = current s"
proof -
  have "queue_ok (snd (tty_push_q (buffer s) ch))" using ring.push_step task_inv_queues(3) [OF assms(1)] by blast
  then show ?thesis using assms by (simp add: push_q_def task_inv_fields(6))
qed

lemma copy_char_inv:
  fixes s :: "'a tty_kern_scheme"
  assumes "task_inv c d s" "copy_char others ch s = Inr s'"
  shows "task_inv c d s' \<and> current s' = current s"
proof -
  note q = task_inv_queues [OF assms(1)]
  have e: "task_inv c d s' \<and> current s' = current s"
    if "task_inv c d s1" "current s1 = current s"
      "(if tty_flags s1 OR TTY_ECHO \<noteq> 0 then tty_write others (push_q Write_q ch s1) else Inr s1) = Inr s'" for s1
    using echo_inv [OF that(1)] that(2,3) by simp
  consider "s' = s" | s1 where "task_inv c d s1" "current s1 = current s"
      "(if tty_flags s1 OR TTY_ECHO \<noteq> 0 then tty_write others (push_q Write_q ch s1) else Inr s1) = Inr s'"
  proof (cases "ch = 8")
    case True
    let ?s = "s\<lparr>buffer := (buffer s)\<lparr>tail := (tail (buffer s) - 1) mod TTY_BUF_SIZE\<rparr>\<rparr>"
    have "task_inv c d ?s" if "\<not> tty_isempty_q (buffer s)"
      using chars_untail [OF q(3)] ring.empty [OF q(3)] that by (intro task_inv_fields(6) [OF assms(1)]) simp
    moreover have c: "copy_char others ch s = (if tty_isempty_q (buffer s) \<or> tty_queue_tail (buffer s) = 10 then Inr s
        else if tty_flags ?s OR TTY_ECHO \<noteq> 0 then tty_write others (push_q Write_q ch ?s) else Inr ?s)"
      using True unfolding copy_char_def Let_def
      by (cases "tty_isempty_q (buffer s)"; cases "tty_queue_tail (buffer s) = 10")
        (simp_all only: if_True if_False simp_thms)
    ultimately show thesis
    proof (cases "tty_isempty_q (buffer s) \<or> tty_queue_tail (buffer s) = 10")
      case True
      then have "copy_char others ch s = Inr s" using c by (simp only: if_True)
      then show thesis using assms(2) that(1) by simp
    next
      case False
      then have "(if tty_flags ?s OR TTY_ECHO \<noteq> 0 then tty_write others (push_q Write_q ch ?s) else Inr ?s) = Inr s'"
        using c assms(2) by (simp only: if_False)
      moreover have "task_inv c d ?s" using False \<open>\<not> tty_isempty_q (buffer s) \<Longrightarrow> task_inv c d ?s\<close> by blast
      ultimately show thesis by (intro that(2) [of ?s]) simp_all
    qed
  next
    case False
    note not8 = False
    show thesis
    proof (cases "ch = -1 \<or> ch = 10")
      case True
      let ?s = "wake_up (wait_proc (buffer (push_q Buffer ch s))) (push_q Buffer ch s)"
      have "task_inv c d ?s \<and> current ?s = current s"
        using push_buffer_inv [OF assms(1), of ch] kept.wake_up_good [of c d "push_q Buffer ch s"] by simp
      then show thesis using assms(2) True not8 that(2) [of ?s] unfolding copy_char_def Let_def by simp
    next
      case False
      let ?s = "if \<not> tty_isfull_q (buffer s) then push_q Buffer ch s else s"
      have "task_inv c d ?s \<and> current ?s = current s" using push_buffer_inv [OF assms(1), of ch] assms(1) by simp
      then show thesis using assms(2) False not8 that(2) [of ?s] unfolding copy_char_def Let_def by simp
    qed
  qed
  then show ?thesis using e assms(1) by cases auto
qed

lemma copy_loop_inv:
  fixes s :: "'a tty_kern_scheme"
  assumes "copy_loop others s = Some (Inr s')" "task_inv c d s"
  shows "task_inv c d s' \<and> current s' = current s"
proof -
  have "\<forall>s'. task_inv c d s \<and> r = Inr s' \<longrightarrow> task_inv c d s' \<and> current s' = current s" if "copy_loop others s = Some r" for r
  proof (rule copy_loop.raw_induct [where P = "\<lambda>others s r. \<forall>s'. task_inv c d s \<and> r = Inr s' \<longrightarrow> task_inv c d s' \<and> current s' = current s",
        OF _ that])
    fix loop :: "'a tty_kern_ext env \<Rightarrow> 'a tty_kern_scheme \<Rightarrow> (kerror + 'a tty_kern_scheme) option"
      and others :: "'a tty_kern_ext env" and s :: "'a tty_kern_scheme" and r
    assume IH: "\<And>others s r. loop others s = Some r \<Longrightarrow> \<forall>s'. task_inv c d s \<and> r = Inr s' \<longrightarrow> task_inv c d s' \<and> current s' = current s"
    assume r: "(if tty_isempty_q (read_q s) then Some (Inr s)
      else
        let r = kbind (tty_pop_q others Read_q s) (\<lambda>(ch, s1). copy_char others ch s1) in
        if isl r then Some r else loop others (projr r)) = Some r"
    show "\<forall>s'. task_inv c d s \<and> r = Inr s' \<longrightarrow> task_inv c d s' \<and> current s' = current s"
    proof (intro allI impI)
      fix s' assume a: "task_inv c d s \<and> r = Inr s'"
      then have ok: "queue_ok (read_q s)" using task_inv_queues by blast
      show "task_inv c d s' \<and> current s' = current s"
      proof (cases "chars (read_q s)")
        case Nil
        then show ?thesis using r a ring.empty [OF ok] by simp
      next
        case (Cons ch cs)
        obtain q where q: "tty_pop_q others Read_q s = Inr (ch, s\<lparr>read_q := q\<rparr>)" "queue_ok q"
          using pop_char [of Read_q s ch cs] ok Cons by auto
        have "\<not> tty_isempty_q (read_q s)" using ring.empty [OF ok] Cons by simp
        then obtain s1 where s1: "copy_char others ch (s\<lparr>read_q := q\<rparr>) = Inr s1" "loop others s1 = Some r"
          using r a q(1) by (cases "copy_char others ch (s\<lparr>read_q := q\<rparr>)") (auto simp: Let_def)
        have "task_inv c d (s\<lparr>read_q := q\<rparr>)" using a q(2) by (simp add: task_inv_fields(4))
        from copy_char_inv [OF this s1(1)] IH [OF s1(2)] a show ?thesis by simp
      qed
    qed
  qed
  with assms show ?thesis by blast
qed

lemma do_keyboard_interrupt_cases:
  assumes "do_keyboard_interrupt others sc s = Inr s'"
  obtains k where "s' = s\<lparr>kbd := k\<rparr>" | k ch where "copy_to_buffer others (push_q Read_q ch (s\<lparr>kbd := k\<rparr>)) = Inr s'"
proof -
  have "(\<exists>k. s' = s\<lparr>kbd := k\<rparr>) \<or> (\<exists>k ch. copy_to_buffer others (push_q Read_q ch (s\<lparr>kbd := k\<rparr>)) = Inr s')"
    using assms unfolding do_keyboard_interrupt_def Let_def kbind_Inr_iff
    by (elim if_eq_cases exE conjE) (simp only: sum.inject, blast | simp only: kbind_Inr_iff, blast)+
  then show thesis using that by blast
qed

lemma do_keyboard_interrupt_inv:
  fixes s :: "'a tty_kern_scheme"
  assumes "task_inv c d s" "do_keyboard_interrupt others sc s = Inr s'"
  shows "task_inv c d s' \<and> current s' = current s"
proof -
  from assms(2) show ?thesis
  proof (cases rule: do_keyboard_interrupt_cases)
    case (1 k)
    then show ?thesis using assms(1) by (simp add: task_inv_fields(3))
  next
    case (2 k ch)
    have "queue_ok (snd (tty_push_q (read_q s) ch))" using ring.push_step task_inv_queues(1) [OF assms(1)] by blast
    then have "task_inv c d (push_q Read_q ch (s\<lparr>kbd := k\<rparr>))"
      using task_inv_fields(4) [OF task_inv_fields(3) [OF assms(1)]] by (simp add: push_q_def)
    moreover have "copy_loop others (push_q Read_q ch (s\<lparr>kbd := k\<rparr>)) = Some (Inr s')"
      using 2 by (simp add: copy_to_buffer_def split: option.splits)
    ultimately have "task_inv c d s' \<and> current s' = current (push_q Read_q ch (s\<lparr>kbd := k\<rparr>))" using copy_loop_inv by blast
    then show ?thesis by (simp add: push_q_def)
  qed
qed

section \<open>Signals\<close>

lemma kill_inv:
  assumes "task_inv c d s" shows "task_inv c d (snd (sys_kill p sig s)) \<and> current (snd (sys_kill p sig s)) = current s"
  using kept.kill_tasks_good [OF assms] assms by (simp add: sys_kill_def)

lemma sys_sigaction_inv:
  fixes s :: "'a tty_kern_scheme"
  assumes "task_inv c d s" "current s = c" "sys_sigaction n new old s = Inr (v, s')"
    and "old = 0 \<or> unat (get_base d) + unat old + 16 \<le> 4294967296"
  shows "task_inv c d s' \<and> current s' = c"
proof (cases "bad_signum n")
  case True
  then show ?thesis using assms(1-3) by (simp add: sys_sigaction_def)
next
  case False
  let ?i = "unat (n - 1)" and ?tmp = "sigactions (tstruct s (current s)) (unat (n - 1))"
  obtain s1 s2 g where n: "get_new new ?i s = Inr s1" "(if old \<noteq> 0 then save_old ?tmp old s1 else Inr s1) = Inr s2"
    "s' = upd_task (current s2) g s2" "\<And>t. ldt (g t) = ldt t"
    using assms(3) False by (auto simp: sys_sigaction_def Let_def kbind_elim)
  obtain bs s0 where s0: "get_fs_bytes 16 new s = Inr (bs, s0)" "s1 = upd_task (current s0) (set_action ?i (sigaction_of bs)) s0"
    using n(1) by (auto simp: get_new_def kbind_elim)
  have "task_inv c d s0 \<and> current s0 = c" by (rule get_fs_bytes_inv [OF assms(1,2) s0(1)])
  then have i1: "task_inv c d s1" "current s1 = c" by (simp_all add: s0(2) task_inv_upd)
  have "task_inv c d s2 \<and> current s2 = c"
  proof (cases "old = 0")
    case True
    then show ?thesis using n(2) i1 by simp
  next
    case False
    then obtain s3 where "verify_area old 16 s1 = Inr s3" "put_fs_bytes (sigaction_bytes ?tmp) old s3 = Inr s2"
      using n(2) by (auto simp: save_old_def kbind_elim)
    from verified_put_inv [OF i1 this] False assms(4) show ?thesis by simp
  qed
  then show ?thesis by (simp add: n(3,4) task_inv_upd)
qed

lemma do_signal_inv:
  fixes s :: "'a tty_kern_scheme"
  assumes "task_inv cur d s" "current s = cur" "do_signal n c s = Inr (c', s')"
    and "32 \<le> unat (f_esp c)" "unat (get_base d) + unat (f_esp c) \<le> 4294967296"
  shows "task_inv cur d s' \<and> current s' = cur"
proof -
  define sa where "sa = sigactions (tstruct s (current s)) (unat (n - 1))"
  show ?thesis
  proof (cases "sa_handler sa = 0 \<or> sa_handler sa = 1")
    case True
    then show ?thesis using assms(1-3) unfolding do_signal_def Let_def sa_def by auto
  next
    case False
    define s1 where "s1 = (if sa_flags sa AND SA_ONESHOT \<noteq> 0
      then upd_task (current s) (set_action (unat (n - 1)) (sa\<lparr>sa_handler := 0\<rparr>)) s else s)"
    define longs :: u32 where "longs = (if sa_flags sa AND SA_NOMASK \<noteq> 0 then 7 else 8)"
    from False have h: "sa_handler sa \<noteq> 0" "sa_handler sa \<noteq> 1" by simp_all
    obtain s2 s3 where v: "verify_area (f_esp c - 4 * longs) (longs * 4) s1 = Inr s2"
      and p: "put_fs_longs (signal_frame sa n (blocked (tstruct s2 (current s2))) c) (f_esp c - 4 * longs) s2 = Inr s3"
      and s': "s' = upd_task (current s3) (\<lambda>t. t\<lparr>blocked := blocked t OR sa_mask sa\<rparr>) s3"
      using do_signal_handled [OF assms(3) sa_def [symmetric] h, folded s1_def longs_def] by blast
    have i1: "task_inv cur d s1" "current s1 = cur" using assms(1,2) by (simp_all add: s1_def task_inv_upd)
    have l: "unat (4 * longs) = 4 * unat longs" "unat (longs * 4) = 4 * unat longs" "unat longs = 7 \<or> unat longs = 8"
      by (simp_all add: longs_def)
    have "4 * longs \<le> f_esp c" using assms(4) l by (auto simp: word_le_nat_alt)
    then have "unat (f_esp c - 4 * longs) = unat (f_esp c) - 4 * unat longs" by (simp add: unat_sub l)
    then have b: "unat (get_base d) + unat (f_esp c - 4 * longs) + unat (longs * 4) \<le> 4294967296"
      using assms(4,5) l by auto
    have "length (concat (map long_bytes (signal_frame sa n (blocked (tstruct s2 (current s2))) c))) = unat (longs * 4)"
      unfolding length_signal_frame by (simp add: longs_def)
    then have "task_inv cur d s3 \<and> current s3 = cur"
      using verified_put_inv [OF i1 v put_fs_longs_bytes [OF p] b] l by auto
    then show ?thesis by (simp add: s' task_inv_upd)
  qed
qed

lemma ret_from_syscall_inv:
  fixes s :: "'a tty_kern_scheme"
  assumes "task_inv cur d s" "current s = cur" "ret_from_syscall c s = Inr (c', s')"
    and "32 \<le> unat (f_esp c)" "unat (get_base d) + unat (f_esp c) \<le> 4294967296"
  shows "task_inv cur d s' \<and> current s' = cur"
proof -
  consider "s' = s" | m where "do_signal (of_nat (m + 1)) c (upd_task (current s) (\<lambda>t. t\<lparr>signal := unset_bit m (signal t)\<rparr>) s) = Inr (c', s')"
    using assms(3) unfolding ret_from_syscall_def Let_def by (auto split: if_splits option.splits)
  then show ?thesis
  proof cases
    case 1
    then show ?thesis using assms(1,2) by simp
  next
    case 2
    from do_signal_inv [OF _ _ this assms(4,5)] show ?thesis using assms(1,2) by (simp add: task_inv_upd)
  qed
qed

section \<open>Fork\<close>

lemma find_pid_state:
  fixes s :: "'a kern_scheme"
  assumes "find_pid tmp s = Some s'"
  shows "\<exists>n. s' = s\<lparr>last_pid := n\<rparr>"
proof (rule find_pid.raw_induct [where P = "\<lambda>tmp s s'. \<exists>n. s' = s\<lparr>last_pid := n\<rparr>", OF _ assms])
  fix loop :: "u32 \<Rightarrow> 'a kern_scheme \<Rightarrow> 'a kern_scheme option" and tmp and s s' :: "'a kern_scheme"
  assume IH: "\<And>tmp s s'. loop tmp s = Some s' \<Longrightarrow> \<exists>n. s' = s\<lparr>last_pid := n\<rparr>"
  assume r: "(if \<not> pid_in_use (last_pid s) s then Some s
      else
        let s1 = s\<lparr>last_pid := last_pid s + 1\<rparr> in
        if last_pid s1 = tmp then Some s1
        else loop tmp (if last_pid s1 <s 0 then s1\<lparr>last_pid := 1\<rparr> else s1)) = Some s'"
  define n where "n = (if last_pid s + 1 <s 0 then 1 else last_pid s + 1)"
  have n: "(if last_pid s + 1 <s 0 then s\<lparr>last_pid := last_pid s + 1\<rparr>\<lparr>last_pid := 1\<rparr> else s\<lparr>last_pid := last_pid s + 1\<rparr>) =
    s\<lparr>last_pid := n\<rparr>" by (simp add: n_def)
  show "\<exists>n. s' = s\<lparr>last_pid := n\<rparr>"
  proof (cases "pid_in_use (last_pid s) s")
    case False
    then have "s' = s\<lparr>last_pid := last_pid s\<rparr>" using r by simp
    then show ?thesis by (rule exI)
  next
    case True
    note r = r [unfolded Let_def, simplified True if_False simp_thms]
    show ?thesis
    proof (cases "last_pid s + 1 = tmp")
      case True
      then have "s' = s\<lparr>last_pid := last_pid s + 1\<rparr>" using r by simp
      then show ?thesis by (rule exI)
    next
      case False
      then have "loop tmp (s\<lparr>last_pid := n\<rparr>) = Some s'" using r by (simp add: n_def cong: if_cong split: if_splits)
      from IH [OF this] show ?thesis by auto
    qed
  qed
qed

lemma tty_more:
  fixes s s' :: "'a tty_kern_scheme"
  assumes "kern.more s' = kern.more s"
  shows "read_q s' = read_q s" "write_q s' = write_q s" "buffer s' = buffer s" "con s' = con s"
  using assms by (cases s, cases s', simp)+

text \<open>Room for a fork of the current task, in whatever slot is free: see \<open>forkable\<close>.\<close>

definition fork_room :: "'a kern_scheme \<Rightarrow> bool" where
  "fork_room s \<longleftrightarrow> (\<forall>nr. 1 \<le> nr \<and> nr < 64 \<and> task s nr = 0 \<longrightarrow> forkable nr s) \<and>
     dir_count (get_limit (ldt (tstruct s (current s)) 2)) < free_frames s"

text \<open>The table after a fork into slot \<open>nr\<close>.\<close>

lemma new_task_differs:
  assumes "wf_tasks s'" "task s' = (task s)(nr := p)" "task s nr = 0" "nr < 64" "i < 64" "task s i \<noteq> 0"
  shows "task s i \<noteq> p"
proof -
  have "i \<noteq> nr" using assms(3,6) by auto
  then show ?thesis using wf_tasksD(5) [OF assms(1), of i nr] assms(2,4-6) by auto
qed

lemma new_slots:
  assumes wf: "wf_tasks s'" and seg: "\<And>i. i < 64 \<Longrightarrow> task s i \<noteq> 0 \<Longrightarrow> slot_ok i s"
    and nr: "1 \<le> nr" "nr < 64" "task s nr = 0"
    and eqs: "task s' = (task s)(nr := p)" "tstruct s' = (tstruct s)(p := t)"
      "gdt s' = (gdt s)(2 * nr + FIRST_TSS_ENTRY := set_tss_desc (p + TSS_OFFSET), 2 * nr + FIRST_LDT_ENTRY := set_ldt_desc (p + LDT_OFFSET))"
    and t: "ldt t 2 = set_base (new_base nr) d" "0 < get_limit d" "get_limit d \<le> 0x4000000"
    and i: "i < 64" "task s' i \<noteq> 0"
  shows "slot_ok i s'"
proof (cases "i = nr")
  case True
  then show ?thesis using t by (simp add: slot_ok_def Let_def eqs FIRST_TSS_ENTRY_def FIRST_LDT_ENTRY_def)
next
  case False
  then have "task s i \<noteq> 0" using i(2) by (simp add: eqs(1))
  moreover have "2 * i + FIRST_TSS_ENTRY \<noteq> 2 * nr + FIRST_TSS_ENTRY" "2 * i + FIRST_TSS_ENTRY \<noteq> 2 * nr + FIRST_LDT_ENTRY"
    "2 * i + FIRST_LDT_ENTRY \<noteq> 2 * nr + FIRST_TSS_ENTRY" "2 * i + FIRST_LDT_ENTRY \<noteq> 2 * nr + FIRST_LDT_ENTRY"
    using False by (auto simp: FIRST_TSS_ENTRY_def FIRST_LDT_ENTRY_def)
  ultimately show ?thesis
    using seg [OF i(1)] new_task_differs [OF wf eqs(1) nr(3,2) i(1)] False by (simp add: slot_ok_def eqs)
qed

lemma sys_fork_inv:
  fixes s :: "'a tty_kern_scheme"
  assumes "task_inv c d s" "current s = c" "sys_fork r s = Inr (v, s')" "fork_room s"
  shows "task_inv c d s' \<and> current s' = c"
proof -
  obtain s0 where s0: "find_pid (last_pid s) s = Some s0" "(case find_slot 63 1 s0 of None \<Rightarrow> Inr (-1, s0)
      | Some nr \<Rightarrow> copy_process nr r s0) = Inr (v, s')"
    using assms(3) by (auto simp: sys_fork_def find_empty_process_def kbind_elim split: option.splits)
  then obtain n slot_nr where s1: "slot_nr = find_slot 63 1 (s\<lparr>last_pid := n\<rparr>)"
    "(case slot_nr of None \<Rightarrow> Inr (-1, s\<lparr>last_pid := n\<rparr>) | Some nr \<Rightarrow> copy_process nr r (s\<lparr>last_pid := n\<rparr>)) = Inr (v, s')"
    using find_pid_state [OF s0(1)] by blast
  let ?s = "s\<lparr>last_pid := n\<rparr>"
  have i1: "task_inv c d ?s" by (rule task_inv_fields(2) [OF assms(1)])
  show ?thesis
  proof (cases slot_nr)
    case None
    then show ?thesis using s1(2) i1 assms(2) by auto
  next
    case (Some nr)
    have nr: "1 \<le> nr" "nr < 64" "task ?s nr = 0"
      using find_slot_Some [of 63 1 ?s nr] Some s1(1) by auto
    have m: "HIGH_MEMORY ?s = HIGH_MEMORY s" "mem_map ?s = mem_map s" "phys ?s = phys s" by simp_all
    have f: "forkable nr ?s" using assms(4) nr by (simp add: fork_room_def forkable_def mm_cong [OF m])
    have d: "ldt (tstruct ?s (current ?s)) 2 = d" using assms(1,2) by (simp add: task_inv_def)
    have fr: "dir_count (get_limit d) < free_frames ?s"
      using assms(4) d by (simp add: fork_room_def free_frames_def mm_cong [OF m])
    have "tasks_ok ?s" using i1 by (simp add: task_inv_def kernel_inv_def)
    then obtain own where own: "kernel_ok own ?s" "user_ok own ?s" unfolding tasks_ok_def by blast
    have seg: "slot_ok i ?s" if "i < 64" "task ?s i \<noteq> 0" for i
      using \<open>tasks_ok ?s\<close> that unfolding tasks_ok_def by blast
    have b: "4 \<le> dir_index (get_base d)" using task_inv_segment [OF assms(1)] by (simp add: segment_ok_def)
    obtain s2 where s2: "copy_process nr r ?s = Inr (n, s2)" "user_ok (own(task s2 nr := 1)) s2" "task s2 nr \<noteq> 0"
      "current s2 = current ?s" "kern.more s2 = kern.more ?s"
      using fork_memory [OF own f nr, unfolded d, OF b fr, of r] by auto
    have e: "s' = s2" using s1(2) Some s2(1) by simp
    obtain p i387 where p: "kernel_ok (own(p := 1)) s2" "task s2 = (task ?s)(nr := p)"
      and ts: "tstruct s2 = (tstruct ?s)(p := (child_task nr p r n (jiffies ?s) (tstruct ?s (current ?s)))
        \<lparr>state := TASK_RUNNING, start_code := new_base nr,
         tss := (child_tss nr p r (tss (tstruct ?s (current ?s))))\<lparr>tss_i387 := i387\<rparr>,
         ldt := (ldt (tstruct ?s (current ?s)))(1 := set_base (new_base nr) (ldt (tstruct ?s (current ?s)) 1),
           2 := set_base (new_base nr) (ldt (tstruct ?s (current ?s)) 2))\<rparr>)"
      and gd: "gdt s2 = (gdt ?s)(2 * nr + FIRST_TSS_ENTRY := set_tss_desc (p + TSS_OFFSET),
         2 * nr + FIRST_LDT_ENTRY := set_ldt_desc (p + LDT_OFFSET))"
      using copy_process_spec [OF own(1) f nr, of r] s2(1,3) nr(3) by auto
    have wf: "wf_tasks s2" using p(1) by (simp add: kernel_ok_def)
    obtain j where j: "1 \<le> j" "j \<le> 63" "task s j = c" "c \<noteq> 0"
      using assms(1) by (auto simp: task_inv_def in_table_def)
    have lim: "0 < get_limit d" "get_limit d \<le> 0x4000000"
      using seg [of j] j d assms(2) by (simp_all add: slot_ok_def Let_def)
    have "slot_ok i s2" if i: "i < 64" "task s2 i \<noteq> 0" for i
      by (rule new_slots [OF wf seg nr p(2) ts gd _ lim i]) (simp_all add: d [simplified])
    moreover have "user_ok (own(p := 1)) s2" using s2(2) by (simp add: p(2))
    ultimately have "tasks_ok s2" using p(1) unfolding tasks_ok_def by blast
    moreover have "j \<noteq> nr" "c \<noteq> p" using j nr(3) new_task_differs [OF wf p(2) nr(3,2), of j] by auto
    then have "in_table 63 s2 c" "ldt (tstruct s2 c) 2 = d"
      using j assms(1) by (auto simp: in_table_def p(2) ts task_inv_def)
    moreover note tty_more [OF s2(5)]
    ultimately show ?thesis
      using i1 s2(4) assms(2) by (simp add: e task_inv_def kernel_inv_def)
  qed
qed

section \<open>Every way into the kernel\<close>

lemma reschedule_inv:
  assumes "task_inv c d s" "current s = c" "env_keeps (task_inv c d) c others" "reschedule others s = Inr s'"
  shows "task_inv c d s' \<and> current s' = c"
  using kept.schedule_good [OF assms(1-3)] assms(1,2,4) by (auto simp: reschedule_def split: if_splits)

text \<open>The arguments of a call: \<open>sys_sigaction\<close> and the delivery of a signal verify the area they write,
  which must not go around the end of memory; a fork needs room; and the read of the terminal,
  which writes without a check, is left out.\<close>

definition stack_ok :: "frame \<Rightarrow> 'a kern_scheme \<Rightarrow> bool" where
  "stack_ok c s \<longleftrightarrow> 32 \<le> unat (f_esp c) \<and> unat (data_base s) + unat (f_esp c) \<le> 4294967296"

definition call_ok :: "frame \<Rightarrow> 'a kern_scheme \<Rightarrow> bool" where
  "call_ok c s \<longleftrightarrow> stack_ok c s \<and>
     f_eax c \<noteq> NR_user_tty_read \<and>
     (f_eax c = NR_fork \<longrightarrow> fork_room s) \<and>
     (f_eax c = NR_sigaction \<longrightarrow> f_edx c = 0 \<or> unat (data_base s) + unat (f_edx c) + 16 \<le> 4294967296)"

lemma call_function_inv:
  fixes s :: "'a tty_kern_scheme"
  assumes "task_inv cur d s" "current s = cur" "env_keeps (task_inv cur d) cur others"
    and "call_function others r f c s = Inr (v, s')"
    and "f \<noteq> Tty_read" "f = Sys_fork \<longrightarrow> fork_room s"
    and "f = Sys_sigaction \<longrightarrow> f_edx c = 0 \<or> unat (get_base d) + unat (f_edx c) + 16 \<le> 4294967296"
  shows "task_inv cur d s' \<and> current s' = cur"
proof (cases f)
  case Sys_fork
  then show ?thesis using sys_fork_inv [OF assms(1,2)] assms(4,6) by (simp add: call_function_def)
next
  case User_tty_write
  then show ?thesis using user_tty_write_inv [OF assms(1,2)] assms(4) by (simp add: call_function_def)
next
  case Sys_sleep
  then show ?thesis using kept.sys_sleep_good [OF assms(1-3)] assms(4) by (simp add: call_function_def)
next
  case Sys_pause
  then show ?thesis using kept.sys_pause_good [OF assms(1-3)] assms(4) by (simp add: call_function_def)
next
  case Sys_kill
  then have "s' = snd (sys_kill (f_ebx c) (f_ecx c) s)" using assms(4) by (simp add: call_function_def)
  then show ?thesis using kill_inv [OF assms(1)] assms(2) by simp
next
  case Sys_sigaction
  then show ?thesis using sys_sigaction_inv [OF assms(1,2)] assms(4,7) by (simp add: call_function_def)
next
  case Sys_ssetmask
  then show ?thesis using assms(1,2,4) by (auto simp: call_function_def sys_ssetmask_def task_inv_upd)
qed (use assms in \<open>auto simp: call_function_def sys_sgetmask_def\<close>)

lemma nth_only:
  assumes "k < length (as @ x # bs)" "x \<notin> set as" "x \<notin> set bs"
  shows "(as @ x # bs) ! k = x \<longleftrightarrow> k = length as"
proof
  assume k: "(as @ x # bs) ! k = x"
  show "k = length as"
  proof (rule ccontr)
    assume "k \<noteq> length as"
    then consider "k < length as" | j where "k = length as + Suc j" "j < length bs"
      using assms(1) less_imp_Suc_add [of "length as" k] by (cases k "length as" rule: linorder_cases) auto
    then show False using k assms(2,3) nth_mem by cases (auto simp: nth_append)
  qed
qed simp

lemma table_entry:
  assumes "unat n < 73"
  shows "sys_call_table ! unat n = Tty_read \<longleftrightarrow> n = NR_user_tty_read" "sys_call_table ! unat n = Sys_fork \<longleftrightarrow> n = NR_fork"
    "sys_call_table ! unat n = Sys_sigaction \<longleftrightarrow> n = NR_sigaction"
proof -
  define rest where "rest = replicate 6 Stub_syscall @ [Sys_sleep] @ replicate 18 Stub_syscall @ [Sys_pause] @
    replicate 7 Stub_syscall @ [Sys_kill] @ replicate 29 Stub_syscall"
  let ?tail = "[Sys_sgetmask, Sys_ssetmask, Stub_syscall, Stub_syscall, Serial_debugstr]"
  have t: "sys_call_table = [] @ Tty_read # (Stub_syscall # Sys_fork # User_tty_write # rest @ Sys_sigaction # ?tail)"
    "sys_call_table = [Tty_read, Stub_syscall] @ Sys_fork # (User_tty_write # rest @ Sys_sigaction # ?tail)"
    "sys_call_table = ([Tty_read, Stub_syscall, Sys_fork, User_tty_write] @ rest) @ Sys_sigaction # ?tail"
    by (simp_all add: sys_call_table_def rest_def)
  have l: "length sys_call_table = 73" using table_numbers(1) by (simp add: nr_system_calls_def)
  have s: "Tty_read \<notin> set rest" "Sys_fork \<notin> set rest" "Sys_sigaction \<notin> set rest" "length rest = 63"
    by (simp_all add: rest_def)
  have n: "unat n = 0 \<longleftrightarrow> n = NR_user_tty_read" "unat n = 2 \<longleftrightarrow> n = NR_fork" "unat n = 67 \<longleftrightarrow> n = NR_sigaction"
    by (simp_all add: NR_user_tty_read_def NR_fork_def NR_sigaction_def word_unat_eq_iff)
  have b: "unat n < length sys_call_table" using assms l by simp
  note at = nth_only [OF b [unfolded t(1)]] nth_only [OF b [unfolded t(2)]] nth_only [OF b [unfolded t(3)]]
  have "sys_call_table ! unat n = Tty_read \<longleftrightarrow> unat n = 0"
    unfolding t(1) by (rule at(1) [THEN trans]) (use s in simp_all)
  then show "sys_call_table ! unat n = Tty_read \<longleftrightarrow> n = NR_user_tty_read" by (simp only: n)
  have "sys_call_table ! unat n = Sys_fork \<longleftrightarrow> unat n = 2"
    unfolding t(2) by (rule at(2) [THEN trans]) (use s in \<open>simp_all add: numeral_2_eq_2\<close>)
  then show "sys_call_table ! unat n = Sys_fork \<longleftrightarrow> n = NR_fork" by (simp only: n)
  have "sys_call_table ! unat n = Sys_sigaction \<longleftrightarrow> unat n = 67"
    unfolding t(3) by (rule at(3) [THEN trans]) (use s in simp_all)
  then show "sys_call_table ! unat n = Sys_sigaction \<longleftrightarrow> n = NR_sigaction" by (simp only: n)
qed

lemma system_call_inv:
  fixes s :: "'a tty_kern_scheme"
  assumes "task_inv cur d s" "current s = cur" "env_keeps (task_inv cur d) cur others"
    and "system_call others r c s = Inr (c', s')" "call_ok c s"
  shows "task_inv cur d s' \<and> current s' = cur"
proof (cases "nr_system_calls - 1 < unat (f_eax c)")
  case True
  then show ?thesis using assms(1,2,4) by (simp add: system_call_def)
next
  case False
  then have n: "unat (f_eax c) < 73" by (simp add: nr_system_calls_def)
  obtain v s1 s2 where s1: "call_function others r (sys_call_table ! unat (f_eax c)) c s = Inr (v, s1)"
    and s2: "reschedule others s1 = Inr s2" and r: "ret_from_syscall (c\<lparr>f_eax := v\<rparr>) s2 = Inr (c', s')"
    using assms(4) False by (auto simp: system_call_def kbind_elim)
  have d: "data_base s = get_base d" using assms(1,2) by (simp add: task_inv_def)
  note ok = assms(5) [unfolded call_ok_def stack_ok_def d]
  have "task_inv cur d s1 \<and> current s1 = cur"
    by (rule call_function_inv [OF assms(1-3) s1]) (use ok in \<open>auto simp: table_entry [OF n]\<close>)
  then have "task_inv cur d s2 \<and> current s2 = cur" using reschedule_inv [OF _ _ assms(3) s2] by blast
  then show ?thesis using ret_from_syscall_inv [OF _ _ r] ok by auto
qed

text \<open>The ways into the kernel while a task runs: a system call, a tick of the timer in user mode, which
  also ends in \<open>ret_from_syscall\<close>, a key, and a read or a write of the task in its data segment,
  which may fault.\<close>

datatype event = Call cpu frame | Tick frame | Key u8 | Read u32 | Write u32 u8

fun enter :: "'a tty_kern_ext env \<Rightarrow> event \<Rightarrow> 'a tty_kern_scheme \<Rightarrow> kerror + 'a tty_kern_scheme" where
  "enter others (Call r c) s = kbind (system_call others r c s) (\<lambda>(c', s1). Inr s1)"
| "enter others (Tick c) s =
     kbind (timer_interrupt others (f_cs c) s) (\<lambda>s1. kbind (ret_from_syscall c s1) (\<lambda>(c', s2). Inr s2))"
| "enter others (Key k) s = keyboard_interrupt (\<lambda>_ _. k) others s"
| "enter others (Read x) s = (if walk s (data_base s + x) = None then page_fault 4 (data_base s + x) s else Inr s)"
| "enter others (Write x v) s = user_store (data_base s + x) v s"

fun event_ok :: "event \<Rightarrow> 'a kern_scheme \<Rightarrow> bool" where
  "event_ok (Call r c) s \<longleftrightarrow> call_ok c s"
| "event_ok (Tick c) s \<longleftrightarrow> stack_ok c s"
| "event_ok (Key k) s \<longleftrightarrow> True"
| "event_ok (Read x) s \<longleftrightarrow> x < get_limit (ldt (tstruct s (current s)) 2)"
| "event_ok (Write x v) s \<longleftrightarrow> x < get_limit (ldt (tstruct s (current s)) 2)"

text \<open>The states a task can bring the kernel to.\<close>

inductive kernel_run :: "'a tty_kern_ext env \<Rightarrow> 'a tty_kern_scheme \<Rightarrow> 'a tty_kern_scheme \<Rightarrow> bool" for others s where
  run_start: "kernel_run others s s"
| run_enter: "\<lbrakk>kernel_run others s s1; event_ok e s1; enter others e s1 = Inr s2\<rbrakk> \<Longrightarrow> kernel_run others s s2"

lemma user_access_inv:
  fixes s s' :: "'a tty_kern_scheme"
  assumes "task_inv c d s" "current s = c" "x < get_limit d"
    and "\<And>own. user_ok own s \<Longrightarrow> 4 \<le> dir_index (get_base d + x) \<Longrightarrow>
      user_ok own s' \<and> mm.more s' = mm.more s \<and> HIGH_MEMORY s' = HIGH_MEMORY s"
  shows "task_inv c d s' \<and> current s' = c"
proof -
  have "unat x + 1 \<le> unat (get_limit d - 1) + 1"
  proof -
    have l: "unat x < unat (get_limit d)" using assms(3) by (simp add: word_less_nat_alt)
    then have "get_limit d \<noteq> 0" by (auto simp: unat_eq_zero)
    then have "unat (get_limit d - 1) + 1 = unat (get_limit d)" by (simp add: unat_minus_one unat_gt_0)
    moreover note l
    ultimately show ?thesis by simp
  qed
  then have x: "4 \<le> dir_index (get_base d + x)" by (rule segment_address [OF task_inv_segment [OF assms(1)]]) simp
  obtain own where own: "user_ok own s" using assms(1) by (auto simp: task_inv_def kernel_inv_def tasks_ok_def)
  then have m: "mm.more s' = mm.more s" "HIGH_MEMORY s' = HIGH_MEMORY s" using assms(4) x by blast+
  from task_inv_mm [OF assms(1) _ m] assms(2,4) x show ?thesis by blast
qed

lemma more_user_store: "user_store x v s = Inr s' \<Longrightarrow> HIGH_MEMORY s' = HIGH_MEMORY s"
  by (auto simp: user_store_def kbind_elim store_byte_def dest!: more_page_fault split: option.splits if_splits)

lemma enter_inv:
  fixes s :: "'a tty_kern_scheme"
  assumes "task_inv c d s" "current s = c" "env_keeps (task_inv c d) c others" "event_ok e s" "enter others e s = Inr s'"
  shows "task_inv c d s' \<and> current s' = c"
proof (cases e)
  case (Call r f)
  then show ?thesis using assms system_call_inv [OF assms(1-3)] by (auto simp: kbind_elim)
next
  case (Tick f)
  then obtain s1 c' where s1: "timer_interrupt others (f_cs f) s = Inr s1" "ret_from_syscall f s1 = Inr (c', s')"
    using assms(5) by (auto simp: kbind_elim)
  have d: "data_base s = get_base d" using assms(1,2) by (simp add: task_inv_def)
  have "task_inv c d s1 \<and> current s1 = c" by (rule kept.timer_interrupt_good [OF assms(1-3) s1(1)])
  then show ?thesis using ret_from_syscall_inv [OF _ _ s1(2)] assms(4) Tick d by (auto simp: stack_ok_def)
next
  case (Key k)
  then have "do_keyboard_interrupt others (ucast k) (port_out 0x20 0x20 s) = Inr s'" using assms(5) by (simp add: keyboard_interrupt_def)
  moreover have "task_inv c d (port_out 0x20 0x20 s)" using task_inv_fields(8) [OF assms(1)] by (simp add: port_out_def)
  ultimately show ?thesis using do_keyboard_interrupt_inv assms(2) by fastforce
next
  case (Read x)
  have d: "ldt (tstruct s (current s)) 2 = d" using assms(1,2) by (simp add: task_inv_def)
  show ?thesis
  proof (rule user_access_inv [OF assms(1,2)])
    show "x < get_limit d" using assms(4) Read d by simp
    fix own assume "user_ok own s" "4 \<le> dir_index (get_base d + x)"
    moreover have "touch 4 (get_base d + x) s = Inr s'" using assms(5) [unfolded Read enter.simps d] by (simp only: touch_def)
    moreover have "(4 :: u32) AND 1 = 0" by simp
    ultimately have "writes own s (\<lambda>y. load_byte y s) s'" using touch_writes by blast
    from writesD(1-3) [OF this] show "user_ok own s' \<and> mm.more s' = mm.more s \<and> HIGH_MEMORY s' = HIGH_MEMORY s" by blast
  qed
next
  case (Write x v)
  have d: "ldt (tstruct s (current s)) 2 = d" using assms(1,2) by (simp add: task_inv_def)
  have w: "user_store (get_base d + x) v s = Inr s'" using assms(5) Write d by simp
  show ?thesis
  proof (rule user_access_inv [OF assms(1,2)])
    show "x < get_limit d" using assms(4) Write d by simp
  qed (use user_store_spec [OF _ _ w] more_user_store [OF w] in blast)
qed

lemma kernel_run_inv:
  assumes "kernel_run others s s'" "task_inv c d s" "current s = c" "env_keeps (task_inv c d) c others"
  shows "task_inv c d s' \<and> current s' = c"
  using assms by induction (use enter_inv in blast)+

section \<open>Segments of different tasks\<close>

text \<open>Two slots' segments have no address in common.\<close>

lemma slots_disjoint:
  assumes "slot_ok i s" "slot_ok j s" "1 \<le> i" "i < 64" "1 \<le> j" "j < 64" "i \<noteq> j"
    and "x < get_limit (ldt (tstruct s (task s i)) 2)" "y < get_limit (ldt (tstruct s (task s j)) 2)"
  shows "get_base (ldt (tstruct s (task s i)) 2) + x \<noteq> get_base (ldt (tstruct s (task s j)) 2) + y"
proof -
  have at: "unat (get_base (ldt (tstruct s (task s k)) 2) + z) div 67108864 = k"
    if "slot_ok k s" "1 \<le> k" "k < 64" "z < get_limit (ldt (tstruct s (task s k)) 2)" for k z
  proof -
    have d: "get_base (ldt (tstruct s (task s k)) 2) = new_base k" "get_limit (ldt (tstruct s (task s k)) 2) \<le> 0x4000000"
      using that(1,2) by (simp_all add: slot_ok_def Let_def)
    then have "z < 0x4000000" using that(4) by order
    then have z: "unat z < 67108864" by (simp add: word_less_nat_alt)
    moreover have nb: "unat (new_base k) = k * 67108864" using new_base_facts(1) [OF that(3)] .
    ultimately have "unat (new_base k) + unat z < 4294967296" using that(3) by simp
    then have "unat (new_base k + z) = k * 67108864 + unat z" using nb by (simp add: unat_word_ariths)
    then show ?thesis using z by (simp add: d(1))
  qed
  from at [OF assms(1,3,4,8)] at [OF assms(2,5,6,9)] assms(7) show ?thesis by auto
qed

section \<open>Two tasks with a terminal\<close>

definition pair_tty :: tty_kern where
  "pair_tty = kern.extend (parent_kern\<lparr>gdt := (\<lambda>_. \<lparr>desc_a = 0, desc_b = 0\<rparr>)
       (4 := set_tss_desc (0x20000 + TSS_OFFSET), 5 := set_ldt_desc (0x20000 + LDT_OFFSET),
        6 := set_tss_desc (current parent_kern + TSS_OFFSET), 7 := set_ldt_desc (current parent_kern + LDT_OFFSET))\<rparr>)
     (tty_kern.fields True TTY_ECHO (queue_of 0x5000 []) (queue_of 0x5800 []) (queue_of 0x6000 [])
       \<lparr>video_x = 79, video_y = 24, video_buffer = (\<lambda>_. 32), ports = []\<rparr> no_keys)"

lemma pair_tty_simps:
  "HIGH_MEMORY pair_tty = HIGH_MEMORY parent_kern" "mem_map pair_tty = mem_map parent_kern" "phys pair_tty = phys parent_kern"
  "task pair_tty = task parent_kern" "init_task pair_tty = init_task parent_kern" "current pair_tty = current parent_kern"
  "tstruct pair_tty = tstruct parent_kern"
  by (simp_all add: pair_tty_def kern.defs tty_kern.defs)

lemma parent_kern_slots:
  "task parent_kern = (\<lambda>_. 0)(0 := 0x20000, 1 := current parent_kern)" "current parent_kern \<noteq> 0"
  "tstruct parent_kern (current parent_kern) = sharer_task\<lparr>father := 0\<rparr>"
proof -
  show t: "task parent_kern = (\<lambda>_. 0)(0 := 0x20000, 1 := current parent_kern)"
    "tstruct parent_kern (current parent_kern) = sharer_task\<lparr>father := 0\<rparr>"
    by (simp_all add: parent_kern_def pair_kern_simps)
  obtain own where "kernel_ok own parent_kern" by (rule parent_kern_ok)
  then show "current parent_kern \<noteq> 0"
    by (auto simp: kernel_ok_def wf_tasks_def)
qed

lemma pair_tty_inv: "task_inv (current parent_kern) (ldt sharer_task 2) pair_tty"
proof -
  obtain own where own: "kernel_ok own parent_kern" "user_ok own parent_kern" by (rule parent_kern_ok)
  note sl = parent_kern_slots and ps = pair_tty_simps
  have wf: "wf_tasks pair_tty = wf_tasks parent_kern" by (rule wf_tasks_cong) (simp_all add: ps)
  have k: "kernel_ok own pair_tty" "user_ok own pair_tty"
    using own by (simp_all add: kernel_ok_def mm_cong [OF ps(1-3)] user_mem_cong [OF ps(1-3)] wf ps)
  have l: "get_base (ldt (sharer_task\<lparr>father := 0\<rparr>) 2) = 0x4000000" "get_limit (ldt (sharer_task\<lparr>father := 0\<rparr>) 2) = 0xa0000"
    using parent_kern_ok sl(3) by metis+
  have g: "gdt pair_tty 4 = set_tss_desc (0x20000 + TSS_OFFSET)" "gdt pair_tty 5 = set_ldt_desc (0x20000 + LDT_OFFSET)"
    "gdt pair_tty 6 = set_tss_desc (current parent_kern + TSS_OFFSET)" "gdt pair_tty 7 = set_ldt_desc (current parent_kern + LDT_OFFSET)"
    by (simp_all add: pair_tty_def kern.defs)
  have "slot_ok i pair_tty" if i: "task pair_tty i \<noteq> 0" for i
  proof -
    have t: "task pair_tty 0 = 0x20000" "task pair_tty 1 = current parent_kern" by (simp_all add: ps(4) sl(1))
    consider "i = 0" | "i = 1" using i unfolding ps(4) by (metis fun_upd_other sl(1))
    then show ?thesis
    proof cases
      case 1
      then show ?thesis using t(1) g(1,2) by (simp add: slot_ok_def FIRST_TSS_ENTRY_def FIRST_LDT_ENTRY_def)
    next
      case 2
      then show ?thesis using t(2) g(3,4) l by (simp add: slot_ok_def FIRST_TSS_ENTRY_def FIRST_LDT_ENTRY_def ps(7) sl(3))
    qed
  qed
  then have "tasks_ok pair_tty" using k unfolding tasks_ok_def by blast
  moreover have "queue_ok (read_q pair_tty)" "queue_ok (write_q pair_tty)" "queue_ok (buffer pair_tty)" "con_ok (con pair_tty)"
    using queue_of_ok(1) by (simp_all add: pair_tty_def kern.defs tty_kern.defs con_ok_def)
  moreover have "task pair_tty 1 = current parent_kern" by (simp add: ps(4) sl(1))
  then have "in_table 63 pair_tty (current parent_kern)" using sl(2) by (auto simp: in_table_def intro: exI [of _ 1])
  ultimately show ?thesis by (simp add: task_inv_def kernel_inv_def ps(7) sl(3))
qed

definition come_back :: "u32 \<Rightarrow> unit tty_kern_ext env" where
  "come_back c s = Inr (s\<lparr>current := c\<rparr>)"

lemma come_back_keeps: "env_keeps (task_inv c d) c (come_back c)"
proof -
  have "task_inv c d (s\<lparr>current := c\<rparr>)" if i: "task_inv c d s" for s :: tty_kern
  proof -
    obtain i where "1 \<le> i" "i \<le> 63" "task s i = c" "c \<noteq> 0" using i unfolding task_inv_def in_table_def by blast
    then show ?thesis using task_inv_switch [OF i, of i] by simp
  qed
  then show ?thesis by (simp add: env_keeps_def come_back_def)
qed

text \<open>A run: a system call, then a tick that arrives in kernel mode.\<close>

lemma pair_tty_run:
  "\<exists>s'. kernel_run (come_back (current parent_kern)) pair_tty s' \<and> jiffies s' = jiffies parent_kern + 1 \<and> task s' = task parent_kern"
proof -
  let ?o = "come_back (current parent_kern)" and ?c = "user_frame\<lparr>f_eax := NR_sgetmask, f_cs := 8\<rparr>"
  let ?r = "\<lparr>c_ebp = 0, c_esi = 0, c_edi = 0, c_gs = 0x17\<rparr>"
  have me: "tstruct pair_tty (current pair_tty) = sharer_task\<lparr>father := 0\<rparr>"
    using parent_kern_slots(3) by (simp add: pair_tty_simps)
  have t: "state (sharer_task\<lparr>father := 0\<rparr>) = 0" "counter (sharer_task\<lparr>father := 0\<rparr>) = 15"
    by (simp_all add: sharer_task_def blank_task_def)
  have b: "data_base pair_tty = 0x4000000" using parent_kern_ok by (simp add: pair_tty_simps) metis
  have ok: "stack_ok ?c pair_tty" unfolding stack_ok_def b by (simp add: user_frame_def)
  have "NR_sgetmask \<noteq> NR_user_tty_read" "NR_sgetmask \<noteq> NR_fork" "NR_sgetmask \<noteq> NR_sigaction"
    by (simp_all add: NR_sgetmask_def NR_user_tty_read_def NR_fork_def NR_sigaction_def)
  then have ok1: "event_ok (Call ?r ?c) pair_tty" using ok by (simp add: call_ok_def stack_ok_def)
  have r: "ret_from_syscall f s = Inr (f, s)" if "f_cs f = 8" for f and s :: tty_kern
    using that by (simp add: ret_from_syscall_def)
  have e1: "enter ?o (Call ?r ?c) pair_tty = Inr pair_tty"
    using table_numbers(9) me t r
    by (simp add: system_call_def nr_system_calls_def NR_sgetmask_def call_function_def sys_sgetmask_def reschedule_def)
  note run1 = run_enter [OF run_start ok1 e1]
  obtain s2 where s2: "timer_interrupt ?o 8 pair_tty = Inr s2" "jiffies s2 = jiffies pair_tty + 1" "task s2 = task pair_tty"
    using me t(2) by (simp add: timer_interrupt_def do_timer_def Let_def word_sless_alt)
  have e2: "enter ?o (Tick ?c) pair_tty = Inr s2" using s2(1) r by simp
  have "kernel_run ?o pair_tty s2" by (rule run_enter [OF run1 _ e2]) (use ok in simp)
  moreover have "jiffies pair_tty = jiffies parent_kern" by (simp add: pair_tty_def kern.defs)
  ultimately show ?thesis using s2(2,3) pair_tty_simps(4) by auto
qed

section \<open>Properties\<close>





end
