(* ===== verification/Boot.thy ===== *)
theory Boot
  imports Traps Kernel_Invariant
begin

text \<open>
  The start of the kernel (\<open>main\<close> of init/main.c up to and with the switch to user mode, the static
  initialisers of kernel/sched.c and kernel/chr_drv/tty_io.c): every component is set up in
  turn, each on the state the others left.
\<close>

section \<open>The static data\<close>

definition INIT_TASK :: "u32 \<Rightarrow> u32 \<Rightarrow> task_struct" where
  "INIT_TASK self pg_dir = \<lparr>state = 0, counter = 15, priority = 15, signal = 0, sigactions = (\<lambda>_. \<lparr>sa_handler = 0, sa_mask = 0, sa_flags = 0, sa_restorer = 0\<rparr>), blocked = 0,
     exit_code = 0, start_code = 0, end_code = 0, end_data = 0, brk = 0, start_stack = 0,
     pid = 0, father = -1, pgrp = 0, session = 0, leader = 0,
     uid = 0, euid = 0, suid = 0, gid = 0, egid = 0, sgid = 0,
     alarm = 0, utime = 0, stime = 0, cutime = 0, cstime = 0, start_time = 0,
     used_math = 0, tty = -1,
     ldt = (\<lambda>_. \<lparr>desc_a = 0, desc_b = 0\<rparr>)(1 := \<lparr>desc_a = 0x9f, desc_b = 0xc0fa00\<rparr>, 2 := \<lparr>desc_a = 0x9f, desc_b = 0xc0f200\<rparr>),
     tss = \<lparr>tss_back_link = 0, tss_esp0 = PAGE_SIZE + self, tss_ss0 = 0x10, tss_esp1 = 0, tss_ss1 = 0, tss_esp2 = 0, tss_ss2 = 0,
       tss_cr3 = pg_dir, tss_eip = 0, tss_eflags = 0, tss_eax = 0, tss_ecx = 0, tss_edx = 0, tss_ebx = 0,
       tss_esp = 0, tss_ebp = 0, tss_esi = 0, tss_edi = 0, tss_es = 0x17, tss_cs = 0x17, tss_ss = 0x17, tss_ds = 0x17,
       tss_fs = 0x17, tss_gs = 0x17, tss_ldt = LDT_sel 0, tss_bitmap = 0x80000000, tss_i387 = replicate 27 0\<rparr>\<rparr>"

text \<open>The memory as the boot loader leaves it: the task table with the first task, and the
  terminal's queues, empty.\<close>

definition tty_loaded :: "'a tty_kern_scheme \<Rightarrow> bool" where
  "tty_loaded s \<longleftrightarrow> \<not> write_fn s \<and> tty_flags s = TTY_ECHO \<and>
     (\<forall>q. length (buf (get_q q s)) = 1024 \<and> head (get_q q s) = 0 \<and> tail (get_q q s) = 0)"

definition loaded :: "u32 \<Rightarrow> 'a tty_kern_scheme \<Rightarrow> bool" where
  "loaded pg_dir s \<longleftrightarrow> init_task s \<noteq> 0 \<and> current s = init_task s \<and> last_task_used_math s = 0 \<and>
     task s = (\<lambda>_. 0)(0 := init_task s) \<and> tstruct s (init_task s) = INIT_TASK (init_task s) pg_dir \<and>
     tty_loaded s"

section \<open>Start\<close>

definition boot :: "'a tty_kern_ext env \<Rightarrow> ((u32 \<times> u8) list \<Rightarrow> u32 \<Rightarrow> u8) \<Rightarrow> (entry \<Rightarrow> u32) \<Rightarrow> u32 \<Rightarrow> u32 \<Rightarrow> u32 \<Rightarrow> 'a tty_kern_scheme \<Rightarrow> kerror + 'a tty_kern_scheme" where
  "boot others inb addr timer_entry system_call_entry keyboard_entry s =
     (let s1 = s\<lparr>con := video_init (con s)\<rparr>;
          s2 = trap_init inb addr s1;
          s3 = sched_init inb timer_entry system_call_entry s2 in
      kbind (mem_init 0x100000 0x300000 s3) (\<lambda>s4.
      let s5 = tty_init inb keyboard_entry s4 in
      kbind (print_at others (''TTY Init done'' @ [nl]) [1] s5) (\<lambda>s6.
      print_at others ''root@neu-os# '' [] s6)))"

text \<open>The switch to user mode, which has the stack pointer, the flags and its own continuation as the
  rest of the frame that \<open>iret\<close> takes.\<close>

definition move_to_user_mode :: "u32 \<Rightarrow> u32 \<Rightarrow> u32 \<Rightarrow> cpu \<times> frame \<Rightarrow> cpu \<times> frame" where
  "move_to_user_mode esp eflags label rc =
     (case rc of (r, c) \<Rightarrow> (r\<lparr>c_gs := 0x17\<rparr>,
        c\<lparr>f_ss := 0x17, f_esp := esp, f_eflags := eflags, f_cs := 0x0f, f_eip := label, f_eax := 0x17,
          f_ds := 0x17, f_es := 0x17, f_fs := 0x17\<rparr>))"

text \<open>A selector for user mode in the LDT of the current task, of a segment of 640 KB at 0.\<close>

definition first_selector :: "'a kern_scheme \<Rightarrow> u32 \<Rightarrow> bool" where
  "first_selector s sel \<longleftrightarrow> sel AND 7 = 7 \<and>
     (let d = ldt (tstruct s (current s)) (unat (drop_bit 3 sel)) in get_base d = 0 \<and> get_limit d = 0xA0000)"

lemma first_segments:
  "get_base \<lparr>desc_a = 0x9f, desc_b = 0xc0fa00\<rparr> = 0" "get_limit \<lparr>desc_a = 0x9f, desc_b = 0xc0fa00\<rparr> = 0xA0000"
  "get_base \<lparr>desc_a = 0x9f, desc_b = 0xc0f200\<rparr> = 0" "get_limit \<lparr>desc_a = 0x9f, desc_b = 0xc0f200\<rparr> = 0xA0000"
  "unat (drop_bit 3 (0x17 :: u32)) = 2" "unat (drop_bit 3 (0x0f :: u32)) = 1"
  by code_simp+

section \<open>The interrupt controllers and the timer\<close>

text \<open>The value last written to a port. The mask register of an 8259 reads back as written; \<open>m1\<close> and
  \<open>m2\<close> are the masks that boot/setup.s has left in the two controllers.\<close>

fun last_out :: "(u32 \<times> u8) list \<Rightarrow> u32 \<Rightarrow> u8 \<Rightarrow> u8" where
  "last_out [] p m = m"
| "last_out ((q, v) # os) p m = (if q = p then v else last_out os p m)"

definition mask_ports :: "((u32 \<times> u8) list \<Rightarrow> u32 \<Rightarrow> u8) \<Rightarrow> u8 \<Rightarrow> u8 \<Rightarrow> bool" where
  "mask_ports inb m1 m2 \<longleftrightarrow> (\<forall>os. inb os 0x21 = last_out os 0x21 m1 \<and> inb os 0xA1 = last_out os 0xA1 m2)"

definition timer_ports :: "(u32 \<times> u8) list \<Rightarrow> (u32 \<times> u8) list" where
  "timer_ports os = filter (\<lambda>(p, v). p = 0x40 \<or> p = 0x43) os"

definition timer_outs :: "(u32 \<times> u8) list" where
  "timer_outs = [(0x40, 0x2E), (0x40, 0x9B), (0x43, 0x36)]"

definition boot_outs :: "((u32 \<times> u8) list \<Rightarrow> u32 \<Rightarrow> u8) \<Rightarrow> (u32 \<times> u8) list \<Rightarrow> (u32 \<times> u8) list" where
  "boot_outs inb os =
     (let o1 = (0x21, inb os 0x21 AND 0xfb) # os;
          o2 = (0xA1, inb o1 0xA1 AND 0xdf) # o1;
          o3 = timer_outs @ o2;
          o4 = (0x21, inb o3 0x21 AND NOT 1) # o3;
          o5 = (0x21, inb o4 0x21 AND 0xfd) # o4;
          a = inb o5 0x61 in
      (0x61, a) # (0x61, a OR 0x80) # o5)"

lemma boot_outs_timer: "timer_ports (boot_outs inb os) = timer_outs @ timer_ports os"
  by (simp add: boot_outs_def timer_ports_def timer_outs_def Let_def)

lemma boot_outs_masks:
  assumes "mask_ports inb m1 m2"
  shows "last_out (boot_outs inb os) 0x21 m1 = last_out os 0x21 m1 AND 0xF8"
    and "last_out (boot_outs inb os) 0xA1 m2 = last_out os 0xA1 m2 AND 0xDF"
proof -
  show "last_out (boot_outs inb os) 0x21 m1 = last_out os 0x21 m1 AND 0xF8"
    using assms by (simp add: boot_outs_def mask_ports_def timer_outs_def Let_def and.assoc)
  show "last_out (boot_outs inb os) 0xA1 m2 = last_out os 0xA1 m2 AND 0xDF"
    using assms by (simp add: boot_outs_def mask_ports_def timer_outs_def Let_def)
qed

section \<open>The blank screen\<close>

definition blank_screen :: text_state where
  "blank_screen = (0, 0, replicate 25 (replicate 80 (32, 0x0F)))"

definition blanks :: "nat \<Rightarrow> nat list \<Rightarrow> (u32 \<Rightarrow> u8) \<Rightarrow> (u32 \<Rightarrow> u8)" where
  "blanks i js = fold (wr 32 i) js"

lemma blank_column:
  "i < 80 \<Longrightarrow> \<forall>j \<in> set js. j < 25 \<Longrightarrow>
     fold (\<lambda>j. video_putchar_at 32 (of_nat i) (of_nat j) 0x0F) js c = c\<lparr>video_buffer := blanks i js (video_buffer c)\<rparr>"
  by (induction js arbitrary: c) (simp_all add: blanks_def put_at_wr)

lemma screen_column:
  "i < 80 \<Longrightarrow> \<forall>j \<in> set js. j < 25 \<Longrightarrow> x < 80 \<Longrightarrow> y < 25 \<Longrightarrow>
     screen (blanks i js m) ! y ! x = (if x = i \<and> y \<in> set js then (32, 0x0F) else screen m ! y ! x)"
proof (induction js arbitrary: m)
  case (Cons j js)
  have "screen (wr 32 i j m) ! y ! x = (if x = i \<and> y = j then (32, 0x0F) else screen m ! y ! x)"
    using Cons.prems by (simp add: screen_wr set_text_def nth_list_update)
  then show ?case using Cons.IH [of "wr 32 i j m"] Cons.prems by (auto simp: blanks_def)
qed (simp add: blanks_def)

lemma blank_columns:
  "\<forall>i \<in> set is. i < 80 \<Longrightarrow>
     fold (\<lambda>i. fold (\<lambda>j. video_putchar_at 32 (of_nat i) (of_nat j) 0x0F) [0..<25]) is c =
       c\<lparr>video_buffer := fold (\<lambda>i. blanks i [0..<25]) is (video_buffer c)\<rparr>"
  by (induction "is" arbitrary: c) (simp_all add: blank_column)

lemma screen_columns:
  "\<forall>i \<in> set is. i < 80 \<Longrightarrow> x < 80 \<Longrightarrow> y < 25 \<Longrightarrow>
     screen (fold (\<lambda>i. blanks i [0..<25]) is m) ! y ! x = (if x \<in> set is then (32, 0x0F) else screen m ! y ! x)"
  by (induction "is" arbitrary: m) (auto simp: screen_column)

lemma video_init_blank: "con_ok (video_init c) \<and> text_of (video_init c) = blank_screen"
proof -
  have "screen (fold (\<lambda>i. blanks i [0..<25]) [0..<80] m) = replicate 25 (replicate 80 (32, 0x0F))" for m
    by (rule screen_eqI) (simp_all add: screen_columns del: upt_rec_numeral)
  then show ?thesis
    by (simp add: video_init_def video_clear_def blank_columns con_ok_def text_of_def blank_screen_def Let_def del: upt_rec_numeral)
qed

section \<open>Printing\<close>

lemma printk_prints:
  fixes s :: "'a tty_kern_scheme"
  assumes "vsprintf text_at fmt args = Inr out" "length out < 1024" "0 \<notin> set out"
    and "write_fn s" "queue_ok (write_q s)" "chars (write_q s) = []"
  shows "\<exists>q. printk others text_at fmt args s = Inr (s\<lparr>write_q := q, con := fold video_putchar out (con s)\<rparr>) \<and>
    queue_ok q \<and> chars q = []"
proof -
  have t: "takeWhile (\<lambda>c. c \<noteq> 0) out = out" using assms(3) by (simp add: takeWhile_eq_all_conv) metis
  have f: "fold (push_q Write_q) cs s = s\<lparr>write_q := fold (\<lambda>x q. snd (tty_push_q q x)) cs (write_q s)\<rparr>" for cs
    by (induction cs arbitrary: s) (simp_all add: push_q_def)
  let ?q = "fold (\<lambda>x q. snd (tty_push_q q x)) out (write_q s)"
  have q: "queue_ok ?q" "chars ?q = out" using ring.push_all [OF assms(5), of out] assms(2,6) by simp_all
  then have "printk others text_at fmt args s = Inr (s\<lparr>write_q := emptied ?q, con := fold video_putchar out (con s)\<rparr>)"
    using assms(1,2,4) tty_write_eq [of "s\<lparr>write_q := ?q\<rparr>" others] by (simp add: printk_def t f)
  then show ?thesis using emptied_ok [OF q(1)] by blast
qed

lemma clear_tasks_frame:
  "clear_tasks n i s = s\<lparr>task := task (clear_tasks n i s), gdt := gdt (clear_tasks n i s)\<rparr>"
proof (induction n arbitrary: i s)
  case (Suc n)
  show ?case unfolding clear_tasks.simps by (rule trans [OF Suc.IH]) simp
qed simp

lemma sched_init_frame: "\<exists>t g. sched_init inb a b s = s\<lparr>task := t, gdt := g, idt := set_system_gate 0x80 b (set_intr_gate 0x20 a (idt s)),
    outs := (0x21, inb (timer_outs @ outs s) 0x21 AND NOT 1) # timer_outs @ outs s\<rparr>"
proof -
  let ?s = "s\<lparr>gdt := (gdt s)(FIRST_TSS_ENTRY := set_tss_desc (init_task s + TSS_OFFSET), FIRST_LDT_ENTRY := set_ldt_desc (init_task s + LDT_OFFSET))\<rparr>"
  obtain t g where c: "clear_tasks (NR_TASKS - 1) 1 ?s = ?s\<lparr>task := t, gdt := g\<rparr>" using clear_tasks_frame by blast
  have d: "(ucast (drop_bit 8 (c_div 1193180 HZ)) :: u8) = 0x2E" "(ucast (c_div 1193180 HZ AND 0xFF) :: u8) = 0x9B" by code_simp+
  show ?thesis unfolding sched_init_def Let_def c d by (rule exI [of _ t], rule exI [of _ g]) (simp add: port_out_def timer_outs_def)
qed

definition screen_row :: "string \<Rightarrow> (u8 \<times> u8) list" where
  "screen_row cs = map (\<lambda>c. (of_char c, 0x0F)) cs @ replicate (80 - length cs) (32, 0x0F)"

lemma banner:
  "fold print_text (c_text ''root@neu-os# '') (fold print_text (c_text (''TTY Init done'' @ [nl])) blank_screen) =
    (13, 1, [screen_row ''TTY Init done'', screen_row ''root@neu-os# ''] @ replicate 23 (replicate 80 (32, 0x0F)))"
  by code_simp

lemma banner_text:
  "vsprintf (\<lambda>_. []) (c_text (''TTY Init done'' @ [nl])) [1] = Inr (c_text (''TTY Init done'' @ [nl]))"
  "vsprintf (\<lambda>_. []) (c_text ''root@neu-os# '') [] = Inr (c_text ''root@neu-os# '')"
  by code_simp+

lemma banner_chars:
  "length (c_text (''TTY Init done'' @ [nl])) < 1024" "0 \<notin> set (c_text (''TTY Init done'' @ [nl]))"
  "length (c_text ''root@neu-os# '') < 1024" "0 \<notin> set (c_text ''root@neu-os# '')"
  by code_simp+

section \<open>The invariant of the first task\<close>

lemma head_walk:
  assumes "head_tables s" "phys s' = phys s" "4 \<le> dir_index y"
  shows "walk s' y = None"
proof -
  have "dirent s' (dir_index y) = 0" using assms by (simp add: head_tables_def dirent_def)
  then show ?thesis by (simp add: walk_def entry_def dir_present_def)
qed

lemma first_task_inv:
  fixes s :: "'a tty_kern_scheme"
  assumes "wf_tasks s" "vm_inv (\<lambda>_. 0) s" "\<not> managed (init_task s)" "\<forall>y. 4 \<le> dir_index y \<longrightarrow> walk s y = None"
    and "\<forall>i. 1 \<le> i \<and> i < 64 \<longrightarrow> task s i = 0" "task s 0 = init_task s"
    and "gdt s 4 = set_tss_desc (init_task s + TSS_OFFSET)" "gdt s 5 = set_ldt_desc (init_task s + LDT_OFFSET)"
    and "queue_ok (read_q s)" "queue_ok (write_q s)" "queue_ok (buffer s)" "con_ok (con s)"
  shows "kernel_inv s"
proof -
  have "kernel_ok (\<lambda>_. 0) s" using assms(1-3,5) by (simp add: kernel_ok_def)
  moreover have "user_ok (\<lambda>_. 0) s" using assms(2,4) by (auto simp: user_ok_def)
  moreover have "slot_ok i s" if "i < 64" "task s i \<noteq> 0" for i
  proof -
    have "i = 0" using that assms(5) by (cases i) auto
    then show ?thesis using assms(6-8) by (simp add: slot_ok_def FIRST_TSS_ENTRY_def FIRST_LDT_ENTRY_def)
  qed
  ultimately have "tasks_ok s" unfolding tasks_ok_def by blast
  then show ?thesis using assms(9-12) by (simp add: kernel_inv_def)
qed

section \<open>What the start leaves\<close>

definition banner_rows :: "(u8 \<times> u8) list list" where
  "banner_rows = [screen_row ''TTY Init done'', screen_row ''root@neu-os# ''] @ replicate 23 (replicate 80 (32, 0x0F))"

lemma banner_printed:
  fixes s :: "'a tty_kern_scheme"
  assumes "write_fn s" "queue_ok (write_q s)" "chars (write_q s) = []" "con s = video_init c"
  shows "\<exists>q c'. kbind (print_at others (''TTY Init done'' @ [nl]) [1] s) (print_at others ''root@neu-os# '' []) =
      Inr (s\<lparr>write_q := q, con := c'\<rparr>) \<and> queue_ok q \<and> chars q = [] \<and> con_ok c' \<and> text_of c' = (13, 1, banner_rows)"
proof -
  let ?c1 = "fold video_putchar (c_text (''TTY Init done'' @ [nl])) (con s)"
  obtain q1 where p1: "print_at others (''TTY Init done'' @ [nl]) [1] s = Inr (s\<lparr>write_q := q1, con := ?c1\<rparr>)"
    "queue_ok q1" "chars q1 = []"
    using printk_prints [OF banner_text(1) banner_chars(1,2) assms(1-3)] by blast
  let ?s1 = "s\<lparr>write_q := q1, con := ?c1\<rparr>" and ?c2 = "fold video_putchar (c_text ''root@neu-os# '') ?c1"
  obtain q2 where p2: "print_at others ''root@neu-os# '' [] ?s1 = Inr (?s1\<lparr>write_q := q2, con := ?c2\<rparr>)"
    "queue_ok q2" "chars q2 = []"
    using printk_prints [OF banner_text(2) banner_chars(3,4), of ?s1 others] assms(1) p1(2,3) by auto
  have "con_ok ?c2" "text_of ?c2 = (13, 1, banner_rows)"
    using video_putchar_texts [of "video_init x" cs for x cs] video_putchar_texts [of "fold video_putchar ds (video_init x)" cs for x cs ds]
      video_init_blank banner by (simp_all add: assms(4) banner_rows_def)
  then show ?thesis using p1(1) p2 by (intro exI [of _ q2] exI [of _ ?c2]) simp
qed

text \<open>The state after the start, field by field.\<close>

lemma boot_eq:
  fixes s :: "'a tty_kern_scheme"
  assumes "loaded pg_dir s"
  obtains t g i q c where "boot others inb addr timer_entry system_call_entry keyboard_entry s =
      Inr (s\<lparr>con := c, idt := i, task := t, gdt := g, HIGH_MEMORY := 0x300000,
        mem_map := freed_map 0x100000 0x300000 (mem_map s), write_fn := True, write_q := q, outs := boot_outs inb (outs s)\<rparr>)"
    "t 0 = init_task s" "\<And>j. 1 \<le> j \<Longrightarrow> j < 64 \<Longrightarrow> t j = 0"
    "g 4 = set_tss_desc (init_task s + TSS_OFFSET)" "g 5 = set_ldt_desc (init_task s + LDT_OFFSET)"
    "\<And>v. i v = (if v = 0x20 then set_gate 0xE 0 timer_entry else if v = 0x21 then set_gate 0xF 0 keyboard_entry
       else if v = 0x80 then set_gate 0xF 3 system_call_entry
       else if v < 48 then set_gate 0xF (if user_vector v then 3 else 0) (addr (vector_entry v)) else idt s v)"
    "queue_ok q" "chars q = []" "con_ok c" "text_of c = (13, 1, banner_rows)"
proof -
  have ld: "init_task s \<noteq> 0" "current s = init_task s" "task s 0 = init_task s"
    using assms by (simp_all add: loaded_def)
  have "length (buf (write_q s)) = 1024 \<and> head (write_q s) = 0 \<and> tail (write_q s) = 0"
    using assms unfolding loaded_def tty_loaded_def by (metis get_q.simps(2))
  then have Q: "queue_ok (write_q s)" "chars (write_q s) = []" by (simp_all add: queue_ok_def chars_def used_def)
  define i2 where "i2 = idt (trap_init inb addr (s\<lparr>con := video_init (con s)\<rparr>))"
  define os where "os = (let o1 = (0x21, inb (outs s) 0x21 AND 0xfb) # outs s in (0xA1, inb o1 0xA1 AND 0xdf) # o1)"
  have s2: "trap_init inb addr (s\<lparr>con := video_init (con s)\<rparr>) = s\<lparr>con := video_init (con s), idt := i2, outs := os\<rparr>"
    unfolding i2_def os_def by (rule trans [OF trap_init_frame]) simp
  let ?s2 = "s\<lparr>con := video_init (con s), idt := i2, outs := os\<rparr>"
  let ?o3 = "(0x21, inb (timer_outs @ os) 0x21 AND NOT 1) # timer_outs @ os"
  let ?i3 = "set_system_gate 0x80 system_call_entry (set_intr_gate 0x20 timer_entry i2)"
  obtain t g where s3: "sched_init inb timer_entry system_call_entry ?s2 = ?s2\<lparr>task := t, gdt := g, idt := ?i3, outs := ?o3\<rparr>"
    using sched_init_frame [of inb timer_entry system_call_entry ?s2] by auto
  let ?s3 = "?s2\<lparr>task := t, gdt := g, idt := ?i3, outs := ?o3\<rparr>" and ?m = "freed_map 0x100000 0x300000 (mem_map s)"
  have T: "t 0 = init_task s" "\<And>j. 1 \<le> j \<Longrightarrow> j < 64 \<Longrightarrow> t j = 0"
      "g 4 = set_tss_desc (init_task s + TSS_OFFSET)" "g 5 = set_ldt_desc (init_task s + LDT_OFFSET)"
    using sched_init_correct [of ?s2 inb timer_entry system_call_entry, unfolded s3] ld by (simp_all add: wf_tasks_def)
  have "managed 0x100000" "page_aligned 0x300000" by (simp_all add: managed_def LOW_MEM_def page_aligned_iff_dvd)
  then have m: "mem_init 0x100000 0x300000 ?s3 = Inr (?s3\<lparr>HIGH_MEMORY := 0x300000, mem_map := ?m\<rparr>)"
    using mem_init_eq [of "0x100000" "0x300000" ?s3] by simp
  let ?s5 = "tty_init inb keyboard_entry (?s3\<lparr>HIGH_MEMORY := 0x300000, mem_map := ?m\<rparr>)"
  let ?i = "set_trap_gate 0x21 keyboard_entry ?i3"
  have s5: "?s5 = s\<lparr>con := video_init (video_init (con s)), idt := ?i, task := t, gdt := g, HIGH_MEMORY := 0x300000,
      mem_map := ?m, write_fn := True, outs := boot_outs inb (outs s)\<rparr>"
    by (simp add: tty_init_def con_init_def port_out_def boot_outs_def os_def Let_def)
  obtain q c where p: "kbind (print_at others (''TTY Init done'' @ [nl]) [1] ?s5) (print_at others ''root@neu-os# '' []) =
      Inr (?s5\<lparr>write_q := q, con := c\<rparr>)" "queue_ok q" "chars q = []" "con_ok c" "text_of c = (13, 1, banner_rows)"
    using banner_printed [of ?s5 "video_init (con s)" others] Q unfolding s5 by auto
  have "?i v = (if v = 0x20 then set_gate 0xE 0 timer_entry else if v = 0x21 then set_gate 0xF 0 keyboard_entry
       else if v = 0x80 then set_gate 0xF 3 system_call_entry
       else if v < 48 then set_gate 0xF (if user_vector v then 3 else 0) (addr (vector_entry v)) else idt s v)" for v
    by (simp add: i2_def trap_init_idt set_trap_gate_def set_system_gate_def set_intr_gate_def)
  moreover have "boot others inb addr timer_entry system_call_entry keyboard_entry s = Inr (?s5\<lparr>write_q := q, con := c\<rparr>)"
    unfolding boot_def Let_def s2 s3 m kbind.simps p(1) ..
  then have "boot others inb addr timer_entry system_call_entry keyboard_entry s =
      Inr (s\<lparr>con := c, idt := ?i, task := t, gdt := g, HIGH_MEMORY := 0x300000, mem_map := ?m, write_fn := True, write_q := q, outs := boot_outs inb (outs s)\<rparr>)"
    unfolding s5 by simp
  ultimately show thesis using that T p(2-5) by blast
qed


definition boot_image :: tty_kern where
  "boot_image = (terminal [] no_keys)\<lparr>init_task := 0x20000, current := 0x20000, last_task_used_math := 0,
     task := (\<lambda>_. 0)(0 := 0x20000), tstruct := (\<lambda>_. INIT_TASK 0x20000 0), write_fn := False,
     phys := phys head_state\<rparr>"


end
