(* ===== verification/Serial.thy ===== *)
theory Serial
  imports Vsprintf
begin

text \<open>
  The debug output on the serial line (kernel/serial_debug.c). The device is a parameter:
  \<open>status n\<close> is what the \<open>n\<close>-th read of the line status register returns. The state counts
  these reads and keeps the bytes written to the data port; a character is sent only once the
  transmitter is empty, so the code may wait for ever.
\<close>

section \<open>Operations\<close>

record serial =
  polls :: nat
  sent :: "u8 list"

definition is_transmit_empty :: "(nat \<Rightarrow> u8) \<Rightarrow> nat \<Rightarrow> u8" where
  "is_transmit_empty status n = status n AND 0x20"

text \<open>The loop of \<open>s_putchar\<close>, from the \<open>n\<close>-th read on: the number of reads when it ends.\<close>

partial_function (option) wait_transmit :: "(nat \<Rightarrow> u8) \<Rightarrow> nat \<Rightarrow> nat option" where
  "wait_transmit status n =
     (if is_transmit_empty status n = 0 then wait_transmit status (Suc n) else Some (Suc n))"

definition s_putchar :: "(nat \<Rightarrow> u8) \<Rightarrow> u8 \<Rightarrow> serial \<Rightarrow> kerror + serial" where
  "s_putchar status a s = (case wait_transmit status (polls s) of
     None \<Rightarrow> Inl Hang
   | Some n \<Rightarrow> Inr (s\<lparr>polls := n, sent := sent s @ [a]\<rparr>))"

fun s_puts :: "(nat \<Rightarrow> u8) \<Rightarrow> u8 list \<Rightarrow> serial \<Rightarrow> kerror + serial" where
  "s_puts status [] s = Inr s"
| "s_puts status (a # as) s = kbind (s_putchar status a s) (s_puts status as)"

definition serial_debugstr :: "(nat \<Rightarrow> u8) \<Rightarrow> (u32 \<Rightarrow> u8 list) \<Rightarrow> u32 \<Rightarrow> serial \<Rightarrow> kerror + u32 \<times> serial" where
  "serial_debugstr status text_at str s = kbind (s_puts status (text_at str) s) (\<lambda>s1. Inr (0, s1))"

text \<open>The loop that fills \<open>buf\<close> is that of \<open>_sprintnum\<close>, and the last loop sends it backwards.\<close>

definition s_printnum :: "(nat \<Rightarrow> u8) \<Rightarrow> u32 \<Rightarrow> u32 \<Rightarrow> u32 \<Rightarrow> serial \<Rightarrow> kerror + serial" where
  "s_printnum status num base sign s =
     (let minus = (sign \<noteq> 0 \<and> num <s 0); num = (if minus then - num else num) in
      kbind (if minus then s_putchar status 45 s else Inr s) (\<lambda>s1.
        if num = 0 then s_putchar status 48 s1
        else kbind (num_digits 50 num base []) (\<lambda>ds. s_puts status ds s1)))"

definition s_conversion :: "(nat \<Rightarrow> u8) \<Rightarrow> (u32 \<Rightarrow> u8 list) \<Rightarrow> u8 \<Rightarrow> u32 list \<Rightarrow> serial \<Rightarrow>
    kerror + u32 list \<times> serial" where
  "s_conversion status text_at c args s =
     (if c = of_char CHR ''d'' then kbind (next_arg args) (\<lambda>(a, as). kbind (s_printnum status a 10 1 s) (\<lambda>s1. Inr (as, s1)))
      else if c = of_char CHR ''u'' then kbind (next_arg args) (\<lambda>(a, as). kbind (s_printnum status a 10 0 s) (\<lambda>s1. Inr (as, s1)))
      else if c = of_char CHR ''x'' then kbind (next_arg args) (\<lambda>(a, as). kbind (s_printnum status a 16 0 s) (\<lambda>s1. Inr (as, s1)))
      else if c = of_char CHR ''s'' then kbind (next_arg args) (\<lambda>(a, as). kbind (s_puts status (text_at a) s) (\<lambda>s1. Inr (as, s1)))
      else if c = of_char CHR ''c'' then kbind (next_arg args) (\<lambda>(a, as). kbind (s_putchar status (ucast a) s) (\<lambda>s1. Inr (as, s1)))
      else if c = of_char CHR ''%'' then kbind (s_putchar status (of_char CHR ''%'') s) (\<lambda>s1. Inr (args, s1))
      else Inr (args, s))"

fun s_printk :: "(nat \<Rightarrow> u8) \<Rightarrow> (u32 \<Rightarrow> u8 list) \<Rightarrow> u8 list \<Rightarrow> u32 list \<Rightarrow> serial \<Rightarrow> kerror + serial" where
  "s_printk status text_at [] args s = Inr s"
| "s_printk status text_at [c] args s = (if c \<noteq> of_char CHR ''%'' then s_putchar status c s else Inr s)"
| "s_printk status text_at (c # c' # fmt) args s =
     (if c \<noteq> of_char CHR ''%'' then kbind (s_putchar status c s) (s_printk status text_at (c' # fmt) args)
      else kbind (s_conversion status text_at c' args s) (\<lambda>(as, s1). s_printk status text_at fmt as s1))"

section \<open>The same output as vsprintf\<close>

definition live :: "(nat \<Rightarrow> u8) \<Rightarrow> bool" where
  "live status \<longleftrightarrow> (\<forall>n. \<exists>m \<ge> n. is_transmit_empty status m \<noteq> 0)"

lemma wait_transmit_ends: "is_transmit_empty status (n + k) \<noteq> 0 \<Longrightarrow> \<exists>m. wait_transmit status n = Some m"
  by (induction k arbitrary: n; subst wait_transmit.simps) auto

text \<open>\<open>agrees s w r\<close>: from \<open>s\<close>, the output \<open>w\<close> has been sent in the result \<open>r\<close>, or both failed alike.\<close>

definition agrees :: "serial \<Rightarrow> kerror + u8 list \<Rightarrow> kerror + serial \<Rightarrow> bool" where
  "agrees s w r \<longleftrightarrow> (case w of Inl e \<Rightarrow> r = Inl e | Inr out \<Rightarrow> \<exists>n. r = Inr (s\<lparr>polls := n, sent := sent s @ out\<rparr>))"

lemma agrees_simps [simp]:
  "agrees s (Inl e) r \<longleftrightarrow> r = Inl e"
  "agrees s (Inr out) r \<longleftrightarrow> (\<exists>n. r = Inr (s\<lparr>polls := n, sent := sent s @ out\<rparr>))"
  by (simp_all add: agrees_def)

lemma agrees_append:
  assumes "agrees s (Inr out) m" "\<And>n. agrees (s\<lparr>polls := n, sent := sent s @ out\<rparr>) w (f (s\<lparr>polls := n, sent := sent s @ out\<rparr>))"
  shows "agrees s (kbind w (\<lambda>out'. Inr (out @ out'))) (kbind m f)"
proof -
  obtain n where m: "m = Inr (s\<lparr>polls := n, sent := sent s @ out\<rparr>)" using assms(1) by auto
  show ?thesis using assms(2) [of n] m by (cases w) auto
qed

lemma s_putchar_agrees: "live status \<Longrightarrow> agrees s (Inr [a]) (s_putchar status a s)"
proof -
  assume "live status"
  then obtain k where "is_transmit_empty status (polls s + k) \<noteq> 0"
    unfolding live_def by (metis le_add_diff_inverse)
  then show ?thesis using wait_transmit_ends [of status "polls s" k] by (auto simp: s_putchar_def)
qed

lemma s_puts_agrees: "live status \<Longrightarrow> agrees s (Inr as) (s_puts status as s)"
proof (induction as arbitrary: s)
  case Nil
  show ?case by (auto intro: exI [of _ "polls s"])
next
  case (Cons a as)
  show ?case
    using agrees_append [where w = "Inr as" and f = "s_puts status as", OF s_putchar_agrees [OF Cons.prems, of s a] Cons.IH [OF Cons.prems]]
    by simp
qed

lemma s_printnum_agrees:
  assumes "live status"
  shows "agrees s (sprintnum num base sign) (s_printnum status num base sign s)"
proof -
  define neg where "neg \<longleftrightarrow> sign \<noteq> 0 \<and> num <s 0"
  define v where "v = (if neg then - num else num)"
  let ?rest = "\<lambda>s1. if v = 0 then s_putchar status 48 s1 else kbind (num_digits 50 v base []) (\<lambda>ds. s_puts status ds s1)"
  let ?w = "if v = 0 then Inr [48] else num_digits 50 v base []"
  have rest: "agrees s1 ?w (?rest s1)" for s1
    using s_putchar_agrees [OF assms, of s1 48] s_puts_agrees [OF assms, of s1]
    by (cases "num_digits 50 v base []") auto
  have eq: "s_printnum status num base sign s = kbind (if neg then s_putchar status 45 s else Inr s) ?rest"
    "sprintnum num base sign = kbind ?w (\<lambda>out. Inr ((if neg then [45] else []) @ out))"
    by (simp_all add: s_printnum_def sprintnum_def neg_def v_def Let_def)
  have "agrees s (Inr (if neg then [45] else [])) (if neg then s_putchar status 45 s else Inr s)"
    using s_putchar_agrees [OF assms, of s 45] by (auto intro: exI [of _ "polls s"])
  then show ?thesis unfolding eq by (rule agrees_append) (rule rest)
qed

text \<open>The same for a conversion, where also the arguments left agree.\<close>

definition conv_agrees :: "serial \<Rightarrow> kerror + u8 list \<times> u32 list \<Rightarrow> kerror + u32 list \<times> serial \<Rightarrow> bool" where
  "conv_agrees s w r \<longleftrightarrow> (case w of
     Inl e \<Rightarrow> r = Inl e
   | Inr (out, as) \<Rightarrow> \<exists>n. r = Inr (as, s\<lparr>polls := n, sent := sent s @ out\<rparr>))"

lemma conv_agrees_sent: "agrees s w r \<Longrightarrow> conv_agrees s (kbind w (\<lambda>out. Inr (out, as))) (kbind r (\<lambda>s1. Inr (as, s1)))"
  by (cases w) (auto simp: conv_agrees_def)

lemma s_conversion_agrees:
  assumes "live status"
  shows "conv_agrees s (conversion text_at c args) (s_conversion status text_at c args s)"
proof -
  note num = conv_agrees_sent [OF s_printnum_agrees [OF assms]]
  note puts = conv_agrees_sent [where w = "Inr out" for out, OF s_puts_agrees [OF assms], unfolded kbind.simps]
  note putc = conv_agrees_sent [where w = "Inr out" for out, OF s_putchar_agrees [OF assms], unfolded kbind.simps]
  have none: "conv_agrees s (Inr ([], as)) (Inr (as, s))" "conv_agrees s (Inl e) (Inl e)" for e as
    by (auto simp: conv_agrees_def intro: exI [of _ "polls s"])
  show ?thesis
    unfolding conversion_def s_conversion_def next_arg_def
    by (cases args) (simp_all add: num puts putc none)
qed

text \<open>C21: the two formatters of the kernel, \<open>vsprintf\<close> for the console and \<open>s_printk\<close> for the
  serial line, print the same. When the transmitter becomes empty again and again, \<open>s_printk\<close>
  returns and has sent exactly the characters \<open>vsprintf\<close> writes, in the same order, for any
  format and arguments; where \<open>vsprintf\<close> reads outside of \<open>digits\<close> or takes a missing argument,
  so does \<open>s_printk\<close>.\<close>

theorem s_printk_vsprintf:
  assumes "live status"
  shows "case vsprintf text_at fmt args of
    Inl e \<Rightarrow> s_printk status text_at fmt args s = Inl e
  | Inr out \<Rightarrow> \<exists>n. s_printk status text_at fmt args s = Inr (s\<lparr>polls := n, sent := sent s @ out\<rparr>)"
proof -
  have "agrees s (vsprintf text_at fmt args) (s_printk status text_at fmt args s)"
  proof (induction text_at fmt args arbitrary: s rule: vsprintf.induct)
    case (1 text_at args)
    show ?case by (auto intro: exI [of _ "polls s"])
  next
    case (2 text_at c args)
    show ?case using s_putchar_agrees [OF assms, of s c] by (auto intro: exI [of _ "polls s"])
  next
    case (3 text_at c c' fmt args)
    show ?case
    proof (cases "c = of_char CHR ''%''")
      case False
      with agrees_append [OF s_putchar_agrees [OF assms, of s c] 3(1) [OF False]] show ?thesis by simp
    next
      case True
      show ?thesis
      proof (cases "conversion text_at c' args")
        case (Inl e)
        with True s_conversion_agrees [OF assms, of s text_at c' args] show ?thesis by (simp add: conv_agrees_def)
      next
        case (Inr oa)
        obtain out as where oa: "oa = (out, as)" by (cases oa)
        obtain n where n: "s_conversion status text_at c' args s = Inr (as, s\<lparr>polls := n, sent := sent s @ out\<rparr>)"
          using s_conversion_agrees [OF assms, of s text_at c' args] Inr oa by (auto simp: conv_agrees_def)
        have "agrees s (kbind (vsprintf text_at fmt as) (\<lambda>rest. Inr (out @ rest)))
            (kbind (Inr (s\<lparr>polls := n, sent := sent s @ out\<rparr>)) (s_printk status text_at fmt as))"
          by (rule agrees_append) (use 3(2) True Inr oa in auto)
        with True Inr oa n show ?thesis by simp
      qed
    qed
  qed
  then show ?thesis by (simp add: agrees_def)
qed

theorem s_printk_vsprintf_witness:
  "\<exists>n. s_printk (\<lambda>n. if n mod 3 = 2 then 0x60 else 0) (\<lambda>_. [104, 105]) (map of_char ''%s %d'') [0, - 12] \<lparr>polls = 0, sent = [65]\<rparr> =
     Inr \<lparr>polls = n, sent = 65 # map of_char ''hi -12''\<rparr>"
proof -
  let ?st = "\<lambda>n :: nat. if n mod 3 = 2 then 0x60 else 0 :: u8"
  have "\<exists>m \<ge> n. m mod 3 = 2" for n :: nat by presburger
  then have "live ?st" by (auto simp: live_def is_transmit_empty_def)
  moreover have "vsprintf (\<lambda>_. [104, 105]) (map of_char ''%s %d'') [0, - 12] = Inr (map of_char ''hi -12'')"
    by code_simp
  ultimately show ?thesis
    using s_printk_vsprintf [of ?st "\<lambda>_. [104, 105]" "map of_char ''%s %d''" "[0, - 12]" "\<lparr>polls = 0, sent = [65]\<rparr>"] by simp
qed

end
