(* ===== verification/Signal_Return.thy ===== *)
theory Signal_Return
  imports Signal
begin

text \<open>
  The way back from a signal handler (kernel/libc_restore.s): a handler returns to the restorer
  of its action, which runs in user mode, takes the saved registers from the stack and
  returns to the interrupted code. The registers are those of \<open>frame\<close>; the stack is the task's
  data segment.
\<close>

section \<open>Operations\<close>

definition user_long :: "'a kern_scheme \<Rightarrow> u32 \<Rightarrow> u32" where
  "user_long s a = bytes_long (map (\<lambda>k. load_byte (data_base s + a + of_nat k) s) [0..<4])"

text \<open>The instruction \<open>ret\<close>.\<close>

definition user_ret :: "'a kern_scheme \<Rightarrow> frame \<Rightarrow> frame" where
  "user_ret s r = r\<lparr>f_eip := user_long s (f_esp r), f_esp := f_esp r + 4\<rparr>"

text \<open>The pops of \<open>eax\<close>, \<open>ecx\<close>, \<open>edx\<close> and the flags, and \<open>ret\<close>.\<close>

definition pop_context :: "'a kern_scheme \<Rightarrow> frame \<Rightarrow> frame" where
  "pop_context s r = user_ret s (r\<lparr>f_eax := user_long s (f_esp r), f_ecx := user_long s (f_esp r + 4),
     f_edx := user_long s (f_esp r + 8), f_eflags := user_long s (f_esp r + 12), f_esp := f_esp r + 16\<rparr>)"

definition sig_restore :: "'a kern_scheme \<Rightarrow> frame \<Rightarrow> frame" where
  "sig_restore s r = pop_context s (r\<lparr>f_esp := f_esp r + 4\<rparr>)"

definition masksig_restore :: "'a kern_scheme \<Rightarrow> frame \<Rightarrow> frame" where
  "masksig_restore s r = pop_context s (r\<lparr>f_esp := f_esp r + 4 + 4\<rparr>)"

section \<open>Reading the frame back\<close>

lemma nth_concat_longs:
  "i < length ws \<Longrightarrow> k < 4 \<Longrightarrow> concat (map long_bytes ws) ! (4 * i + k) = long_bytes (ws ! i) ! k"
proof (induction ws arbitrary: i)
  case (Cons w ws)
  show ?case
  proof (cases i)
    case 0
    then show ?thesis using Cons.prems(2) by (simp add: nth_append)
  next
    case (Suc j)
    then show ?thesis using Cons.IH [of j] Cons.prems by (simp add: nth_append)
  qed
qed simp

lemma user_long_frame:
  assumes "\<forall>k < 4 * length ws. load_byte (data_base s + esp + of_nat k) s = concat (map long_bytes ws) ! k" "i < length ws"
  shows "user_long s (esp + of_nat (4 * i)) = ws ! i"
proof -
  have "load_byte (data_base s + (esp + of_nat (4 * i)) + of_nat k) s = long_bytes (ws ! i) ! k" if "k < 4" for k
  proof -
    have "data_base s + (esp + of_nat (4 * i)) + of_nat k = data_base s + esp + of_nat (4 * i + k)" by simp
    moreover have "4 * i + k < 4 * length ws" using assms(2) that by linarith
    ultimately show ?thesis using assms(1) nth_concat_longs [OF assms(2) that] by (simp only:)
  qed
  then have "map (\<lambda>k. load_byte (data_base s + (esp + of_nat (4 * i)) + of_nat k) s) [0..<4] = map (\<lambda>k. long_bytes (ws ! i) ! k) [0..<4]"
    by (simp only: map_eq_conv set_upt) simp
  also have "\<dots> = long_bytes (ws ! i)" using map_nth [of "long_bytes (ws ! i)"] by (simp only: length_long_bytes)
  finally show ?thesis by (simp only: user_long_def bytes_long_long_bytes)
qed

text \<open>The words a restorer pops when the stack is \<open>ws\<close> from \<open>esp\<close> on.\<close>

lemma pop_context_frame:
  assumes "\<forall>k < 4 * length ws. load_byte (data_base s + esp + of_nat k) s = concat (map long_bytes ws) ! k"
    and "i + 5 \<le> length ws" and "f_esp r = esp + of_nat (4 * i)"
  shows "pop_context s r = r\<lparr>f_eax := ws ! i, f_ecx := ws ! (i + 1), f_edx := ws ! (i + 2), f_eflags := ws ! (i + 3),
    f_eip := ws ! (i + 4), f_esp := esp + of_nat (4 * i) + 20\<rparr>"
proof -
  have w: "user_long s (esp + of_nat (4 * i) + of_nat (4 * j)) = ws ! (i + j)" if "j < 5" for j
    using user_long_frame [OF assms(1), of "i + j"] assms(2) that by (simp add: algebra_simps)
  show ?thesis
    using w [of 0] w [of 1] w [of 2] w [of 3] w [of 4] by (simp add: pop_context_def user_ret_def assms(3))
qed

section \<open>Properties\<close>

text \<open>C14: a signal handler returns to the interrupted code. When a handler to which a signal was
  delivered ends with \<open>ret\<close>, its stack pointer and the frame on the stack as it found them, it
  comes to the restorer of its action; the restorer that fits the action
  (\<open>__sig_restore\<close> under \<open>SA_NOMASK\<close>, \<open>__masksig_restore\<close> otherwise) brings back \<open>eax\<close>,
  \<open>ecx\<close>, \<open>edx\<close>, the flags, the stack pointer and the instruction pointer the signal interrupted.
  With \<open>__sig_restore\<close> and no \<open>SA_NOMASK\<close>, as signal_demo.c sets it up, it goes on at the address
  that the flags make.\<close>

theorem signal_return:
  fixes s s' t :: "'a kern_scheme" and c c' h :: frame and n :: nat
  defines "me \<equiv> tstruct s (current s)"
  defines "sa \<equiv> sigactions me n"
  defines "words \<equiv> signal_frame sa (of_nat (n + 1)) (blocked me) c"
  defines "esp \<equiv> f_esp c - of_nat (4 * length words)"
  assumes "user_ok own s" and "page_aligned (data_base s)" and "4 \<le> dir_index (data_base s)"
    and "unat (data_base s) + unat esp + 32 \<le> 4294967296"
    and "current s \<noteq> task s 0" and "(ucast (f_cs c) :: u16) = 0x0f" and "(ucast (f_ss c) :: u16) = 0x17"
    and "n < 32" and "bit (signal me) n" and "\<not> bit (blocked me) n" and "\<forall>m < n. bit (signal me) m \<longrightarrow> bit (blocked me) m"
    and "sa_handler sa \<noteq> 0" and "sa_handler sa \<noteq> 1"
    and "ret_from_syscall c s = Inr (c', s')"
    and "data_base t = data_base s" and "f_esp h = f_esp c'"
    and "\<forall>k < 4 * length words. load_byte (data_base s + esp + of_nat k) t = load_byte (data_base s + esp + of_nat k) s'"
  defines "r \<equiv> user_ret t h"
  shows "f_eip c' = sa_handler sa \<and> f_eip r = sa_restorer sa \<and>
    (if sa_flags sa AND SA_NOMASK \<noteq> 0 then sig_restore t r else masksig_restore t r) =
      h\<lparr>f_eax := f_eax c, f_ecx := f_ecx c, f_edx := f_edx c, f_eflags := f_eflags c, f_eip := f_eip c, f_esp := f_esp c\<rparr> \<and>
    (sa_flags sa AND SA_NOMASK = 0 \<longrightarrow> f_eip (sig_restore t r) = f_eflags c)"
proof -
  note D = signal_delivery [OF assms(5-18) [unfolded assms(1-4)], folded assms(1), folded assms(2), folded assms(3), folded assms(4)]
  have c': "c' = c\<lparr>f_eip := sa_handler sa, f_esp := esp\<rparr>" using D by blast
  have m: "\<forall>k < 4 * length words. load_byte (data_base t + esp + of_nat k) t = concat (map long_bytes words) ! k"
    using D assms(21) by (simp add: assms(19) me_def)
  have h: "f_esp h = esp" by (simp add: assms(20) c')
  have len: "length words = (if sa_flags sa AND SA_NOMASK \<noteq> 0 then 7 else 8)" by (simp add: words_def signal_frame_def)
  have r: "r = h\<lparr>f_eip := sa_restorer sa, f_esp := esp + 4\<rparr>"
    using user_long_frame [OF m, of 0] len by (simp add: r_def user_ret_def h words_def signal_frame_def split: if_splits)
  show ?thesis
  proof (cases "sa_flags sa AND SA_NOMASK = 0")
    case True
    have w: "words = [sa_restorer sa, of_nat (n + 1), blocked me, f_eax c, f_ecx c, f_edx c, f_eflags c, f_eip c]"
      using True by (simp add: words_def signal_frame_def)
    have top: "32 + esp = f_esp c" by (simp add: esp_def w)
    have "masksig_restore t r = h\<lparr>f_eax := f_eax c, f_ecx := f_ecx c, f_edx := f_edx c, f_eflags := f_eflags c, f_eip := f_eip c, f_esp := f_esp c\<rparr>"
      using pop_context_frame [OF m, of 3 "r\<lparr>f_esp := f_esp r + 4 + 4\<rparr>"] top by (simp add: masksig_restore_def r w)
    moreover have "f_eip (sig_restore t r) = f_eflags c"
      using pop_context_frame [OF m, of 2 "r\<lparr>f_esp := f_esp r + 4\<rparr>"] by (simp add: sig_restore_def r w)
    ultimately show ?thesis using True by (simp add: c' r)
  next
    case False
    have w: "words = [sa_restorer sa, of_nat (n + 1), f_eax c, f_ecx c, f_edx c, f_eflags c, f_eip c]"
      using False by (simp add: words_def signal_frame_def)
    have top: "28 + esp = f_esp c" by (simp add: esp_def w)
    have "sig_restore t r = h\<lparr>f_eax := f_eax c, f_ecx := f_ecx c, f_edx := f_edx c, f_eflags := f_eflags c, f_eip := f_eip c, f_esp := f_esp c\<rparr>"
      using pop_context_frame [OF m, of 2 "r\<lparr>f_esp := f_esp r + 4\<rparr>"] top by (simp add: sig_restore_def r w)
    then show ?thesis using False by (simp add: c' r)
  qed
qed

theorem signal_return_witness:
  "\<exists>s'. ret_from_syscall user_frame signal_kern = Inr (user_frame\<lparr>f_eip := 0x500, f_esp := 0x20e0\<rparr>, s') \<and>
     masksig_restore s' (user_ret s' (user_frame\<lparr>f_eip := 0x510, f_esp := 0x20e0, f_eax := 0\<rparr>)) = user_frame"
proof -
  note sk = signal_kern_simps
  obtain s' where s': "ret_from_syscall user_frame signal_kern = Inr (user_frame\<lparr>f_eip := 0x500, f_esp := 0x20e0\<rparr>, s')"
    using signal_kern_returns [of signal_kern user_frame] by (auto simp: user_frame_def)
  have "masksig_restore s' (user_ret s' (user_frame\<lparr>f_eip := 0x510, f_esp := 0x20e0, f_eax := 0\<rparr>)) = user_frame"
  proof -
    let ?sa = "\<lparr>sa_handler = 0x500, sa_mask = 0x200, sa_flags = 0x80000000, sa_restorer = 0x600\<rparr>"
    have fl: "(0x80000000 :: u32) AND SA_NOMASK = 0" by (simp add: SA_NOMASK_def)
    have f: "signal_frame ?sa 10 0 user_frame = [0x600, 10, 0, 1, 3, 4, 0x202, 0x123]"
      using fl by (simp add: signal_frame_def user_frame_def)
    let ?me = "tstruct signal_kern (current signal_kern)"
    have sa: "sigactions ?me 9 = ?sa" "blocked ?me = 0" "of_nat (9 + 1) = (10 :: u32)" by (simp_all add: sk)
    have esp: "f_esp user_frame - of_nat (4 * length [0x600 :: u32, 10, 0, 1, 3, 4, 0x202, 0x123]) = 0x20e0"
      by (simp add: user_frame_def)
    note D = signal_delivery [where s = signal_kern and c = user_frame and n = 9, OF signal_kern_ok _ _ _ _ _ _ _ _ _ _ _ _ s',
      unfolded sa f esp sk(3)]
    have db: "data_base s' = data_base signal_kern"
    proof -
      have c: "current s' = current signal_kern"
        by (rule D [THEN conjunct2, THEN conjunct2, THEN conjunct2, THEN conjunct2, THEN conjunct2, THEN conjunct1])
          (use bit_0x200 in \<open>simp_all add: sk sharers_kern_simps dir_index_def user_frame_def\<close>)
      have "ldt (tstruct s' (current signal_kern)) = ldt ?me"
        by (subst D [THEN conjunct2, THEN conjunct2, THEN conjunct2, THEN conjunct2, THEN conjunct1])
          (use bit_0x200 in \<open>simp_all add: sk sharers_kern_simps dir_index_def user_frame_def\<close>)
      then show ?thesis unfolding c by simp
    qed
    note R = signal_return [where s = signal_kern and c = user_frame and n = 9 and t = s' and
      h = "user_frame\<lparr>f_eip := 0x510, f_esp := 0x20e0, f_eax := 0\<rparr>", OF signal_kern_ok _ _ _ _ _ _ _ _ _ _ _ _ s' db,
      unfolded sa f esp sk(3)]
    have "(if sa_flags ?sa AND SA_NOMASK \<noteq> 0 then sig_restore s' (user_ret s' (user_frame\<lparr>f_eip := 0x510, f_esp := 0x20e0, f_eax := 0\<rparr>))
      else masksig_restore s' (user_ret s' (user_frame\<lparr>f_eip := 0x510, f_esp := 0x20e0, f_eax := 0\<rparr>))) =
      user_frame\<lparr>f_eip := 0x510, f_esp := 0x20e0, f_eax := 0\<rparr>\<lparr>f_eax := f_eax user_frame, f_ecx := f_ecx user_frame, f_edx := f_edx user_frame,
        f_eflags := f_eflags user_frame, f_eip := f_eip user_frame, f_esp := f_esp user_frame\<rparr>"
      by (rule R [THEN conjunct2, THEN conjunct2, THEN conjunct1])
        (use bit_0x200 in \<open>simp_all add: sk sharers_kern_simps dir_index_def user_frame_def\<close>)
    then show ?thesis using fl by (simp add: user_frame_def)
  qed
  with s' show ?thesis by blast
qed

end
