(* ===== verification/Tty_Shared.thy ===== *)
theory Tty_Shared
  imports Tty_Io
begin

text \<open>
  What \<open>tty_read\<close> does to pages that are shared. It stores through \<open>fs\<close> without \<open>verify_area\<close>, and
  a store of the kernel is not stopped by a read-only page, as the processor's write protection
  (CR0.WP) is off.
\<close>

section \<open>The rest of the line\<close>

lemma read_rest:
  fixes s :: "'a tty_kern_scheme"
  assumes "queue_ok (buffer s)" and "chars (buffer s) = cs" and "length tmp + length cs \<le> 1023"
    and "\<exists>ch \<in> set cs. ch = 10 \<or> ch = -1"
  shows "\<exists>q. after_line others (read_line others p len 0 tmp s) = Some (Inr (len, s\<lparr>buffer := q\<rparr>)) \<and>
    queue_ok q \<and> chars q = tmp @ cs"
  using assms
proof (induction cs arbitrary: tmp s)
  case (Cons ch cs)
  obtain q where q: "tty_pop_q others Buffer s = Inr (ch, s\<lparr>buffer := q\<rparr>)" "queue_ok q" "chars q = cs"
    using pop_char [of Buffer s ch cs] Cons.prems(1,2) by auto
  have np: "(0 :: u32) \<le>s 0" by simp
  show ?case
  proof (cases "ch = 10 \<or> ch = -1")
    case True
    let ?q = "fold (\<lambda>x q. snd (tty_push_q_front q x)) (rev (tmp @ [ch])) q"
    have "read_line others p len 0 tmp s = Some (Inr (p, len, 0, tmp @ [ch], s\<lparr>buffer := ?q\<rparr>))"
      using True Cons.prems(3) by (subst read_line.simps) (simp add: q(1) fold_push_front push_q_front_def Let_def)
    then have "after_line others (read_line others p len 0 tmp s) = Some (Inr (len, s\<lparr>buffer := ?q\<rparr>))"
      by (simp add: after_line_def)
    moreover have "queue_ok ?q \<and> chars ?q = (tmp @ [ch]) @ cs"
      using ring.push_back [OF q(2), of "tmp @ [ch]"] q(3) Cons.prems(3) by simp
    ultimately show ?thesis by fastforce
  next
    case False
    have "read_line others p len 0 tmp s = read_line others p len 0 (tmp @ [ch]) (s\<lparr>buffer := q\<rparr>)"
      using False Cons.prems(3) by (subst read_line.simps) (simp add: q(1) Let_def)
    moreover obtain q' where "after_line others (read_line others p len 0 (tmp @ [ch]) (s\<lparr>buffer := q\<rparr>)) =
        Some (Inr (len, s\<lparr>buffer := q\<rparr>\<lparr>buffer := q'\<rparr>))" "queue_ok q'" "chars q' = (tmp @ [ch]) @ cs"
      using Cons.IH [of "s\<lparr>buffer := q\<rparr>" "tmp @ [ch]"] Cons.prems(3,4) q(2,3) False by auto
    ultimately show ?thesis by fastforce
  qed
qed simp

text \<open>A store outside of the directory and the page tables.\<close>

lemma walk_store:
  fixes s :: "'a mm_scheme"
  assumes "page_of a \<noteq> 0" and "tables s (page_of a) = {}"
  shows "walk (store a v s) = walk s"
proof -
  have "slot 0 d \<noteq> a" if "d < 1024" for d
  proof
    assume "slot 0 d = a"
    then have "page_of a = 0" using that page_of_slot [of 0 d] by auto
    with assms(1) show False by simp
  qed
  then have d: "dirent (store a v s) d = dirent s d" if "d < 1024" for d using that by (simp add: dirent_def)
  note dd = same_dirent [OF d]
  have "entry (store a v s) d t = entry s d t" if "d < 1024" "t < 1024" for d t
  proof (cases "dir_present s d")
    case True
    then have "d \<notin> tables s (page_of a)" using assms(2) by simp
    then have "table s d \<noteq> page_of a" using True that(1) by (simp add: tables_def)
    then have "slot (table s d) t \<noteq> a" using page_of_slot [OF table_aligned that(2), of s d] by metis
    then show ?thesis using dd [OF that(1)] by (simp add: entry_def)
  next
    case False
    then show ?thesis using dd [OF that(1)] by (simp add: entry_def)
  qed
  then show ?thesis by (simp add: walk_def fun_eq_iff)
qed

section \<open>Properties\<close>

text \<open>C20: \<open>tty_read\<close> writes through shared pages. When a task reads one character of a line that
  was typed, the kernel stores it in the frame the task's page is mapped to, whether the page
  can be written or not and whoever else uses the frame: every address of every task that
  maps the frame at the same offset reads the new character afterwards. If the frame is frame 0,
  as in the address space the first fork makes from that of task 0, the character goes into an
  entry of the page directory.\<close>

theorem tty_read_writes_shared:
  fixes s :: "'a tty_kern_scheme" and dst :: u32
  defines "x \<equiv> data_base s + dst"
  assumes "queue_ok (buffer s)" and "chars (buffer s) = ch # cs" and "\<exists>c \<in> set (ch # cs). c = 10 \<or> c = -1"
    and "unat dst < unat (get_limit (ldt (tstruct s (current s)) 2) - 1) + 1"
    and "walk s x = Some e"
  shows "\<exists>s'. tty_read others channel dst 1 s = Inr (1, s') \<and> chars (buffer s') = cs \<and>
    phys s' = (phys s)(word_of e x := put_byte (phys s (word_of e x)) (byte_of x) ch) \<and>
    (page_of e \<noteq> 0 \<and> tables s (page_of e) = {} \<longrightarrow>
      (\<forall>y f. walk s y = Some f \<and> page_of f = page_of e \<and> unat y mod 4096 = unat x mod 4096 \<longrightarrow> load_byte y s' = ch)) \<and>
    (page_of e = 0 \<longrightarrow>
      dirent s' (unat x mod 4096 div 4) = put_byte (dirent s (unat x mod 4096 div 4)) (byte_of x) ch)"
proof -
  obtain q where q: "tty_pop_q others Buffer s = Inr (ch, s\<lparr>buffer := q\<rparr>)" "queue_ok q" "chars q = cs"
    using pop_char [of Buffer s ch cs] assms(2,3) by auto
  let ?a = "word_of e x" and ?s = "s\<lparr>buffer := q\<rparr>"
  let ?v = "put_byte (phys s ?a) (byte_of x) ch"
  have w: "walk ?s x = Some e" using assms(6) by simp
  have p: "put_fs_byte ch dst ?s = Inr (store ?a ?v ?s)"
    using w assms(5) by (simp add: put_fs_byte_def fs_linear_def touch_def Let_def store_byte_def x_def)
  have sb: "store ?a ?v ?s = (store ?a ?v s)\<lparr>buffer := q\<rparr>" by (simp add: store_def)
  have one: "\<not> (1 :: u32) \<le>s 0" by (simp add: word_sle_eq)
  have "length (ch # cs) \<le> 1023" using ring.bounded [OF assms(2)] assms(3) by simp
  then obtain q' where r: "after_line others (read_line others dst 0 1 [] s) = Some (Inr (1, (store ?a ?v s)\<lparr>buffer := q'\<rparr>))"
    "chars q' = cs"
  proof (cases "ch = 10 \<or> ch = -1")
    case True
    then have "read_line others dst 0 1 [] s = Some (Inr (dst + 1, 1, 0, [], (store ?a ?v s)\<lparr>buffer := q\<rparr>))"
      by (subst read_line.simps) (simp add: q(1) p sb one Let_def)
    then show ?thesis using that [of q] q(3) by (simp add: after_line_def)
  next
    case False
    then have "read_line others dst 0 1 [] s = read_line others (dst + 1) 1 0 [] ((store ?a ?v s)\<lparr>buffer := q\<rparr>)"
      by (subst read_line.simps) (simp add: q(1) p sb one Let_def)
    moreover obtain q' where "after_line others (read_line others (dst + 1) 1 0 [] ((store ?a ?v s)\<lparr>buffer := q\<rparr>)) =
        Some (Inr (1, (store ?a ?v s)\<lparr>buffer := q\<rparr>\<lparr>buffer := q'\<rparr>))" "chars q' = [] @ cs"
      using read_rest [of "(store ?a ?v s)\<lparr>buffer := q\<rparr>" cs "[]" others "dst + 1" 1] q(2,3) assms(4) False
        ring.bounded [OF q(2)] by auto
    ultimately show ?thesis using that [of q'] by simp
  qed
  let ?s' = "(store ?a ?v s)\<lparr>buffer := q'\<rparr>"
  have "tty_read others channel dst 1 s = Inr (1, ?s')"
    using r(1) by (simp add: tty_read_def read_lines_after word_sless_alt)
  moreover have "load_byte y ?s' = ch"
    if n: "page_of e \<noteq> 0" "tables s (page_of e) = {}" and y: "walk s y = Some f" "page_of f = page_of e" "unat y mod 4096 = unat x mod 4096" for y f
  proof -
    have wo: "word_of f y = ?a" using y(2,3) by (simp add: word_of_def)
    have "walk (store ?a ?v s) = walk s" by (rule walk_store) (use n in simp_all)
    moreover have "byte_of y = byte_of x"
    proof -
      have "unat z mod 4 = unat z mod 4096 mod 4" for z :: u32 by (simp add: mod_mod_cancel)
      then show ?thesis using y(3) by (simp only: byte_of_def)
    qed
    ultimately show ?thesis using y(1) wo by (simp add: load_byte_def get_put_byte)
  qed
  moreover have "dirent ?s' (unat x mod 4096 div 4) = put_byte (dirent s (unat x mod 4096 div 4)) (byte_of x) ch" if "page_of e = 0"
    using that by (simp add: dirent_def word_of_def)
  ultimately show ?thesis using r(2) by (intro exI [of _ ?s']) simp
qed

theorem tty_read_writes_shared_witness:
  "\<exists>s'. load_byte 0x4001000 (terminal [120, 10] no_keys) = 42 \<and>
     tty_read Inr 0 0 1 (terminal [120, 10] no_keys) = Inr (1, s') \<and> load_byte 0x4001000 s' = 120"
proof -
  let ?s = "terminal [120, 10] no_keys"
  have w: "walk ?s 0x4000000 = Some 0xf00005" "walk ?s 0x4001000 = Some 0xf00005"
    by (simp_all add: terminal_mem(5) signal_kern_simps walk_two_sharers)
  have q: "queue_ok (buffer ?s)" "chars (buffer ?s) = [120, 10]" by (simp_all add: queue_of_ok)
  show ?thesis
  proof -
    have db: "data_base ?s + 0 = 0x4000000" by (simp add: signal_kern_simps)
    have a: "\<exists>c \<in> set [120, 10 :: u8]. c = 10 \<or> c = -1" by simp
    have tb: "tables ?s = tables two_sharers" 
    proof -
      have m: "HIGH_MEMORY ?s = HIGH_MEMORY two_sharers" "mem_map ?s = mem_map two_sharers" "phys ?s = phys two_sharers"
        by (simp_all add: signal_kern_def sharers_kern_mm)
      show ?thesis by (simp add: tables_def mm_cong(4,5) [OF m] fun_eq_iff)
    qed
    have l: "unat (0 :: u32) < unat (get_limit (ldt (tstruct ?s (current ?s)) 2) - 1) + 1" by simp
    obtain s' where s': "tty_read Inr 0 0 1 ?s = Inr (1, s')"
      "page_of (0xf00005 :: u32) \<noteq> 0 \<and> tables ?s (page_of 0xf00005) = {} \<longrightarrow>
        (\<forall>y f. walk ?s y = Some f \<and> page_of f = page_of 0xf00005 \<and> unat y mod 4096 = unat (0x4000000 :: u32) mod 4096 \<longrightarrow> load_byte y s' = 120)"
      using tty_read_writes_shared [OF q a l, of "0xf00005" Inr 0, unfolded db, OF w(1)] by blast
    have "load_byte 0x4001000 s' = 120" using s'(2) [THEN mp, THEN spec [of _ "0x4001000"], THEN spec [of _ "0xf00005"]] w(2)
        by (simp add: tb tables_two_sharers shared_frame(2))
    moreover have "load_byte 0x4001000 ?s = 42"
      by (simp add: load_byte_def w get_byte_def word_of_def byte_of_def signal_kern_def sharers_kern_mm two_sharers_def)
    ultimately show ?thesis using s'(1) by blast
  qed
qed

end
