(* ===== verification/User_Lib.thy ===== *)
theory User_Lib
  imports Syscalls Isolation
begin

text \<open>
  The user's side: the stubs around \<open>int 0x80\<close> (the \<open>_syscall\<close> macros of include/unistd.h and their uses
  in init/main.c, kernel/signal_demo.c and kernel/chr_drv/tty_read.c), lib/printf.c and lib/getline.c.
  They run in user mode: their memory is the task's data segment, and a store runs the page-fault
  handler when it has to.
\<close>

section \<open>A program and its system calls\<close>

text \<open>What the code here does not say is a parameter: what the other tasks do, the program's handlers
  of signals (from the entry of a handler until the interrupted code goes on), and the registers
  of the program at its calls.\<close>

record 'a program =
  others_of :: "'a tty_kern_ext env"
  handlers :: "frame \<Rightarrow> 'a tty_kern_scheme \<Rightarrow> kerror + frame \<times> 'a tty_kern_scheme"
  regs :: cpu
  at_call :: frame

definition int80 :: "'a program \<Rightarrow> frame \<Rightarrow> 'a tty_kern_scheme \<Rightarrow> kerror + u32 \<times> 'a tty_kern_scheme" where
  "int80 u c s =
     kbind (system_call (others_of u) (regs u) c s) (\<lambda>(c1, s1).
       if f_eip c1 = f_eip c then Inr (f_eax c1, s1)
       else kbind (handlers u c1 s1) (\<lambda>(c2, s2). Inr (f_eax c2, s2)))"

text \<open>A negative result is \<open>-1\<close> to the program; the assignment to \<open>errno\<close> is commented out.\<close>

definition syscall_value :: "u32 \<Rightarrow> u32" where
  "syscall_value res = (if 0 \<le>s res then res else -1)"

definition syscall0 :: "'a program \<Rightarrow> u32 \<Rightarrow> 'a tty_kern_scheme \<Rightarrow> kerror + u32 \<times> 'a tty_kern_scheme" where
  "syscall0 u nr s = kbind (int80 u ((at_call u)\<lparr>f_eax := nr\<rparr>) s) (\<lambda>(res, s1). Inr (syscall_value res, s1))"

definition syscall1 :: "'a program \<Rightarrow> u32 \<Rightarrow> u32 \<Rightarrow> 'a tty_kern_scheme \<Rightarrow> kerror + u32 \<times> 'a tty_kern_scheme" where
  "syscall1 u nr a s = kbind (int80 u ((at_call u)\<lparr>f_eax := nr, f_ebx := a\<rparr>) s) (\<lambda>(res, s1). Inr (syscall_value res, s1))"

definition syscall2 :: "'a program \<Rightarrow> u32 \<Rightarrow> u32 \<Rightarrow> u32 \<Rightarrow> 'a tty_kern_scheme \<Rightarrow> kerror + u32 \<times> 'a tty_kern_scheme" where
  "syscall2 u nr a b s =
     kbind (int80 u ((at_call u)\<lparr>f_eax := nr, f_ebx := a, f_ecx := b\<rparr>) s) (\<lambda>(res, s1). Inr (syscall_value res, s1))"

definition syscall3 :: "'a program \<Rightarrow> u32 \<Rightarrow> u32 \<Rightarrow> u32 \<Rightarrow> u32 \<Rightarrow> 'a tty_kern_scheme \<Rightarrow> kerror + u32 \<times> 'a tty_kern_scheme" where
  "syscall3 u nr a b c s =
     kbind (int80 u ((at_call u)\<lparr>f_eax := nr, f_ebx := a, f_ecx := b, f_edx := c\<rparr>) s)
       (\<lambda>(res, s1). Inr (syscall_value res, s1))"

definition fork_stub :: "'a program \<Rightarrow> 'a tty_kern_scheme \<Rightarrow> kerror + u32 \<times> 'a tty_kern_scheme" where
  "fork_stub u = syscall0 u NR_fork"

definition sleep_stub :: "'a program \<Rightarrow> u32 \<Rightarrow> 'a tty_kern_scheme \<Rightarrow> kerror + u32 \<times> 'a tty_kern_scheme" where
  "sleep_stub u = syscall1 u NR_sleep"

definition sys_debug_stub :: "'a program \<Rightarrow> u32 \<Rightarrow> 'a tty_kern_scheme \<Rightarrow> kerror + u32 \<times> 'a tty_kern_scheme" where
  "sys_debug_stub u = syscall1 u NR_sys_debug"

text \<open>\<open>pause\<close> is written out in init/main.c.\<close>

definition pause_stub :: "'a program \<Rightarrow> 'a tty_kern_scheme \<Rightarrow> kerror + u32 \<times> 'a tty_kern_scheme" where
  "pause_stub u s = kbind (int80 u ((at_call u)\<lparr>f_eax := NR_pause\<rparr>) s) (\<lambda>(res, s1).
     if 0 \<le>s res then Inr (res, s1) else Inr (-1, s1))"

definition kill_stub :: "'a program \<Rightarrow> u32 \<Rightarrow> u32 \<Rightarrow> 'a tty_kern_scheme \<Rightarrow> kerror + u32 \<times> 'a tty_kern_scheme" where
  "kill_stub u = syscall2 u NR_kill"

definition sigaction_stub :: "'a program \<Rightarrow> u32 \<Rightarrow> u32 \<Rightarrow> u32 \<Rightarrow> 'a tty_kern_scheme \<Rightarrow> kerror + u32 \<times> 'a tty_kern_scheme" where
  "sigaction_stub u = syscall3 u NR_sigaction"

definition user_tty_read_stub :: "'a program \<Rightarrow> u32 \<Rightarrow> u32 \<Rightarrow> u32 \<Rightarrow> 'a tty_kern_scheme \<Rightarrow> kerror + u32 \<times> 'a tty_kern_scheme" where
  "user_tty_read_stub u = syscall3 u NR_user_tty_read"

definition user_tty_write_stub :: "'a program \<Rightarrow> u32 \<Rightarrow> u32 \<Rightarrow> u32 \<Rightarrow> 'a tty_kern_scheme \<Rightarrow> kerror + u32 \<times> 'a tty_kern_scheme" where
  "user_tty_write_stub u = syscall3 u NR_user_tty_write"

section \<open>Memory in user mode\<close>

definition load_user :: "u32 \<Rightarrow> 'a kern_scheme \<Rightarrow> kerror + u8 \<times> 'a kern_scheme" where
  "load_user a s = kbind (fs_linear a 1 s) (\<lambda>x. kbind (touch 4 x s) (\<lambda>s1. Inr (load_byte x s1, s1)))"

definition store_user :: "u8 \<Rightarrow> u32 \<Rightarrow> 'a kern_scheme \<Rightarrow> kerror + 'a kern_scheme" where
  "store_user v a s = kbind (fs_linear a 1 s) (\<lambda>x. user_store x v s)"

fun store_users :: "u8 list \<Rightarrow> u32 \<Rightarrow> 'a kern_scheme \<Rightarrow> kerror + 'a kern_scheme" where
  "store_users [] a s = Inr s"
| "store_users (b # bs) a s = kbind (store_user b a s) (store_users bs (a + 1))"

section \<open>lib/printf.c\<close>

text \<open>The text is built in \<open>buf\<close>, 1024 bytes on the stack of the program which are cleared before (twice,
  by the initialiser and by a loop); a longer text overwrites the stack behind them.\<close>

definition user_printf :: "'a program \<Rightarrow> (u32 \<Rightarrow> u8 list) \<Rightarrow> u32 \<Rightarrow> u8 list \<Rightarrow> u32 list \<Rightarrow> 'a tty_kern_scheme \<Rightarrow>
    kerror + u32 \<times> 'a tty_kern_scheme" where
  "user_printf u text_at dst fmt args s =
     kbind (store_users (replicate 1024 0) dst s) (\<lambda>s1.
     kbind (vsprintf text_at fmt args) (\<lambda>out.
       if 1024 < length out \<or> (length out = 1024 \<and> 0 \<notin> set out) then Inl Out_of_bounds
       else kbind (store_users out dst s1) (\<lambda>s2.
         user_tty_write_stub u 0 dst (of_nat (length (takeWhile (\<lambda>c. c \<noteq> 0) (out @ [0])))) s2)))"

section \<open>lib/getline.c\<close>

text \<open>\<open>b\<close> is the address of the local buffer \<open>_buf\<close>.\<close>

definition getchar :: "'a program \<Rightarrow> u32 \<Rightarrow> 'a tty_kern_scheme \<Rightarrow> kerror + u8 \<times> 'a tty_kern_scheme" where
  "getchar u b s = kbind (user_tty_read_stub u 0 b 1 s) (\<lambda>(n, s1). load_user b s1)"

definition getline_step :: "'a program \<Rightarrow> u32 \<Rightarrow> u32 \<Rightarrow> 'a tty_kern_scheme \<Rightarrow> kerror + u8 \<times> 'a tty_kern_scheme" where
  "getline_step u b p s =
     kbind (user_tty_read_stub u 0 b 1 s) (\<lambda>(n, s1).
     kbind (load_user b s1) (\<lambda>(ch, s2).
     kbind (store_user ch p s2) (\<lambda>s3. Inr (ch, s3))))"

partial_function (option) getline_loop :: "'a program \<Rightarrow> u32 \<Rightarrow> u8 \<Rightarrow> u32 \<Rightarrow> u32 \<Rightarrow> 'a tty_kern_scheme \<Rightarrow>
    (kerror + u32 \<times> u32 \<times> 'a tty_kern_scheme) option" where
  "getline_loop u b ch p len s =
     (if ch = 10 \<or> ch = -1 then Some (Inr (p, len, s))
      else let r = getline_step u b p s in
        if isl r then Some (Inl (projl r))
        else getline_loop u b (fst (projr r)) (p + 1) (len + 1) (snd (projr r)))"

text \<open>\<open>ch0\<close> is what \<open>ch\<close> holds before it is assigned.\<close>

definition getline :: "'a program \<Rightarrow> u32 \<Rightarrow> u8 \<Rightarrow> u32 \<Rightarrow> 'a tty_kern_scheme \<Rightarrow> kerror + u32 \<times> 'a tty_kern_scheme" where
  "getline u b ch0 str s =
     (case getline_loop u b ch0 str 0 s of
        None \<Rightarrow> Inl Hang
      | Some r \<Rightarrow> kbind r (\<lambda>(p, len, s1). kbind (store_user 0 (p - 1) s1) (\<lambda>s2. Inr (len - 1, s2))))"

text \<open>The hand-written \<open>pause\<close> is what the macro would give.\<close>

lemma pause_stub_syscall0: "pause_stub u = syscall0 u NR_pause"
  by (rule ext) (auto simp: pause_stub_def syscall0_def syscall_value_def intro!: arg_cong2 [where f = kbind])

section \<open>A call that comes straight back\<close>

text \<open>A task that runs, has time left and has no signal to take.\<close>

definition quiet :: "'a kern_scheme \<Rightarrow> bool" where
  "quiet s \<longleftrightarrow> (let me = tstruct s (current s) in state me = 0 \<and> counter me \<noteq> 0 \<and> NOT (blocked me) AND signal me = 0)"

lemma quiet_cong: "tstruct s' = tstruct s \<Longrightarrow> current s' = current s \<Longrightarrow> quiet s' = quiet s"
  by (simp add: quiet_def)

lemma int80_quiet:
  assumes "call_function (others_of u) (regs u) (sys_call_table ! unat (f_eax c)) c s = Inr (v, s')"
    and "unat (f_eax c) < nr_system_calls" "quiet s'"
  shows "int80 u c s = Inr (v, s')"
proof -
  have "reschedule (others_of u) s' = Inr s'" using assms(3) by (simp add: reschedule_def quiet_def Let_def)
  moreover have "ret_from_syscall (c\<lparr>f_eax := v\<rparr>) s' = Inr (c\<lparr>f_eax := v\<rparr>, s')"
    using assms(3) bsf_None [of 0] by (simp add: ret_from_syscall_def quiet_def Let_def)
  moreover have "\<not> nr_system_calls - 1 < unat (f_eax c)" using assms(2) by simp
  ultimately show ?thesis using assms(1) by (simp add: int80_def system_call_def)
qed

section \<open>Stores in user mode\<close>

lemma writable_private:
  assumes "user_ok own s" "writable_page s x"
  shows "private_page s x" "walk s x \<noteq> None" "user_page s x"
proof -
  show p: "private_page s x" using assms by (auto simp: user_ok_def writable_page_def private_page_def)
  show w: "walk s x \<noteq> None" using assms(2) by (auto simp: writable_page_def)
  show "user_page s x" by (rule private_user_page [OF user_okD(1) [OF assms(1)] p])
qed

abbreviation data_size :: "'a kern_scheme \<Rightarrow> nat" where
  "data_size s \<equiv> unat (get_limit (ldt (tstruct s (current s)) 2) - 1) + 1"

lemma fs_linear_in: "unat a + n \<le> data_size s \<Longrightarrow> fs_linear a n s = Inr (data_base s + a)"
  by (simp add: fs_linear_def Let_def)

lemma store_user_writes:
  fixes s :: "'a kern_scheme"
  assumes "user_ok own s" "writable_page s (data_base s + a)" "unat a < data_size s"
  obtains s' where "store_user v a s = Inr s'" "writes own s ((\<lambda>y. load_byte y s)(data_base s + a := v)) s'"
proof -
  note p = writable_private [OF assms(1,2)]
  have "user_store (data_base s + a) v s = Inr (store_byte (data_base s + a) v s)"
    using assms(2) by (auto simp: user_store_def writable_page_def)
  then have "store_user v a s = Inr (store_byte (data_base s + a) v s)"
    using assms(3) fs_linear_in [of a 1 s] by (simp add: store_user_def)
  then show thesis using that store_byte_writes [OF assms(1) p(1,2)] by blast
qed

text \<open>What a step that only writes leaves alone.\<close>

lemma writes_kern:
  fixes s s' :: "'a kern_scheme"
  assumes "writes own s f s'"
  shows "tstruct s' = tstruct s" "current s' = current s" "data_base s' = data_base s" "data_size s' = data_size s" "quiet s' = quiet s"
  using kern_rest(3,4) [OF writesD(2) [OF assms]] by (simp_all add: quiet_def)

lemma store_users_writes:
  fixes s :: "'a kern_scheme"
  assumes "user_ok own s" "\<And>k. k < length bs \<Longrightarrow> writable_page s (data_base s + a + of_nat k)" "unat a + length bs \<le> data_size s"
  shows "\<exists>s'. store_users bs a s = Inr s' \<and> writes own s (write_bytes (data_base s + a) bs (\<lambda>y. load_byte y s)) s'"
  using assms
proof (induction bs arbitrary: a s)
  case Nil
  then show ?case by (simp add: writes_refl)
next
  case (Cons b bs)
  have a0: "writable_page s (data_base s + a)" "unat a < data_size s" using Cons.prems(2) [of 0] Cons.prems(3) by simp_all
  obtain s1 where s1: "store_user b a s = Inr s1" "writes own s ((\<lambda>y. load_byte y s)(data_base s + a := b)) s1"
    by (rule store_user_writes [OF Cons.prems(1) a0])
  note w = writesD [OF s1(2)] and k = writes_kern [OF s1(2)]
  have "writable_page s1 (data_base s1 + (a + 1) + of_nat j)" if "j < length bs" for j
    using w(7) [OF Cons.prems(2) [of "Suc j"]] that by (simp add: k(3) algebra_simps)
  moreover have "unat (a + 1) \<le> unat a + 1" by (simp add: unat_word_ariths)
  then have "unat (a + 1) + length bs \<le> data_size s1" using Cons.prems(3) by (simp add: k(1,2))
  ultimately obtain s' where s': "store_users bs (a + 1) s1 = Inr s'"
    "writes own s1 (write_bytes (data_base s1 + (a + 1)) bs (\<lambda>y. load_byte y s1)) s'"
    using Cons.IH [OF w(1), of "a + 1"] by blast
  have "writes own s (write_bytes (data_base s + a) (b # bs) (\<lambda>y. load_byte y s)) s'"
    by (rule writes_trans [OF s1(2) s'(2)]) (simp add: k(3) add.assoc, rule write_bytes_cong, simp add: w(5))
  then show ?case using s1(1) s'(1) by simp
qed

section \<open>Printing\<close>

lemma syscall_value_small: "unat v < 2147483648 \<Longrightarrow> syscall_value v = v"
  using negative_word [of v] by (simp add: syscall_value_def word_sle_eq word_sless_alt)

lemma write_bytes_upd:
  "(\<And>k. k < length bs \<Longrightarrow> z \<noteq> x + of_nat k) \<Longrightarrow> (write_bytes x bs m)(z := v) = write_bytes x bs (m(z := v))"
proof (induction bs arbitrary: x m)
  case (Cons b bs)
  have "z \<noteq> x" "\<And>k. k < length bs \<Longrightarrow> z \<noteq> x + 1 + of_nat k" using Cons.prems [of 0] Cons.prems [of "Suc k" for k] by (auto simp: algebra_simps)
  then have "(write_bytes (x + 1) bs (m(x := b)))(z := v) = write_bytes (x + 1) bs (m(x := b, z := v))" "m(x := b, z := v) = m(z := v, x := b)"
    by (intro Cons.IH, blast, intro fun_upd_twist, simp)
  then show ?case by (simp only: write_bytes.simps)
qed simp

text \<open>A text over a longer run of one byte.\<close>

lemma write_bytes_over:
  "length out \<le> n \<Longrightarrow> n < 4294967296 \<Longrightarrow>
     write_bytes x out (write_bytes x (replicate n c) m) = write_bytes x (out @ replicate (n - length out) c) m"
proof (induction out arbitrary: x n m)
  case (Cons b out)
  then obtain k where n: "n = Suc k" by (cases n) auto
  have "x \<noteq> x + 1 + of_nat j" if "j < k" for j
  proof
    assume "x = x + 1 + of_nat j"
    then have "of_nat (Suc j) = (0 :: u32)" by (simp add: algebra_simps)
    then have "unat (of_nat (Suc j) :: u32) = 0" by simp
    then show False using that Cons.prems(2) n by (simp add: unat_of_nat_u32 del: of_nat_Suc)
  qed
  then have "(write_bytes (x + 1) (replicate k c) (m(x := c)))(x := b) = write_bytes (x + 1) (replicate k c) (m(x := b))"
    by (subst write_bytes_upd) simp_all
  moreover have "write_bytes (x + 1) out (write_bytes (x + 1) (replicate k c) (m(x := b))) =
      write_bytes (x + 1) (out @ replicate (k - length out) c) (m(x := b))"
    using Cons.IH [of k] Cons.prems n by simp
  ultimately show ?case by (simp only: n write_bytes.simps replicate_Suc append_Cons length_Cons diff_Suc_Suc)
qed simp

lemma printf_writes:
  fixes s :: "'a tty_kern_scheme"
  assumes "user_ok own s" "vsprintf text_at fmt args = Inr out" "length out < 1024" "0 \<notin> set out"
    and "unat dst + 1024 \<le> data_size s" "\<forall>k < 1024. writable_page s (data_base s + dst + of_nat k)"
  obtains s' where "user_printf u text_at dst fmt args s = user_tty_write_stub u 0 dst (of_nat (length out)) s'"
    "writes own s (write_bytes (data_base s + dst) (out @ replicate (1024 - length out) 0) (\<lambda>y. load_byte y s)) s'"
proof -
  obtain s1 where s1: "store_users (replicate 1024 0) dst s = Inr s1"
    "writes own s (write_bytes (data_base s + dst) (replicate 1024 0) (\<lambda>y. load_byte y s)) s1"
    using store_users_writes [OF assms(1), of "replicate 1024 0" dst] assms(5,6) by auto
  note w = writesD [OF s1(2)] and k = writes_kern [OF s1(2)]
  have "writable_page s1 (data_base s1 + dst + of_nat j)" if "j < length out" for j
    using w(7) assms(3,6) that by (simp add: k(3))
  then obtain s2 where s2: "store_users out dst s1 = Inr s2"
    "writes own s1 (write_bytes (data_base s1 + dst) out (\<lambda>y. load_byte y s1)) s2"
    using store_users_writes [OF w(1), of out dst] assms(3,5) k(1,2) by auto
  have "writes own s (write_bytes (data_base s + dst) (out @ replicate (1024 - length out) 0) (\<lambda>y. load_byte y s)) s2"
  proof (rule writes_trans [OF s1(2) s2(2)])
    fix y assume y: "user_page s y"
    have "write_bytes (data_base s + dst) out (\<lambda>y. load_byte y s1) y =
        write_bytes (data_base s + dst) out (write_bytes (data_base s + dst) (replicate 1024 0) (\<lambda>y. load_byte y s)) y"
      by (rule write_bytes_cong) (rule w(5) [OF y])
    then show "write_bytes (data_base s1 + dst) out (\<lambda>y. load_byte y s1) y =
        write_bytes (data_base s + dst) (out @ replicate (1024 - length out) 0) (\<lambda>y. load_byte y s) y"
      using write_bytes_over [of out 1024 "data_base s + dst" 0] assms(3) by (simp only: k(3))
  qed
  moreover have "takeWhile (\<lambda>c. c \<noteq> 0) (out @ [0]) = out" using assms(4) by (subst takeWhile_append2) auto
  ultimately show thesis using that s1(1) s2(1) assms(2,3) by (simp add: user_printf_def)
qed

lemma user_tty_write_quiet:
  fixes s :: "'a tty_kern_scheme"
  assumes "write_fn s" "queue_ok (write_q s)" "chars (write_q s) = []" "con_ok (con s)" "quiet s" "n < 1024"
    and "unat src + n \<le> data_size s" "\<forall>k < n. walk s (data_base s + src + of_nat k) \<noteq> None"
    and "map (\<lambda>k. load_byte (data_base s + src + of_nat k) s) [0..<n] = out"
  obtains q c where "user_tty_write_stub u 0 src (of_nat n) s = Inr (of_nat n, s\<lparr>write_q := q, con := c\<rparr>)"
    "queue_ok q" "chars q = []" "con_ok c" "text_of c = fold print_text out (text_of (con s))"
proof -
  have n: "unat (of_nat n :: u32) = n" using assms(6) by (simp add: unat_of_nat_u32)
  then have "\<not> (of_nat n :: u32) <s 0" using assms(6) by (simp add: negative_word)
  moreover have "length out = n" unfolding assms(9) [symmetric] by simp
  ultimately obtain q c where w: "user_tty_write (others_of u) 0 src (of_nat n) s = Inr (of_nat n, s\<lparr>write_q := q, con := c\<rparr>)"
    "queue_ok q" "chars q = []" "con_ok c" "text_of c = fold print_text out (text_of (con s))"
    using user_tty_write_prints [OF assms(1,2,4), of "of_nat n" src "others_of u" 0] assms(3,6-9) by (auto simp: n)
  let ?c = "(at_call u)\<lparr>f_eax := NR_user_tty_write, f_ebx := 0, f_ecx := src, f_edx := of_nat n\<rparr>"
  have "int80 u ?c s = Inr (of_nat n, s\<lparr>write_q := q, con := c\<rparr>)"
  proof (rule int80_quiet)
    show "call_function (others_of u) (regs u) (sys_call_table ! unat (f_eax ?c)) ?c s = Inr (of_nat n, s\<lparr>write_q := q, con := c\<rparr>)"
      using table_numbers(4) w(1) by (simp add: call_function_def)
    show "unat (f_eax ?c) < nr_system_calls" by (simp add: NR_user_tty_write_def nr_system_calls_def)
    show "quiet (s\<lparr>write_q := q, con := c\<rparr>)" using assms(5) by (simp add: quiet_def)
  qed
  moreover have "syscall_value (of_nat n) = of_nat n" using assms(6) by (intro syscall_value_small) (simp only: n)
  ultimately have "user_tty_write_stub u 0 src (of_nat n) s = Inr (of_nat n, s\<lparr>write_q := q, con := c\<rparr>)"
    by (simp add: user_tty_write_stub_def syscall3_def)
  then show thesis using that w(2-5) by blast
qed

text \<open>C37: \<open>printf\<close> of a program prints. From the format to the screen: when the text fits in the 1024 bytes
  of the function's buffer, the buffer's pages are the program's own, and the terminal is idle, the
  call builds the text in the buffer, passes it to the kernel and returns its length; the screen
  then shows the text after what was there, and of the program's memory only the buffer has changed.\<close>

theorem printf_prints:
  fixes s :: "'a tty_kern_scheme"
  assumes "user_ok own s" and "quiet s" and "write_fn s" and "queue_ok (write_q s)" and "chars (write_q s) = []" and "con_ok (con s)"
    and "vsprintf text_at fmt args = Inr out" and "length out < 1024" and "0 \<notin> set out"
    and "unat dst + 1024 \<le> data_size s" and "\<forall>k < 1024. writable_page s (data_base s + dst + of_nat k)"
  shows "\<exists>s'. user_printf u text_at dst fmt args s = Inr (of_nat (length out), s') \<and>
    text_of (con s') = fold print_text out (text_of (con s)) \<and> chars (write_q s') = [] \<and> user_ok own s' \<and> tstruct s' = tstruct s \<and>
    (\<forall>y. user_page s y \<and> (\<forall>k < 1024. y \<noteq> data_base s + dst + of_nat k) \<longrightarrow> load_byte y s' = load_byte y s)"
proof -
  let ?out = "out @ replicate (1024 - length out) 0"
  obtain s1 where p: "user_printf u text_at dst fmt args s = user_tty_write_stub u 0 dst (of_nat (length out)) s1"
    and s1: "writes own s (write_bytes (data_base s + dst) ?out (\<lambda>y. load_byte y s)) s1"
    by (rule printf_writes [OF assms(1,7-11)])
  note w = writesD [OF s1] and k = writes_kern [OF s1] and t = tty_rest [OF writesD(2) [OF s1]]
  have at: "user_page s (data_base s + dst + of_nat j)" if "j < 1024" for j
    using writable_private(3) [OF assms(1)] assms(11) that by blast
  have "load_byte (data_base s1 + dst + of_nat j) s1 = ?out ! j" if "j < 1024" for j
    using w(5) [OF at [OF that]] write_bytes_at [of j ?out] that assms(8) by (simp add: k(3))
  then have "map (\<lambda>j. load_byte (data_base s1 + dst + of_nat j) s1) [0..<length out] = out"
    using assms(8) by (intro nth_equalityI) (simp_all add: nth_append)
  moreover have "\<forall>j < length out. walk s1 (data_base s1 + dst + of_nat j) \<noteq> None"
    using writable_private(2) [OF w(1) w(7)] assms(8,11) by (auto simp: k(3))
  moreover have pre: "write_fn s1" "queue_ok (write_q s1)" "chars (write_q s1) = []" "con_ok (con s1)" "quiet s1"
    "unat dst + length out \<le> data_size s1" using assms(2-6,8,10) k(1,2,5) t by simp_all
  ultimately obtain q c where r: "user_tty_write_stub u 0 dst (of_nat (length out)) s1 = Inr (of_nat (length out), s1\<lparr>write_q := q, con := c\<rparr>)"
    "chars q = []" "text_of c = fold print_text out (text_of (con s1))"
    using user_tty_write_quiet [OF pre(1-5) assms(8) pre(6)] by blast
  have "load_byte y s1 = load_byte y s" if "user_page s y" "\<forall>j < 1024. y \<noteq> data_base s + dst + of_nat j" for y
    unfolding w(5) [OF that(1)] by (rule write_bytes_other) (use that(2) assms(8) in auto)
  moreover have "user_ok own (s1\<lparr>write_q := q, con := c\<rparr>) = user_ok own s1" "load_byte y (s1\<lparr>write_q := q, con := c\<rparr>) = load_byte y s1" for y
    by (rule user_mem_cong; simp)+
  ultimately show ?thesis using p r w(1) k(1) t by (intro exI [of _ "s1\<lparr>write_q := q, con := c\<rparr>"]) simp
qed

text \<open>The terminal of the examples, with the task's signals blocked.\<close>

definition quiet_terminal :: "u8 list \<Rightarrow> tty_kern" where
  "quiet_terminal cs = upd_task 0x30000 (\<lambda>t. t\<lparr>blocked := -1\<rparr>) (terminal cs no_keys)"

definition program_1 :: "unit program" where
  "program_1 = \<lparr>others_of = Inr, handlers = (\<lambda>c s. Inr (c, s)), regs = \<lparr>c_ebp = 0, c_esi = 0, c_edi = 0, c_gs = 0x17\<rparr>, at_call = user_frame\<rparr>"

lemma quiet_terminal_ok:
  "user_ok (\<lambda>_. 0) (quiet_terminal cs)" "quiet (quiet_terminal cs)" "data_base (quiet_terminal cs) = 0x4000000"
  "data_size (quiet_terminal cs) = 0xa0000" "write_fn (quiet_terminal cs)" "write_q (quiet_terminal cs) = queue_of 0x5800 []"
  "buffer (quiet_terminal cs) = queue_of 0x6000 cs" "con_ok (con (quiet_terminal cs))"
  "k < 4096 \<Longrightarrow> writable_page (quiet_terminal cs) (0x4002000 + of_nat k)"
proof -
  note sk = signal_kern_simps and q = quiet_terminal_def
  show "user_ok (\<lambda>_. 0) (quiet_terminal cs)" using signal_kern_ok by (simp add: q terminal_mem(1))
  have me: "state (tstruct signal_kern 0x30000) = 0" "counter (tstruct signal_kern 0x30000) = 15"
    by (simp_all add: signal_kern_def sharers_kern_simps sharer_task_def blank_task_def)
  show "quiet (quiet_terminal cs)" using me by (simp add: q quiet_def sk)
  show "data_base (quiet_terminal cs) = 0x4000000" "data_size (quiet_terminal cs) = 0xa0000" by (simp_all add: q sk)
  show "write_fn (quiet_terminal cs)" "write_q (quiet_terminal cs) = queue_of 0x5800 []"
    "buffer (quiet_terminal cs) = queue_of 0x6000 cs" "con_ok (con (quiet_terminal cs))"
    by (simp_all add: q upd_task_def con_ok_def)
  assume "k < 4096"
  note p = signal_kern_page [OF this]
  then show "writable_page (quiet_terminal cs) (0x4002000 + of_nat k)"
    by (simp add: writable_page_def private_page_def q terminal_mem(5))
qed

theorem printf_prints_witness:
  "\<exists>s'. user_printf program_1 (\<lambda>_. []) 0x2000 (map of_char ''n = %c'') [65] (quiet_terminal []) = Inr (5, s') \<and>
     text_of (con s') = fold print_text (map of_char ''n = A'') (text_of (con (quiet_terminal [])))"
proof -
  note t = quiet_terminal_ok [where cs = "[]"]
  have v: "vsprintf (\<lambda>_. []) (map of_char ''n = %c'') [65] = Inr (map of_char ''n = A'')" "length (map of_char ''n = A'' :: u8 list) = 5" "(0 :: u8) \<notin> set (map of_char ''n = A'')"
    by code_simp+
  have w: "\<forall>k < 1024. writable_page (quiet_terminal []) (data_base (quiet_terminal []) + 0x2000 + of_nat k)"
    using t(9) unfolding t(3) by simp
  have "\<exists>s'. user_printf program_1 (\<lambda>_. []) 0x2000 (map of_char ''n = %c'') [65] (quiet_terminal []) = Inr (of_nat (length (map of_char ''n = A'' :: u8 list)), s') \<and>
    text_of (con s') = fold print_text (map of_char ''n = A'') (text_of (con (quiet_terminal []))) \<and> chars (write_q s') = [] \<and>
    user_ok (\<lambda>_. 0) s' \<and> tstruct s' = tstruct (quiet_terminal []) \<and>
    (\<forall>y. user_page (quiet_terminal []) y \<and> (\<forall>k < 1024. y \<noteq> data_base (quiet_terminal []) + 0x2000 + of_nat k) \<longrightarrow>
      load_byte y s' = load_byte y (quiet_terminal []))"
    by (rule printf_prints [OF t(1,2,5) _ _ t(8) v(1) _ v(3) _ w]) (use t(4,6) v(2) in \<open>simp_all add: queue_of_ok\<close>)
  then show ?thesis by (auto simp: v(2))
qed

section \<open>Reading a line\<close>

lemma getline_step_reads:
  fixes s :: "'a tty_kern_scheme"
  assumes "user_ok own s" "quiet s" "queue_ok (buffer s)" "chars (buffer s) = ch # cs" "\<exists>x \<in> set (ch # cs). x = 10 \<or> x = -1"
    and "unat b < data_size s" "writable_page s (data_base s + b)" "unat p < data_size s" "writable_page s (data_base s + p)"
  obtains q s' where "getline_step u b p s = Inr (ch, s'\<lparr>buffer := q\<rparr>)" "queue_ok q" "chars q = cs"
    "writes own s ((\<lambda>y. load_byte y s)(data_base s + b := ch, data_base s + p := ch)) s'"
proof -
  have e: "\<exists>j < length (chars (buffer s)). unat (1 :: u32) \<le> Suc j \<and> (chars (buffer s) ! j = 10 \<or> chars (buffer s) ! j = -1)"
    using assms(5) unfolding assms(4) by (metis in_set_conv_nth le_add1 plus_1_eq_Suc unat_1)
  have pg: "\<forall>k < unat (1 :: u32). private_page s (data_base s + b + of_nat k) \<and> walk s (data_base s + b + of_nat k) \<noteq> None"
    using writable_private [OF assms(1,7)] by simp
  have lim: "unat b + unat (1 :: u32) \<le> data_size s" using assms(6) by simp
  obtain q s1 where r: "tty_read (others_of u) 0 b 1 s = Inr (1, s1\<lparr>buffer := q\<rparr>)" "queue_ok q" "chars q = cs"
    and s1: "writes own s ((\<lambda>y. load_byte y s)(data_base s + b := ch)) s1"
    by (rule tty_read_present [OF assms(3,1) e lim pg, where others = "others_of u" and channel = 0]) (simp add: assms(4))
  note w = writesD [OF s1] and k = writes_kern [OF s1]
  let ?s1 = "s1\<lparr>buffer := q\<rparr>" and ?c = "(at_call u)\<lparr>f_eax := NR_user_tty_read, f_ebx := 0, f_ecx := b, f_edx := 1\<rparr>"
  have "int80 u ?c s = Inr (1, ?s1)"
  proof (rule int80_quiet)
    show "call_function (others_of u) (regs u) (sys_call_table ! unat (f_eax ?c)) ?c s = Inr (1, ?s1)"
      using table_numbers(2) r(1) by (simp add: call_function_def)
    show "unat (f_eax ?c) < nr_system_calls" by (simp add: NR_user_tty_read_def nr_system_calls_def)
    show "quiet ?s1" using assms(2) k(5) by (simp add: quiet_def)
  qed
  then have "user_tty_read_stub u 0 b 1 s = Inr (1, ?s1)"
    by (simp add: user_tty_read_stub_def syscall3_def syscall_value_small)
  moreover have "load_user b ?s1 = Inr (ch, ?s1)"
  proof -
    obtain e where "walk s1 (data_base s + b) = Some e" using writable_private(2) [OF w(1) w(7)] assms(7) by blast
    moreover have "load_byte (data_base s + b) s1 = ch" using w(5) writable_private(3) [OF assms(1,7)] by simp
    ultimately show ?thesis using assms(6) fs_linear_in [of b 1 ?s1] k(1,2) by (simp add: load_user_def touch_def)
  qed
  moreover have wp: "writable_page ?s1 (data_base ?s1 + p)" "unat p < data_size ?s1" "user_ok own ?s1"
    using w(7) [OF assms(9)] assms(8) k(1,2) w(1) by (simp_all add: writable_page_def)
  obtain s3 where s3: "store_user ch p ?s1 = Inr s3" "writes own ?s1 ((\<lambda>y. load_byte y ?s1)(data_base ?s1 + p := ch)) s3"
    by (rule store_user_writes [OF wp(3,1,2)])
  ultimately have g: "getline_step u b p s = Inr (ch, s3)" by (simp add: getline_step_def)
  let ?s' = "s3\<lparr>buffer := buffer s1\<rparr>"
  have "writes own s1 ((\<lambda>y. load_byte y s1)(data_base s + p := ch)) ?s'" using writes_buffer [OF s3(2)] k(1,2) by simp
  then have "writes own s ((\<lambda>y. load_byte y s)(data_base s + b := ch, data_base s + p := ch)) ?s'"
    by (rule writes_trans [OF s1]) (simp add: w(5))
  moreover have "?s'\<lparr>buffer := q\<rparr> = s3" using tty_rest(1) [OF writesD(2) [OF s3(2)]] by simp
  ultimately show thesis using that g r(2,3) by metis
qed

lemma getline_loop_reads:
  fixes s :: "'a tty_kern_scheme"
  assumes "user_ok own s" "quiet s" "queue_ok (buffer s)" "chars (buffer s) = line @ 10 # rest"
    and "10 \<notin> set line" "-1 \<notin> set line" "ch0 \<noteq> 10" "ch0 \<noteq> -1"
    and "unat b < data_size s" "writable_page s (data_base s + b)" "unat p + length line < data_size s"
    and "\<And>k. k \<le> length line \<Longrightarrow> writable_page s (data_base s + p + of_nat k) \<and> b \<noteq> p + of_nat k"
  shows "\<exists>q s'. getline_loop u b ch0 p len s =
      Some (Inr (p + of_nat (length line) + 1, len + of_nat (length line) + 1, s'\<lparr>buffer := q\<rparr>)) \<and> queue_ok q \<and> chars q = rest \<and>
    writes own s (write_bytes (data_base s + p) (line @ [10]) ((\<lambda>y. load_byte y s)(data_base s + b := 10))) s'"
  using assms
proof (induction line arbitrary: ch0 p len s)
  case Nil
  have "\<exists>x \<in> set (10 # rest). x = 10 \<or> x = (-1 :: u8)" by simp
  moreover have "writable_page s (data_base s + p)" using Nil.prems(12) [of 0] by simp
  ultimately obtain q s' where r: "getline_step u b p s = Inr (10, s'\<lparr>buffer := q\<rparr>)" "queue_ok q" "chars q = rest"
    "writes own s ((\<lambda>y. load_byte y s)(data_base s + b := 10, data_base s + p := 10)) s'"
    using getline_step_reads [OF Nil.prems(1-3), of 10 rest b p u] Nil.prems(4,9-11) by auto
  then show ?case using Nil.prems(7,8) by (subst getline_loop.simps, subst getline_loop.simps) auto
next
  case (Cons ch line)
  have "\<exists>x \<in> set (ch # line @ 10 # rest). x = 10 \<or> x = -1" by simp
  moreover have p0: "writable_page s (data_base s + p)" "b \<noteq> p" using Cons.prems(12) [of 0] by simp_all
  ultimately obtain q s1 where r: "getline_step u b p s = Inr (ch, s1\<lparr>buffer := q\<rparr>)" "queue_ok q" "chars q = line @ 10 # rest"
    and s1: "writes own s ((\<lambda>y. load_byte y s)(data_base s + b := ch, data_base s + p := ch)) s1"
    using getline_step_reads [OF Cons.prems(1-3), of ch "line @ 10 # rest" b p u] Cons.prems(4,9-11) by auto
  note w = writesD [OF s1] and k = writes_kern [OF s1]
  let ?s1 = "s1\<lparr>buffer := q\<rparr>"
  have k1: "data_base ?s1 = data_base s" "data_size ?s1 = data_size s" "quiet ?s1" "user_ok own ?s1"
    "\<And>y. writable_page ?s1 y = writable_page s1 y"
    using k(1,2,5) Cons.prems(2) w(1) by (simp_all add: quiet_def writable_page_def)
  have "writable_page ?s1 (data_base ?s1 + (p + 1) + of_nat j) \<and> b \<noteq> p + 1 + of_nat j" if "j \<le> length line" for j
    using Cons.prems(12) [of "Suc j"] w(7) that by (simp add: k(1,2) k1(5) algebra_simps)
  moreover have "unat (p + 1) \<le> unat p + 1" by (simp add: unat_word_ariths)
  then have "unat (p + 1) + length line < data_size ?s1" using Cons.prems(11) k1(2) by simp
  moreover have "ch \<noteq> -1" using Cons.prems(6) by auto
  then have pr: "queue_ok (buffer ?s1)" "chars (buffer ?s1) = line @ 10 # rest" "10 \<notin> set line" "-1 \<notin> set line" "ch \<noteq> 10" "ch \<noteq> -1"
    "unat b < data_size ?s1" "writable_page ?s1 (data_base ?s1 + b)"
    using r(2,3) Cons.prems(5,6,9,10) w(7) k(1,2) by (simp_all add: k1(5))
  ultimately obtain q' s' where r': "getline_loop u b ch (p + 1) (len + 1) ?s1 =
      Some (Inr (p + 1 + of_nat (length line) + 1, len + 1 + of_nat (length line) + 1, s'\<lparr>buffer := q'\<rparr>))" "queue_ok q'" "chars q' = rest"
    "writes own ?s1 (write_bytes (data_base ?s1 + (p + 1)) (line @ [10]) ((\<lambda>y. load_byte y ?s1)(data_base ?s1 + b := 10))) s'"
    using Cons.IH [OF k1(4,3) pr] by blast
  let ?s' = "s'\<lparr>buffer := buffer s1\<rparr>"
  have "writes own s1 (write_bytes (data_base s + (p + 1)) (line @ [10]) ((\<lambda>y. load_byte y s1)(data_base s + b := 10))) ?s'"
    using writes_buffer [OF r'(4)] k(1,2) by simp
  then have wr: "writes own s (write_bytes (data_base s + p) ((ch # line) @ [10]) ((\<lambda>y. load_byte y s)(data_base s + b := 10))) ?s'"
  proof (rule writes_trans [OF s1])
    fix y assume y: "user_page s y"
    show "write_bytes (data_base s + (p + 1)) (line @ [10]) ((\<lambda>y. load_byte y s1)(data_base s + b := 10)) y =
        write_bytes (data_base s + p) ((ch # line) @ [10]) ((\<lambda>y. load_byte y s)(data_base s + b := 10)) y"
      by (simp add: add.assoc) (rule write_bytes_cong, use p0(2) w(5) [OF y] in auto)
  qed
  have "getline_loop u b ch0 p len s = getline_loop u b ch (p + 1) (len + 1) ?s1"
    using Cons.prems(7,8) r(1) by (subst getline_loop.simps) simp
  then have "getline_loop u b ch0 p len s =
      Some (Inr (p + of_nat (length (ch # line)) + 1, len + of_nat (length (ch # line)) + 1, ?s'\<lparr>buffer := q'\<rparr>))"
    using r'(1) by (simp add: algebra_simps)
  then show ?case using wr r'(2,3) by blast
qed

text \<open>C39: \<open>getline\<close> of a program reads one line. When the line buffer of the terminal holds a line and its
  newline, a program that calls \<open>getline\<close> with a buffer of its own pages gets the characters of the
  line one system call at a time, followed by a zero byte in place of the newline, and their
  number; the buffer of the terminal keeps what comes after the line, and nothing else of the
  program's memory changes but the function's own \<open>_buf\<close>. The value that happens to be in \<open>ch\<close>
  must not look like the end of a line, as the code tests it before it reads one.\<close>

theorem getline_reads_line:
  fixes s :: "'a tty_kern_scheme"
  assumes "user_ok own s" and "quiet s" and "queue_ok (buffer s)" and "chars (buffer s) = line @ 10 # rest"
    and "10 \<notin> set line" and "-1 \<notin> set line" and "ch0 \<noteq> 10" and "ch0 \<noteq> -1"
    and "unat b < data_size s" and "writable_page s (data_base s + b)" and "unat str + length line < data_size s"
    and "\<forall>k \<le> length line. writable_page s (data_base s + str + of_nat k) \<and> b \<noteq> str + of_nat k"
  shows "\<exists>s'. getline u b ch0 str s = Inr (of_nat (length line), s') \<and> chars (buffer s') = rest \<and> queue_ok (buffer s') \<and>
    (\<forall>k < length line. load_byte (data_base s + str + of_nat k) s' = line ! k) \<and>
    load_byte (data_base s + str + of_nat (length line)) s' = 0 \<and> user_ok own s' \<and> tstruct s' = tstruct s \<and>
    (\<forall>y. user_page s y \<and> y \<noteq> data_base s + b \<and> (\<forall>k \<le> length line. y \<noteq> data_base s + str + of_nat k) \<longrightarrow>
      load_byte y s' = load_byte y s)"
proof -
  let ?x = "data_base s + str" and ?n = "length line"
  let ?f = "write_bytes ?x (line @ [10]) ((\<lambda>y. load_byte y s)(data_base s + b := 10))"
  obtain q s1 where g: "getline_loop u b ch0 str 0 s = Some (Inr (str + of_nat ?n + 1, of_nat ?n + 1, s1\<lparr>buffer := q\<rparr>))"
    "queue_ok q" "chars q = rest" and s1: "writes own s ?f s1"
    using getline_loop_reads [OF assms(1-11), where len = 0 and u = u] assms(12) by auto
  note w = writesD [OF s1] and k = writes_kern [OF s1]
  let ?s1 = "s1\<lparr>buffer := q\<rparr>" and ?e = "str + of_nat ?n"
  have wr: "writable_page s (?x + of_nat j)" if "j \<le> ?n" for j using assms(12) that by blast
  have "unat (of_nat ?n :: u32) \<le> ?n" by (simp add: unat_of_nat)
  moreover have "unat ?e \<le> unat str + unat (of_nat ?n :: u32)" by (simp add: unat_word_ariths)
  ultimately have "unat ?e < data_size ?s1" using assms(11) k(1,2) by simp
  moreover have "user_ok own ?s1" using w(1) by simp
  moreover have "writable_page ?s1 (data_base ?s1 + ?e)"
    using w(7) [OF wr [of ?n]] k(1,2) by (simp add: writable_page_def add.assoc)
  ultimately obtain s3 where s3: "store_user 0 ?e ?s1 = Inr s3" "writes own ?s1 ((\<lambda>y. load_byte y ?s1)(data_base ?s1 + ?e := 0)) s3"
    using store_user_writes by blast
  note w3 = writesD [OF s3(2)] and k3 = writes_kern [OF s3(2)]
  have l: "load_byte y s3 = (if y = ?x + of_nat ?n then 0 else ?f y)" if "user_page s y" for y
    using w3(5) [of y] w(4,5) [OF that] k(1,2) by (simp add: add.assoc)
  have n: "?n < 4294967295" using ring.bounded [OF assms(3)] by (simp add: assms(4))
  have ne: "?x + of_nat j \<noteq> ?x + of_nat ?n" if "j < ?n" for j
  proof
    assume "?x + of_nat j = ?x + of_nat ?n"
    then have "unat (of_nat j :: u32) = unat (of_nat ?n :: u32)" by simp
    then show False using that n by (simp add: unat_of_nat_u32)
  qed
  have "load_byte (?x + of_nat j) s3 = line ! j" if "j < ?n" for j
    using l [OF writable_private(3) [OF assms(1) wr]] that ne [OF that] n by (simp add: write_bytes_at nth_append)
  moreover have "load_byte (?x + of_nat ?n) s3 = 0" using l [OF writable_private(3) [OF assms(1) wr [of ?n]]] by simp
  moreover have "load_byte y s3 = load_byte y s"
    if "user_page s y" "y \<noteq> data_base s + b" "\<forall>j \<le> ?n. y \<noteq> ?x + of_nat j" for y
    using l [OF that(1)] that(2,3) write_bytes_other [of "line @ [10]" y ?x] by auto
  moreover have "getline u b ch0 str s = Inr (of_nat ?n, s3)" using s3(1) by (simp add: getline_def g(1))
  moreover have "buffer s3 = q" "tstruct s3 = tstruct s" using tty_rest(1) [OF w3(2)] k3(1) k(1) by simp_all
  ultimately show ?thesis using g(2,3) w3(1) by (intro exI [of _ s3]) simp
qed

theorem getline_reads_line_witness:
  "\<exists>s'. getline program_1 0x2800 0 0x2000 (quiet_terminal [104, 105, 10, 120]) = Inr (2, s') \<and>
     load_byte 0x4002001 s' = 105 \<and> load_byte 0x4002002 s' = 0 \<and> chars (buffer s') = [120]"
proof -
  let ?s = "quiet_terminal [104, 105, 10, 120]"
  note t = quiet_terminal_ok [where cs = "[104, 105, 10, 120]"]
  have ne: "(0x2800 :: u32) \<noteq> 0x2000 + of_nat k" if "k \<le> 2" for k
  proof
    assume "(0x2800 :: u32) = 0x2000 + of_nat k"
    then have "unat (0x2800 :: u32) = unat (0x2000 + of_nat k :: u32)" by simp
    moreover have "unat (0x2000 + of_nat k :: u32) = 8192 + k" using that by (simp add: unat_word_ariths unat_of_nat_u32)
    ultimately show False using that by simp
  qed
  have "\<exists>s'. getline program_1 0x2800 0 0x2000 ?s = Inr (of_nat (length [104, 105 :: u8]), s') \<and> chars (buffer s') = [120] \<and> queue_ok (buffer s') \<and>
    (\<forall>k < length [104, 105 :: u8]. load_byte (data_base ?s + 0x2000 + of_nat k) s' = [104, 105] ! k) \<and>
    load_byte (data_base ?s + 0x2000 + of_nat (length [104, 105 :: u8])) s' = 0 \<and> user_ok (\<lambda>_. 0) s' \<and> tstruct s' = tstruct ?s \<and>
    (\<forall>y. user_page ?s y \<and> y \<noteq> data_base ?s + 0x2800 \<and> (\<forall>k \<le> length [104, 105 :: u8]. y \<noteq> data_base ?s + 0x2000 + of_nat k) \<longrightarrow>
      load_byte y s' = load_byte y ?s)"
    by (rule getline_reads_line) (use t ne t(9) [where k = "0x800"] in \<open>simp_all add: queue_of_ok\<close>)
  then obtain s' where s': "getline program_1 0x2800 0 0x2000 ?s = Inr (2, s')" "chars (buffer s') = [120]"
    "\<forall>k < 2. load_byte (0x4002000 + of_nat k) s' = [104, 105] ! k" "load_byte 0x4002002 s' = 0"
    by (auto simp: t(3))
  then show ?thesis using s'(3) [THEN spec, of 1] by auto
qed

text \<open>With a newline left in \<open>ch\<close>, \<open>getline\<close> reads nothing, returns \<open>-1\<close> and writes a zero before its buffer.\<close>

lemma getline_uninitialised:
  "getline u b 10 str s = kbind (store_user 0 (str - 1) s) (\<lambda>s1. Inr (-1, s1))"
  by (simp add: getline_def getline_loop.simps)

end
