(* ===== verification/Spec2Isabelle.thy ===== *)
theory Spec2Isabelle
  imports Blk Boot Isolation Kernel_Invariant Serial Signal_Return Syscalls Tty_Shared User_Lib
begin

text \<open>
  A verification library for neu-os, a small 32-bit x86 kernel in the style of Linux 0.11
  (paths below are those under src/).

  The kernel. After the boot loader, \<open>main\<close> (init/main.c) sets up the screen, the exceptions, the
  task table, the page allocator and the terminal, and goes on in user mode as task 0. From
  then on the kernel runs when a task makes a system call (kernel/system_call.s), when a page
  fault or another exception stops one (mm/page.s, kernel/traps.c), at the ticks of the timer
  and at the keys of the keyboard. A system call may put its task to sleep; \<open>schedule\<close>
  (kernel/sched.c) then runs another one, and on the way back to user mode a pending signal is
  delivered. Tasks share frames of memory after a fork until one of them writes.

  How it is modelled. C functions are functions on the state of the kernel, a record that grows
  with the components: \<open>mm\<close> (memory and the byte map of frames), \<open>kern\<close> (task table, descriptors,
  GDT, IDT, wait queues), \<open>tty_kern\<close> (the terminal) and \<open>blk_kern\<close> (block requests). C's \<open>int\<close>,
  \<open>long\<close> and pointers are 32-bit words with their wrap-around and signed comparisons. A
  function that may not return has a result in \<open>kerror + _\<close>: a call of \<open>panic\<close>, of \<open>die\<close>, an
  index outside of an array, a null pointer, or a loop that does not end are values. What other
  tasks do while one sleeps is a parameter \<open>others\<close>, a function on the state, so that the
  theorems hold for every behaviour of the others or name what they need of it.

  Theories, with the code they model and what their lemmas show.

  \<^item> \<open>Prelude\<close>: machine types, outcomes, C's signed division, pages and slots; used by all.
  \<^item> \<open>Page_Alloc\<close>: \<open>mem_init\<close>, \<open>get_free_page\<close>, \<open>free_page\<close>, \<open>calc_mem\<close> of mm/memory.c. The locale
    \<open>page_frames\<close> states what the rest of the kernel relies on, and is interpreted on the byte
    map; C1, C2.
  \<^item> \<open>Page_Tables\<close>, \<open>Page_Faults\<close>: \<open>put_page\<close>, \<open>un_wp_page\<close>, \<open>write_verify\<close>, \<open>do_wp_page\<close>, \<open>do_no_page\<close>
    of mm/memory.c, the entry of mm/page.s, the helpers of mm/mm_test.c: what each does to the
    translation of every address; C4 to C7.
  \<^item> \<open>Ref_Count\<close>, \<open>Address_Spaces\<close>: \<open>free_page_tables\<close> and \<open>copy_page_tables\<close> of mm/memory.c, and the
    invariant of the memory manager: the byte of a frame counts its references exactly, in every
    state that is reachable by the operations; C10 to C12.
  \<^item> \<open>Descriptors\<close>, \<open>Tasks\<close>, \<open>Kernel_Frame\<close>: descriptors of the GDT and IDT (include/asm/system.h,
    include/linux/sched.h), the task table, and which operations leave what alone.
  \<^item> \<open>Sched\<close>: kernel/sched.c, \<open>sys_sleep\<close> of kernel/sys.c and the timer interrupt: choice of the next
    task, alarms, sleeping and waking, and when \<open>schedule\<close> does not end; C15, C17 to C19.
  \<^item> \<open>Fork\<close>: kernel/fork.c: the number and slot of a child, its descriptor and address space, and
    the undoing of a fork that fails; C23, C24.
  \<^item> \<open>User_Mem\<close>: the accesses through \<open>fs\<close> of include/asm/segment.h, with the limit of the segment
    and the page faults they cause: a verified write reaches one address space only; C25.
  \<^item> \<open>Isolation\<close>: fork, page faults and the writes of tasks in user mode together. A fork with enough
    free frames succeeds, the child reads what its parent reads, and no sequence of later writes
    reaches a page it does not address; C13. \<open>user_store\<close> is the processor's part: a store that runs
    the handler of page faults first when the page is missing or cannot be written.
  \<^item> \<open>Exit\<close>, \<open>Signal\<close>, \<open>Signal_Return\<close>: kernel/exit.c, kernel/signal.c, \<open>ret_from_syscall\<close> of
    kernel/system_call.s and the restorers of kernel/libc_restore.s: signals from \<open>kill\<close> to the
    handler and back to the interrupted code, and the end of a task; C14, C26 to C32.
  \<^item> \<open>Tty_Queue\<close>, \<open>Vga\<close>, \<open>Vsprintf\<close>, \<open>Serial\<close>, \<open>Tty_Io\<close>: kernel/chr_drv, kernel/vsprintf.c,
    kernel/printk.c, kernel/serial_debug.c. A queue is a bounded sequence (locale \<open>fifo\<close>, interpreted
    on the ring), the screen is rows of text, a key edits the line, a task reads lines and prints
    text, and the two formatters agree; C21, C33 to C36, C38. \<open>Tty_Shared\<close>: a read of the terminal stores
    through pages that a fork shares; C20.
  \<^item> \<open>Blk\<close>: kernel/blk_drv: the elevator's order of requests and the choice of a slot; C9, C40.
  \<^item> \<open>Kernel_Invariant\<close>: the invariant of the whole kernel and that every way in keeps it: system calls,
    page faults, ticks and keys, in any order (\<open>kernel_run\<close>). The locale \<open>task_property\<close> says what makes a
    property of the state one that the scheduler, the wait queues and the timer keep; C3, C16.
  \<^item> \<open>User_Lib\<close>: the stubs of include/unistd.h, lib/printf.c and lib/getline.c as programs that run in user
    mode on the task's own pages and enter the kernel through \<open>system_call\<close>: from a format to the
    screen, from the line buffer to the program; C37, C39.
  \<^item> \<open>Syscalls\<close>, \<open>Traps\<close>, \<open>Boot\<close>: kernel/system_call.s with the table of include/linux/sys.h,
    kernel/traps.c, and \<open>main\<close>: the composition of the components above, for a signal that a task
    sends itself and for the start of the kernel, which establishes the invariant; C8, C22.

  Loops. A loop over a table or a range is a recursive function on the number of rounds left.
  A loop without such a bound (\<open>schedule\<close>, the search for a process number, sleeping until a
  queue is filled, the read of lines, the waits for the serial line, the walks of request lists)
  is a \<open>partial_function\<close> whose value \<open>None\<close>, and then the outcome \<open>Hang\<close>, means that it does not end;
  the theorems say when a value is returned. The model has no bounds of its own:
  where the code writes to a buffer of fixed size (the 50 digits of a number, the 1024
  characters of \<open>printk\<close> and of \<open>tty_read\<close>), the size is that of the code and an overflow is
  \<open>Out_of_bounds\<close>.

  Devices. A write to a port is an entry of a list, \<open>outs\<close> of the kernel for the interrupt controllers, the
  timer and the keyboard controller, \<open>ports\<close> of the console for the video controller. What a read gives is
  a parameter, a function of the writes before it; the theorems that depend on it say how the device
  behaves (\<open>mask_ports\<close>, \<open>crtc\<close>, and \<open>live\<close> of the serial line).

  Not modelled. The processor's caching of translations, and the debug output to the serial line that
  many functions interleave with their work (its functions are modelled in \<open>Serial\<close>). Interrupts are not taken inside a kernel function;
  what happens between two of them is the parameter \<open>others\<close>. The boot loader and the assembly
  entries that only save and restore registers (boot/, kernel/asm.s). The demonstrations in
  init/main.c, kernel/signal_demo.c and mm/mm_test.c, which call what is modelled. The functions
  behind the block request lists are parameters, as the repository has no block driver.
\<close>

end
